(* ===== verification/Kernel_Prelude.thy ===== *)
theory Kernel_Prelude
  imports Main "HOL-Library.Word" "HOL-Library.Signed_Division"
begin

text \<open>
  The prelude of the development: the machine types of \<^verbatim>\<open>include/common.h\<close>, the fact
  collections the component theories share, and the generic lemmas on words and lists that
  their proofs rest on.
\<close>

unbundle bit_operations_syntax

subsection \<open>Types of the C code\<close>

type_synonym u8 = "8 word"
type_synonym u16 = "16 word"
type_synonym u32 = "32 word"
type_synonym u64 = "64 word"

named_theorems mem_simps \<open>loads and stores of the byte memory\<close>
named_theorems inv_intros \<open>operations keep the invariant of their component\<close>

subsection \<open>Lists\<close>

lemma find_append: "find P (xs @ ys) = (case find P xs of None \<Rightarrow> find P ys | Some x \<Rightarrow> Some x)"
  by (induction xs) simp_all

subsection \<open>Alignment masks\<close>

text \<open>
  The idiom \<^verbatim>\<open>(x + 2^n - 1) & ~(2^n - 1)\<close> of \<^verbatim>\<open>align8\<close> and \<^verbatim>\<open>align_up\<close>:
  clearing the low bits rounds down to a multiple, and without wrap-around the sum first
  rounds up.
\<close>

lemma and_not_mask_eq: "(x :: 'a::len word) AND NOT (mask n) = push_bit n (drop_bit n x)"
  by (rule bit_word_eqI) (auto simp: bit_simps)

lemma unat_and_not_mask:
  "unat ((x :: 'a::len word) AND NOT (mask n)) = unat x div 2 ^ n * 2 ^ n"
proof -
  have "x AND NOT (mask n) = x - take_bit n x"
    by (metis add_diff_cancel_right' bits_ident and_not_mask_eq)
  moreover have small: "unat (take_bit n x) = unat x mod 2 ^ n"
    by (simp add: unsigned_take_bit_eq take_bit_eq_mod [of _ "unat x"])
  moreover have "take_bit n x \<le> x"
    by (simp add: word_le_nat_alt small)
  ultimately show ?thesis
    by (simp add: unat_sub minus_mod_eq_div_mult)
qed

lemma unat_plus_no_wrap:
  "unat (a :: 'a::len word) + unat b < 2 ^ LENGTH('a) \<Longrightarrow> unat (a + b) = unat a + unat b"
  by (simp add: unat_word_ariths)

lemma of_nat_unat_div: "of_nat (unat x div unat y) = (x :: 'a::len word) div y"
  by (metis of_nat_unat ucast_id unat_div_distrib)

lemma unat_of_nat_small: "n < 2 ^ LENGTH('a) \<Longrightarrow> unat (of_nat n :: 'a::len word) = n"
  by (simp add: unsigned_of_nat take_bit_nat_eq_self)

lemma unat_u32 [simp]: "unat (x :: u32) < 4294967296"
  using unsigned_less [of x, where ?'a = nat] by simp

subsection \<open>Counted loops\<close>

text \<open>
  A loop \<^verbatim>\<open>for (i = ...; i < n; i++)\<close> over unsigned words counts without wrapping, and
  the distance to its bound shrinks.
\<close>

lemma unat_succ_less:
  assumes "(i :: 'a::len word) < n"
  shows "unat (i + 1) = Suc (unat i)"
proof -
  have "unat i < unat n" and "unat n < 2 ^ LENGTH('a)"
    using assms by (simp_all add: word_less_nat_alt)
  then have "unat i + 1 < 2 ^ LENGTH('a)" by linarith
  then show ?thesis
    by (simp add: unat_word_ariths)
qed

lemma count_up_measure [simp]:
  "(i :: 'a::len word) < n \<Longrightarrow> unat n - unat (i + 1) < unat n - unat i"
  by (simp add: unat_succ_less word_less_nat_alt diff_less_mono2)

lemma word_less_succ_iff:
  "(i :: 'a::len word) < n \<Longrightarrow> j < i + 1 \<longleftrightarrow> j < i \<or> j = i"
  by (auto simp: word_less_nat_alt unat_succ_less less_Suc_eq word_unat_eq_iff)

lemma word_succ_le_iff:
  "(i :: 'a::len word) < n \<Longrightarrow> i + 1 \<le> j \<longleftrightarrow> i < j"
  by (auto simp: word_le_nat_alt word_less_nat_alt unat_succ_less)

lemma div_mult_ge_round_up:
  assumes "(k::nat) > 0"
  shows "n \<le> (n + (k - 1)) div k * k"
proof -
  have "(n + (k - 1)) mod k \<le> k - 1"
    using assms by (simp add: Suc_le_lessD less_Suc_eq_le [symmetric])
  then show ?thesis
    using div_mult_mod_eq [of "n + (k - 1)" k] by linarith
qed

end
