(* ===== verification/Bounded_Fifo.thy ===== *)
theory Bounded_Fifo
  imports Kernel_Prelude
begin

text \<open>
  The interface of the kernel's bounded queues and the ring-buffer arithmetic they share.
  Three modules keep a fixed array with a \<open>head\<close> and a \<open>tail\<close> index
  (\<^verbatim>\<open>src/proc/ipc.c\<close>, \<^verbatim>\<open>src/lib/input.c\<close>, \<^verbatim>\<open>src/drivers/keyboard_buffer.c\<close>);
  each is an instance of the locale \<open>bounded_fifo\<close>, whose lemmas say what a client may rely
  on over any sequence of operations.
\<close>

subsection \<open>Ring arithmetic\<close>

text \<open>The pending elements of a ring, oldest first.\<close>

definition ring_list :: "'a list \<Rightarrow> int \<Rightarrow> int \<Rightarrow> 'a list" where
  "ring_list buf head tail =
     map (\<lambda>i. buf ! nat ((tail + int i) mod int (length buf)))
       [0..<nat ((head - tail) mod int (length buf))]"

definition ring_wf :: "nat \<Rightarrow> 'a list \<Rightarrow> int \<Rightarrow> int \<Rightarrow> bool" where
  "ring_wf n buf head tail \<longleftrightarrow>
     0 < n \<and> length buf = n \<and> 0 \<le> head \<and> head < int n \<and> 0 \<le> tail \<and> tail < int n"

lemma smod_nonneg: "0 \<le> a \<Longrightarrow> 0 < b \<Longrightarrow> a smod b = a mod (b::int)"
  by (simp add: signed_modulo_int_def sgn_if)

lemma ring_wf_succ_head:
  "ring_wf n buf h t \<Longrightarrow> ring_wf n (buf[nat h := x]) ((h + 1) mod int n) t"
  by (simp add: ring_wf_def)

lemma ring_wf_succ_tail: "ring_wf n buf h t \<Longrightarrow> ring_wf n buf h ((t + 1) mod int n)"
  by (simp add: ring_wf_def)

lemma diff_mod_cases:
  assumes "0 \<le> h" "h < n" "0 \<le> t" "t < (n::int)"
  shows "(h - t) mod n = (if t \<le> h then h - t else h - t + n)"
proof (cases "t \<le> h")
  case False
  then have "(h - t) mod n = (h - t + n) mod n" by simp
  also have "\<dots> = h - t + n" using assms False by (intro mod_pos_pos_trivial) auto
  finally show ?thesis using False by simp
qed (use assms in \<open>auto intro: mod_pos_pos_trivial\<close>)

lemma succ_mod_cases:
  "0 \<le> h \<Longrightarrow> h < n \<Longrightarrow> (h + 1) mod n = (if h + 1 = n then 0 else h + (1::int))"
  by auto

lemma length_ring_list:
  "ring_wf n buf h t \<Longrightarrow> length (ring_list buf h t) = nat (if t \<le> h then h - t else h - t + int n)"
  by (simp add: ring_list_def ring_wf_def diff_mod_cases)

lemma ring_empty_iff: "ring_wf n buf h t \<Longrightarrow> h = t \<longleftrightarrow> ring_list buf h t = []"
  using length_ring_list [of n buf h t]
  by (cases "ring_list buf h t") (auto simp: ring_wf_def ring_list_def split: if_splits)

lemma ring_full_iff:
  "ring_wf n buf h t \<Longrightarrow> (h + 1) mod int n = t \<longleftrightarrow> length (ring_list buf h t) = n - 1"
  using length_ring_list [of n buf h t] by (auto simp: ring_wf_def succ_mod_cases split: if_splits)

lemma length_ring_less: "ring_wf n buf h t \<Longrightarrow> length (ring_list buf h t) \<le> n - 1"
  using length_ring_list [of n buf h t] by (auto simp: ring_wf_def split: if_splits)

lemma ring_push:
  assumes wf: "ring_wf n buf h t" and room: "(h + 1) mod int n \<noteq> t"
  shows "ring_list (buf[nat h := x]) ((h + 1) mod int n) t = ring_list buf h t @ [x]"
proof -
  let ?k = "nat ((h - t) mod int n)"
  have k: "nat (((h + 1) mod int n - t) mod int n) = Suc ?k"
    using wf room by (auto simp: ring_wf_def diff_mod_cases succ_mod_cases)
  have old: "nat ((t + int i) mod int n) \<noteq> nat h" if "i < ?k" for i
  proof -
    have "t + int i < h \<or> h < t + int i \<and> t + int i < h + int n"
      using that wf by (auto simp: ring_wf_def diff_mod_cases split: if_splits)
    then have "(t + int i) mod int n \<noteq> h"
      using wf mod_pos_pos_trivial [of "t + int i" "int n"]
        mod_pos_pos_trivial [of "t + int i - int n" "int n"]
      by (cases "t + int i < int n") (auto simp: ring_wf_def)
    with wf show ?thesis by (simp add: ring_wf_def eq_nat_nat_iff)
  qed
  have last: "(t + int ?k) mod int n = h"
    using wf by (auto simp: ring_wf_def diff_mod_cases)
  have "ring_list (buf[nat h := x]) ((h + 1) mod int n) t =
      map (\<lambda>i. buf[nat h := x] ! nat ((t + int i) mod int n)) [0..<Suc ?k]"
    using wf k by (simp add: ring_list_def ring_wf_def)
  also have "\<dots> = map (\<lambda>i. buf ! nat ((t + int i) mod int n)) [0..<?k] @ [x]"
  proof -
    have "map (\<lambda>i. buf[nat h := x] ! nat ((t + int i) mod int n)) [0..<?k] =
        map (\<lambda>i. buf ! nat ((t + int i) mod int n)) [0..<?k]"
    proof (rule map_cong [OF refl])
      fix i assume "i \<in> set [0..<?k]"
      then show "buf[nat h := x] ! nat ((t + int i) mod int n) = buf ! nat ((t + int i) mod int n)"
        using old [of i] by (intro nth_list_update_neq) auto
    qed
    then show ?thesis using last wf by (simp add: ring_wf_def nat_less_iff)
  qed
  finally show ?thesis using wf by (simp add: ring_list_def ring_wf_def)
qed

lemma ring_pop:
  assumes wf: "ring_wf n buf h t" and ne: "h \<noteq> t"
  shows "ring_list buf h t = buf ! nat t # ring_list buf h ((t + 1) mod int n)"
proof -
  let ?k = "nat ((h - (t + 1) mod int n) mod int n)"
  have k: "nat ((h - t) mod int n) = Suc ?k"
    using wf ne by (auto simp: ring_wf_def diff_mod_cases succ_mod_cases)
  have "ring_list buf h t = map (\<lambda>i. buf ! nat ((t + int i) mod int n)) (0 # map Suc [0..<?k])"
    using wf k by (simp add: ring_list_def ring_wf_def upt_conv_Cons map_Suc_upt del: upt_Suc)
  also have "\<dots> = buf ! nat t # map (\<lambda>i. buf ! nat (((t + 1) mod int n + int i) mod int n)) [0..<?k]"
    using wf by (simp add: ring_wf_def mod_simps o_def ac_simps)
  finally show ?thesis using wf by (simp add: ring_list_def ring_wf_def)
qed

text \<open>The facts on one step of a ring, as its instances use them.\<close>

lemma ring_room_iff:
  "ring_wf n buf h t \<Longrightarrow> (h + 1) mod int n \<noteq> t \<longleftrightarrow> length (ring_list buf h t) < n - 1"
  using ring_full_iff [of n buf h t] length_ring_less [of n buf h t] by linarith

lemmas ring_ops = ring_room_iff ring_push ring_wf_succ_head ring_wf_succ_tail ring_empty_iff ring_pop

subsection \<open>The interface\<close>

text \<open>
  A client pushes (learning whether the element was taken) and pops. A run collects the
  elements that were taken and those that were delivered, in order.
\<close>

datatype 'a fifo_op = Push 'a | Pop

fun fifo_run :: "('a \<Rightarrow> 's \<Rightarrow> bool \<times> 's) \<Rightarrow> ('s \<Rightarrow> 'a option \<times> 's) \<Rightarrow>
    'a fifo_op list \<Rightarrow> 's \<Rightarrow> 'a list \<times> 'a list \<times> 's" where
  "fifo_run push pop [] s = ([], [], s)"
| "fifo_run push pop (Push x # ops) s =
     (let (ok, s1) = push x s; (taken, out, s2) = fifo_run push pop ops s1
      in (if ok then x # taken else taken, out, s2))"
| "fifo_run push pop (Pop # ops) s =
     (let (r, s1) = pop s; (taken, out, s2) = fifo_run push pop ops s1
      in (taken, (case r of None \<Rightarrow> out | Some x \<Rightarrow> x # out), s2))"

locale bounded_fifo =
  fixes reset :: "'s \<Rightarrow> 's"
    and push :: "'a \<Rightarrow> 's \<Rightarrow> bool \<times> 's"
    and pop :: "'s \<Rightarrow> 'a option \<times> 's"
    and contents :: "'s \<Rightarrow> 'a list"
    and invar :: "'s \<Rightarrow> bool"
    and cap :: nat
  assumes reset_ok: "invar s \<Longrightarrow> invar (reset s) \<and> contents (reset s) = []"
    and invar_bound: "invar s \<Longrightarrow> length (contents s) \<le> cap"
    and push_ok: "invar s \<Longrightarrow> push x s = (ok, s') \<Longrightarrow>
      invar s' \<and> ok = (length (contents s) < cap) \<and>
      contents s' = contents s @ (if ok then [x] else [])"
    and pop_ok: "invar s \<Longrightarrow> pop s = (r, s') \<Longrightarrow>
      invar s' \<and> (case contents s of [] \<Rightarrow> r = None \<and> s' = s
                  | x # xs \<Rightarrow> r = Some x \<and> contents s' = xs)"
begin

lemma run_invar: "invar s \<Longrightarrow> fifo_run push pop ops s = (taken, out, s') \<Longrightarrow> invar s'"
proof (induction ops arbitrary: s taken out s')
  case (Cons c ops)
  then show ?case
    by (cases c) (auto split: prod.splits dest: push_ok pop_ok)
qed simp

text \<open>Nothing is lost, duplicated, invented or reordered.\<close>

lemma run_conserves:
  "invar s \<Longrightarrow> fifo_run push pop ops s = (taken, out, s') \<Longrightarrow>
   contents s @ taken = out @ contents s'"
proof (induction ops arbitrary: s taken out s')
  case (Cons c ops)
  show ?case
  proof (cases c)
    case (Push x)
    obtain ok s1 where p: "push x s = (ok, s1)" by fastforce
    obtain tk o1 s2 where r: "fifo_run push pop ops s1 = (tk, o1, s2)"
      by (metis prod.exhaust)
    note ps = push_ok [OF Cons.prems(1) p]
    then have "contents s1 @ tk = o1 @ contents s2" using Cons.IH [OF _ r] by simp
    with ps Cons.prems(2) Push p r show ?thesis by (auto split: if_splits)
  next
    case Pop
    obtain q s1 where p: "pop s = (q, s1)" by fastforce
    obtain tk o1 s2 where r: "fifo_run push pop ops s1 = (tk, o1, s2)"
      by (metis prod.exhaust)
    note ps = pop_ok [OF Cons.prems(1) p]
    then have "contents s1 @ tk = o1 @ contents s2" using Cons.IH [OF _ r] by simp
    with ps Cons.prems(2) Pop p r show ?thesis by (auto split: list.splits)
  qed
qed simp

lemma run_from_reset:
  assumes "invar s" and "fifo_run push pop ops (reset s) = (taken, out, s')"
  shows "taken = out @ contents s' \<and> length (contents s') \<le> cap"
  using run_conserves [of "reset s" ops taken out s'] run_invar [of "reset s" ops taken out s']
    reset_ok [OF assms(1)] assms(2) invar_bound by auto

end

end
