(* ===== verification/Ipc.thy ===== *)
theory Ipc
  imports Bounded_Fifo
begin

text \<open>
  The kernel message queue (\<^verbatim>\<open>src/proc/ipc.c\<close>): the static array \<^verbatim>\<open>queue\<close> with its
  two indices as a record, one definition per function. An out-parameter is an optional
  result, written only when it is \<open>Some\<close>; a pointer argument that may be null is passed as
  the Boolean that says whether it is not.
\<close>

abbreviation IPC_QUEUE_SIZE :: int where
  "IPC_QUEUE_SIZE \<equiv> 32"

record ipc_state =
  ipc_queue :: "u32 list"
  ipc_head :: int
  ipc_tail :: int

definition ipc_static :: ipc_state where
  "ipc_static = \<lparr>ipc_queue = replicate 32 0, ipc_head = 0, ipc_tail = 0\<rparr>"

definition ipc_init :: "ipc_state \<Rightarrow> ipc_state" where
  "ipc_init s = s\<lparr>ipc_head := 0, ipc_tail := 0\<rparr>"

definition ipc_full :: "ipc_state \<Rightarrow> bool" where
  "ipc_full s \<longleftrightarrow> (ipc_head s + 1) smod IPC_QUEUE_SIZE = ipc_tail s"

definition ipc_empty :: "ipc_state \<Rightarrow> bool" where
  "ipc_empty s \<longleftrightarrow> ipc_head s = ipc_tail s"

definition ipc_send :: "u32 \<Rightarrow> ipc_state \<Rightarrow> int \<times> ipc_state" where
  "ipc_send msg s =
     (if ipc_full s then (-1, s)
      else (0, s\<lparr>ipc_queue := (ipc_queue s)[nat (ipc_head s) := msg],
                 ipc_head := (ipc_head s + 1) smod IPC_QUEUE_SIZE\<rparr>))"

definition ipc_recv :: "bool \<Rightarrow> ipc_state \<Rightarrow> int \<times> u32 option \<times> ipc_state" where
  "ipc_recv msg_nonnull s =
     (if \<not> msg_nonnull \<or> ipc_empty s then (-1, None, s)
      else (0, Some (ipc_queue s ! nat (ipc_tail s)),
            s\<lparr>ipc_tail := (ipc_tail s + 1) smod IPC_QUEUE_SIZE\<rparr>))"

subsection \<open>The queue as a bounded FIFO\<close>

definition ipc_wf :: "ipc_state \<Rightarrow> bool" where
  "ipc_wf s \<longleftrightarrow> ring_wf 32 (ipc_queue s) (ipc_head s) (ipc_tail s)"

definition ipc_pending :: "ipc_state \<Rightarrow> u32 list" where
  "ipc_pending s = ring_list (ipc_queue s) (ipc_head s) (ipc_tail s)"

definition ipc_push :: "u32 \<Rightarrow> ipc_state \<Rightarrow> bool \<times> ipc_state" where
  "ipc_push msg s = (let (r, s') = ipc_send msg s in (r = 0, s'))"

definition ipc_pop :: "ipc_state \<Rightarrow> u32 option \<times> ipc_state" where
  "ipc_pop s = (let (_, v, s') = ipc_recv True s in (v, s'))"

lemma ipc_wf_succ:
  assumes "ipc_wf s"
  shows "(ipc_head s + 1) smod IPC_QUEUE_SIZE = (ipc_head s + 1) mod int 32"
    and "(ipc_tail s + 1) smod IPC_QUEUE_SIZE = (ipc_tail s + 1) mod int 32"
  using assms by (simp_all add: ipc_wf_def ring_wf_def smod_nonneg)

lemma ipc_static_wf: "ipc_wf ipc_static"
  by (simp add: ipc_wf_def ipc_static_def ring_wf_def)

lemma ipc_full_iff: "ipc_wf s \<Longrightarrow> ipc_full s \<longleftrightarrow> length (ipc_pending s) = 31"
  using ring_full_iff [of 32 "ipc_queue s" "ipc_head s" "ipc_tail s"]
  by (simp add: ipc_full_def ipc_wf_succ ipc_pending_def) (simp add: ipc_wf_def)

interpretation ipc_fifo: bounded_fifo ipc_init ipc_push ipc_pop ipc_pending ipc_wf 31
proof
  fix s x ok s'
  assume wf: "ipc_wf s" and step: "ipc_push x s = (ok, s')"
  note ring = ring_ops [OF wf [unfolded ipc_wf_def]] and succ = ipc_wf_succ [OF wf]
  from step show "ipc_wf s' \<and> ok = (length (ipc_pending s) < 31) \<and>
      ipc_pending s' = ipc_pending s @ (if ok then [x] else [])"
    using ring(1) ring(2,3) [of x] wf
    by (auto simp: ipc_push_def ipc_send_def ipc_full_def ipc_wf_def ipc_pending_def succ)
next
  fix s r s'
  assume wf: "ipc_wf s" and step: "ipc_pop s = (r, s')"
  note ring = ring_ops [OF wf [unfolded ipc_wf_def]] and succ = ipc_wf_succ [OF wf]
  from step show "ipc_wf s' \<and> (case ipc_pending s of [] \<Rightarrow> r = None \<and> s' = s
      | x # xs \<Rightarrow> r = Some x \<and> ipc_pending s' = xs)"
    using ring(4,5,6) wf
    by (cases "ipc_head s = ipc_tail s")
       (auto simp: ipc_pop_def ipc_recv_def ipc_empty_def ipc_wf_def ipc_pending_def succ)
qed (auto simp: ipc_init_def ipc_wf_def ipc_pending_def ring_wf_def ring_list_def
      dest: length_ring_less)

text \<open>
  C32. Over every sequence of sends and receives after \<^verbatim>\<open>ipc_init\<close>, the messages accepted
  by \<^verbatim>\<open>ipc_send\<close> (return value 0) are exactly the messages delivered by
  \<^verbatim>\<open>ipc_recv\<close> followed by those still pending, in the same order, and at most 31 are
  pending: no message is lost, duplicated or reordered.
\<close>

theorem ipc_order:
  assumes "ipc_wf s" and "fifo_run ipc_push ipc_pop ops (ipc_init s) = (accepted, delivered, s')"
  shows "accepted = delivered @ ipc_pending s' \<and> length (ipc_pending s') \<le> 31"
  using ipc_fifo.run_from_reset [OF assms] .

theorem ipc_order_witness:
  "fst (fifo_run ipc_push ipc_pop [Push 7, Push 9, Pop] (ipc_init ipc_static)) =
   fst (snd (fifo_run ipc_push ipc_pop [Push 7, Push 9, Pop] (ipc_init ipc_static))) @ [9]"
proof -
  let ?r = "fifo_run ipc_push ipc_pop [Push 7, Push 9, Pop] (ipc_init ipc_static)"
  have "ipc_pending (snd (snd ?r)) = [9]" by code_simp
  then show ?thesis
    using ipc_order [OF ipc_static_wf, of "[Push 7, Push 9, Pop]" "fst ?r" "fst (snd ?r)" "snd (snd ?r)"]
    by simp
qed

end
