(* ===== verification/Input_Queue.thy ===== *)
theory Input_Queue
  imports Bounded_Fifo
begin

text \<open>
  The input event queue (\<^verbatim>\<open>src/lib/input.c\<close>, \<^verbatim>\<open>include/input.h\<close>), fed by the keyboard,
  serial and mouse interrupt handlers. A \<^verbatim>\<open>char\<close> is a byte read as a signed value, so
  its conversion to \<^verbatim>\<open>s16int\<close> sign-extends.
\<close>

abbreviation INPUT_BUF_SIZE :: int where
  "INPUT_BUF_SIZE \<equiv> 64"

abbreviation INPUT_KEY :: u8 where
  "INPUT_KEY \<equiv> 1"

abbreviation INPUT_MOUSE :: u8 where
  "INPUT_MOUSE \<equiv> 2"

record input_event =
  ev_type :: u8
  ev_flags :: u8
  ev_a :: u16
  ev_b :: u16

record input_state =
  input_buffer :: "input_event list"
  input_head :: int
  input_tail :: int

definition input_static :: input_state where
  "input_static = \<lparr>input_buffer = replicate 64 \<lparr>ev_type = 0, ev_flags = 0, ev_a = 0, ev_b = 0\<rparr>,
     input_head = 0, input_tail = 0\<rparr>"

definition input_init :: "input_state \<Rightarrow> input_state" where
  "input_init s = s\<lparr>input_head := 0, input_tail := 0\<rparr>"

definition input_full :: "input_state \<Rightarrow> bool" where
  "input_full s \<longleftrightarrow> (input_head s + 1) smod INPUT_BUF_SIZE = input_tail s"

definition input_empty :: "input_state \<Rightarrow> bool" where
  "input_empty s \<longleftrightarrow> input_head s = input_tail s"

definition input_push :: "input_event \<Rightarrow> input_state \<Rightarrow> input_state" where
  "input_push ev s =
     (if input_full s then s
      else s\<lparr>input_buffer := (input_buffer s)[nat (input_head s) := ev],
             input_head := (input_head s + 1) smod INPUT_BUF_SIZE\<rparr>)"

definition key_event :: "u8 \<Rightarrow> input_event" where
  "key_event c = \<lparr>ev_type = INPUT_KEY, ev_flags = 0, ev_a = scast c, ev_b = 0\<rparr>"

definition input_push_key :: "u8 \<Rightarrow> input_state \<Rightarrow> input_state" where
  "input_push_key c s = input_push (key_event c) s"

definition mouse_event :: "u8 \<Rightarrow> u8 \<Rightarrow> u8 \<Rightarrow> input_event" where
  "mouse_event dx dy buttons =
     \<lparr>ev_type = INPUT_MOUSE, ev_flags = buttons, ev_a = scast dx, ev_b = scast dy\<rparr>"

definition input_push_mouse :: "u8 \<Rightarrow> u8 \<Rightarrow> u8 \<Rightarrow> input_state \<Rightarrow> input_state" where
  "input_push_mouse dx dy buttons s = input_push (mouse_event dx dy buttons) s"

definition input_pop :: "bool \<Rightarrow> input_state \<Rightarrow> int \<times> input_event option \<times> input_state" where
  "input_pop out_nonnull s =
     (if \<not> out_nonnull \<or> input_empty s then (-1, None, s)
      else (0, Some (input_buffer s ! nat (input_tail s)),
            s\<lparr>input_tail := (input_tail s + 1) smod INPUT_BUF_SIZE\<rparr>))"

subsection \<open>The queue as a bounded FIFO\<close>

definition input_wf :: "input_state \<Rightarrow> bool" where
  "input_wf s \<longleftrightarrow> ring_wf 64 (input_buffer s) (input_head s) (input_tail s)"

definition input_pending :: "input_state \<Rightarrow> input_event list" where
  "input_pending s = ring_list (input_buffer s) (input_head s) (input_tail s)"

definition input_offer :: "input_event \<Rightarrow> input_state \<Rightarrow> bool \<times> input_state" where
  "input_offer ev s = (\<not> input_full s, input_push ev s)"

definition input_take :: "input_state \<Rightarrow> input_event option \<times> input_state" where
  "input_take s = (let (_, v, s') = input_pop True s in (v, s'))"

lemma input_wf_succ:
  assumes "input_wf s"
  shows "(input_head s + 1) smod INPUT_BUF_SIZE = (input_head s + 1) mod int 64"
    and "(input_tail s + 1) smod INPUT_BUF_SIZE = (input_tail s + 1) mod int 64"
  using assms by (simp_all add: input_wf_def ring_wf_def smod_nonneg)

lemma input_static_wf: "input_wf input_static"
  by (simp add: input_wf_def input_static_def ring_wf_def)

interpretation input_fifo: bounded_fifo input_init input_offer input_take input_pending input_wf 63
proof
  fix s x ok s'
  assume wf: "input_wf s" and step: "input_offer x s = (ok, s')"
  note ring = ring_ops [OF wf [unfolded input_wf_def]] and succ = input_wf_succ [OF wf]
  from step show "input_wf s' \<and> ok = (length (input_pending s) < 63) \<and>
      input_pending s' = input_pending s @ (if ok then [x] else [])"
    using ring(1) ring(2,3) [of x] wf
    by (auto simp: input_offer_def input_push_def input_full_def input_wf_def input_pending_def succ)
next
  fix s r s'
  assume wf: "input_wf s" and step: "input_take s = (r, s')"
  note ring = ring_ops [OF wf [unfolded input_wf_def]] and succ = input_wf_succ [OF wf]
  from step show "input_wf s' \<and> (case input_pending s of [] \<Rightarrow> r = None \<and> s' = s
      | x # xs \<Rightarrow> r = Some x \<and> input_pending s' = xs)"
    using ring(4,5,6) wf
    by (cases "input_head s = input_tail s")
       (auto simp: input_take_def input_pop_def input_empty_def input_wf_def input_pending_def succ)
qed (auto simp: input_init_def input_wf_def input_pending_def ring_wf_def ring_list_def
      dest: length_ring_less)

end
