(* ===== verification/Keyboard_Buffer.thy ===== *)
theory Keyboard_Buffer
  imports Bounded_Fifo
begin

text \<open>
  The character ring between the keyboard and serial interrupt handlers and their readers
  (\<^verbatim>\<open>src/drivers/keyboard_buffer.c\<close>). The element type is \<^verbatim>\<open>char\<close>, which is signed on
  the target, and \<^verbatim>\<open>kbd_buffer_pop\<close> returns it converted to \<^verbatim>\<open>int\<close>.
\<close>

abbreviation KBD_BUF_SIZE :: int where
  "KBD_BUF_SIZE \<equiv> 128"

record kbd_state =
  kbd_buffer :: "u8 list"
  kbd_head :: int
  kbd_tail :: int

definition kbd_static :: kbd_state where
  "kbd_static = \<lparr>kbd_buffer = replicate 128 0, kbd_head = 0, kbd_tail = 0\<rparr>"

definition kbd_buffer_init :: "kbd_state \<Rightarrow> kbd_state" where
  "kbd_buffer_init s = s\<lparr>kbd_head := 0, kbd_tail := 0\<rparr>"

definition kbd_buffer_push :: "u8 \<Rightarrow> kbd_state \<Rightarrow> kbd_state" where
  "kbd_buffer_push c s =
     (let nxt = (kbd_head s + 1) smod KBD_BUF_SIZE
      in if nxt = kbd_tail s then s
         else s\<lparr>kbd_buffer := (kbd_buffer s)[nat (kbd_head s) := c], kbd_head := nxt\<rparr>)"

definition kbd_buffer_pop :: "kbd_state \<Rightarrow> int \<times> kbd_state" where
  "kbd_buffer_pop s =
     (if kbd_tail s = kbd_head s then (-1, s)
      else (sint (kbd_buffer s ! nat (kbd_tail s)),
            s\<lparr>kbd_tail := (kbd_tail s + 1) smod KBD_BUF_SIZE\<rparr>))"

subsection \<open>The ring as a bounded FIFO\<close>

definition kbd_wf :: "kbd_state \<Rightarrow> bool" where
  "kbd_wf s \<longleftrightarrow> ring_wf 128 (kbd_buffer s) (kbd_head s) (kbd_tail s)"

definition kbd_pending :: "kbd_state \<Rightarrow> u8 list" where
  "kbd_pending s = ring_list (kbd_buffer s) (kbd_head s) (kbd_tail s)"

definition kbd_offer :: "u8 \<Rightarrow> kbd_state \<Rightarrow> bool \<times> kbd_state" where
  "kbd_offer c s = ((kbd_head s + 1) smod KBD_BUF_SIZE \<noteq> kbd_tail s, kbd_buffer_push c s)"

definition kbd_take :: "kbd_state \<Rightarrow> u8 option \<times> kbd_state" where
  "kbd_take s =
     (let (c, s') = kbd_buffer_pop s
      in (if kbd_tail s = kbd_head s then None else Some (word_of_int c), s'))"

lemma kbd_wf_succ:
  assumes "kbd_wf s"
  shows "(kbd_head s + 1) smod KBD_BUF_SIZE = (kbd_head s + 1) mod int 128"
    and "(kbd_tail s + 1) smod KBD_BUF_SIZE = (kbd_tail s + 1) mod int 128"
  using assms by (simp_all add: kbd_wf_def ring_wf_def smod_nonneg)

lemma kbd_static_wf: "kbd_wf kbd_static"
  by (simp add: kbd_wf_def kbd_static_def ring_wf_def)

interpretation kbd_fifo: bounded_fifo kbd_buffer_init kbd_offer kbd_take kbd_pending kbd_wf 127
proof
  fix s x ok s'
  assume wf: "kbd_wf s" and step: "kbd_offer x s = (ok, s')"
  note ring = ring_ops [OF wf [unfolded kbd_wf_def]] and succ = kbd_wf_succ [OF wf]
  from step show "kbd_wf s' \<and> ok = (length (kbd_pending s) < 127) \<and>
      kbd_pending s' = kbd_pending s @ (if ok then [x] else [])"
    using ring(1) ring(2,3) [of x] wf
    by (auto simp: kbd_offer_def kbd_buffer_push_def Let_def kbd_wf_def kbd_pending_def succ)
next
  fix s r s'
  assume wf: "kbd_wf s" and step: "kbd_take s = (r, s')"
  note ring = ring_ops [OF wf [unfolded kbd_wf_def]] and succ = kbd_wf_succ [OF wf]
  from step show "kbd_wf s' \<and> (case kbd_pending s of [] \<Rightarrow> r = None \<and> s' = s
      | x # xs \<Rightarrow> r = Some x \<and> kbd_pending s' = xs)"
    using ring(4,5,6) wf
    by (cases "kbd_head s = kbd_tail s")
       (auto simp: kbd_take_def kbd_buffer_pop_def kbd_wf_def kbd_pending_def succ)
qed (auto simp: kbd_buffer_init_def kbd_wf_def kbd_pending_def ring_wf_def ring_list_def
      dest: length_ring_less)

text \<open>
  What a reader of \<^verbatim>\<open>kbd_buffer_pop\<close> sees: the signed value of the oldest character,
  negative exactly when that character is above 127 or when the ring is empty.
\<close>

lemma kbd_buffer_pop_value:
  assumes "kbd_wf s"
  shows "fst (kbd_buffer_pop s) = (case kbd_pending s of [] \<Rightarrow> -1 | c # _ \<Rightarrow> sint c)"
  using ring_ops(5,6) [OF assms [unfolded kbd_wf_def]]
  by (cases "kbd_head s = kbd_tail s") (auto simp: kbd_buffer_pop_def kbd_pending_def)

end
