(* ===== verification/Machine_Memory.thy ===== *)
theory Machine_Memory
  imports Kernel_Prelude
begin

text \<open>
  The flat physical address space of the machine as the kernel's C code sees it: a byte
  for every 32-bit address, with the little-endian loads and stores the compiler emits for
  accesses through \<^verbatim>\<open>u8int *\<close>, \<^verbatim>\<open>u16int *\<close> and \<^verbatim>\<open>u32int *\<close>.
  Pointer arithmetic wraps at \<open>2\<^sup>3\<^sup>2\<close>, as it does on the target.
\<close>

type_synonym memory = "u32 \<Rightarrow> u8"

definition load8 :: "memory \<Rightarrow> u32 \<Rightarrow> u8" where
  "load8 m a = m a"

definition load16 :: "memory \<Rightarrow> u32 \<Rightarrow> u16" where
  "load16 m a = ucast (m a) OR push_bit 8 (ucast (m (a + 1)))"

definition load32 :: "memory \<Rightarrow> u32 \<Rightarrow> u32" where
  "load32 m a = ucast (m a) OR push_bit 8 (ucast (m (a + 1)))
     OR push_bit 16 (ucast (m (a + 2))) OR push_bit 24 (ucast (m (a + 3)))"

definition load64 :: "memory \<Rightarrow> u32 \<Rightarrow> u64" where
  "load64 m a = ucast (load32 m a) OR push_bit 32 (ucast (load32 m (a + 4)))"

definition store8 :: "memory \<Rightarrow> u32 \<Rightarrow> u8 \<Rightarrow> memory" where
  "store8 m a v = m(a := v)"

definition store32 :: "memory \<Rightarrow> u32 \<Rightarrow> u32 \<Rightarrow> memory" where
  "store32 m a v = m(a := ucast v, a + 1 := ucast (drop_bit 8 v),
     a + 2 := ucast (drop_bit 16 v), a + 3 := ucast (drop_bit 24 v))"

text \<open>
  Two four-byte cells do not overlap when each lies at least four bytes after the other,
  counted around the address space.
\<close>

definition apart :: "u32 \<Rightarrow> u32 \<Rightarrow> bool" where
  "apart a b \<longleftrightarrow> 4 \<le> a - b \<and> 4 \<le> b - a"

lemma apart_sym: "apart a b \<longleftrightarrow> apart b a"
  by (auto simp: apart_def)

lemma load32_store32_same [simp, mem_simps]: "load32 (store32 m a v) a = v"
proof -
  have "load32 (store32 m a v) a = ucast (ucast v :: u8) OR push_bit 8 (ucast (ucast (drop_bit 8 v) :: u8))
     OR push_bit 16 (ucast (ucast (drop_bit 16 v) :: u8)) OR push_bit 24 (ucast (ucast (drop_bit 24 v) :: u8))"
    by (simp add: load32_def store32_def)
  also have "\<dots> = v"
  proof (rule bit_word_eqI)
    fix n assume "n < LENGTH(32)"
    then consider "n < 8" | "8 \<le> n" "n < 16" | "16 \<le> n" "n < 24" | "24 \<le> n" "n < 32"
      by fastforce
    then show "bit (ucast (ucast v :: u8) OR push_bit 8 (ucast (ucast (drop_bit 8 v) :: u8))
     OR push_bit 16 (ucast (ucast (drop_bit 16 v) :: u8))
     OR push_bit 24 (ucast (ucast (drop_bit 24 v) :: u8)) :: u32) n = bit v n"
      by cases (auto simp: bit_simps)
  qed
  finally show ?thesis .
qed

lemma apart_offsets:
  assumes "apart a b" and "i < 4" and "j < 4"
  shows "a + i \<noteq> b + j"
  using assms unfolding apart_def by uint_arith

lemma load32_store32_apart [mem_simps]:
  assumes "apart a b"
  shows "load32 (store32 m a v) b = load32 m b"
proof -
  have ne: "b + j \<noteq> a + i" if "i < 4" "j < 4" for i j
    using apart_offsets [OF assms that] by metis
  show ?thesis
    using ne [of 0 0] ne [of 0 1] ne [of 0 2] ne [of 0 3] ne [of 1 0] ne [of 1 1] ne [of 1 2]
      ne [of 1 3] ne [of 2 0] ne [of 2 1] ne [of 2 2] ne [of 2 3] ne [of 3 0] ne [of 3 1]
      ne [of 3 2] ne [of 3 3]
    by (simp add: load32_def store32_def)
qed

text \<open>Cells at different offsets from one base are apart, as long as they do not wrap onto each other.\<close>

lemma of_nat_ge_four: "4 \<le> k \<Longrightarrow> k < 2 ^ 32 \<Longrightarrow> 4 \<le> (of_nat k :: u32)"
  by (simp add: word_le_nat_alt unsigned_of_nat take_bit_nat_eq_self)

lemma apart_offset:
  assumes "m + 4 \<le> n" and "n + 4 \<le> m + 2 ^ 32"
  shows "apart (b + of_nat m) (b + of_nat n)"
proof -
  have "(b + of_nat n) - (b + of_nat m) = (of_nat (n - m) :: u32)"
    using assms by simp
  moreover have "(b + of_nat m) - (b + of_nat n) = (of_nat (2 ^ 32 - (n - m)) :: u32)"
  proof -
    have "(of_nat (2 ^ 32 - (n - m)) :: u32) = of_nat (2 ^ 32) - of_nat (n - m)"
      using assms by (intro of_nat_diff) simp
    also have "(of_nat (2 ^ 32) :: u32) = 0" by simp
    finally show ?thesis using assms by simp
  qed
  ultimately show ?thesis
    using assms unfolding apart_def by (simp only: of_nat_ge_four)
qed

subsection \<open>Addresses as numbers\<close>

text \<open>
  \<open>ad n\<close> is the address with number \<open>n\<close>. Keeping the conversion opaque lets the
  simplifier gather pointer arithmetic into one number, and arithmetic on numbers decides
  whether cells overlap.
\<close>

definition ad :: "nat \<Rightarrow> u32" where
  "ad n = of_nat n"

lemma ad_plus [simp]:
  "ad n + numeral k = ad (n + numeral k)" "ad n + of_nat j = ad (n + j)" "ad n + 1 = ad (n + 1)"
  by (simp_all add: ad_def)

lemma ad_minus: "j \<le> n \<Longrightarrow> ad n - of_nat j = ad (n - j)"
  by (simp add: ad_def of_nat_diff)

lemma unat_ad: "n < 2 ^ 32 \<Longrightarrow> unat (ad n) = n"
  unfolding ad_def by (rule unat_of_nat_small) simp

lemma ad_unat [simp]: "ad (unat a) = a"
  by (simp add: ad_def)

lemma ad_inj: "x < 2 ^ 32 \<Longrightarrow> y < 2 ^ 32 \<Longrightarrow> ad x = ad y \<longleftrightarrow> x = y"
  by (metis unat_ad)

lemma ad_zero: "ad 0 = 0"
  by (simp add: ad_def)

lemma ad_eq_zero: "x < 2 ^ 32 \<Longrightarrow> ad x = 0 \<longleftrightarrow> x = 0"
  using ad_inj [of x 0] by (simp add: ad_zero)

lemma load32_store32_ad [mem_simps]:
  assumes "A + 4 \<le> B \<or> B + 4 \<le> A" and "A + 4 \<le> 2 ^ 32" and "B + 4 \<le> 2 ^ 32"
  shows "load32 (store32 m (ad A) v) (ad B) = load32 m (ad B)"
proof (rule load32_store32_apart)
  show "apart (ad A) (ad B)"
    using assms apart_offset [of A B 0] apart_offset [of B A 0] by (auto simp: apart_sym ad_def)
qed

lemma store32_byte [mem_simps]:
  assumes "x < A \<or> A + 4 \<le> x" and "A + 4 \<le> 2 ^ 32" and "x < 2 ^ 32"
  shows "store32 m (ad A) v (ad x) = m (ad x)"
proof -
  have "ad x \<noteq> ad (A + i)" if "i < 4" for i
    using ad_inj [of x "A + i"] assms that by auto
  from this [of 0] this [of 1] this [of 2] this [of 3] show ?thesis
    by (simp add: store32_def)
qed

lemma load32_cong:
  assumes "\<And>i. i < 4 \<Longrightarrow> m' (ad (A + i)) = m (ad (A + i))"
  shows "load32 m' (ad A) = load32 m (ad A)"
  using assms [of 0] assms [of 1] assms [of 2] assms [of 3] by (simp add: load32_def)

end
