(* ===== verification/Libc.thy ===== *)
theory Libc
  imports Machine_Memory
begin

text \<open>
  The freestanding C library of the kernel (\<^verbatim>\<open>src/lib/libc.c\<close>) over the byte memory.
  The three block operations are counted loops; the string operations run until they meet a
  terminating zero byte, so they are partial: \<open>None\<close> means that the loop never returns.
\<close>

subsection \<open>Block operations\<close>

text \<open>
  \<^verbatim>\<open>memset\<close> and \<^verbatim>\<open>memcpy\<close> return their destination; the model returns the memory.
\<close>

function memset_loop :: "memory \<Rightarrow> u32 \<Rightarrow> u8 \<Rightarrow> u32 \<Rightarrow> u32 \<Rightarrow> memory" where
  "memset_loop m d v count i =
     (if i < count then memset_loop (store8 m (d + i) v) d v count (i + 1) else m)"
  by pat_completeness auto
termination
  by (relation "measure (\<lambda>(m, d, v, count, i). unat count - unat i)") auto

declare memset_loop.simps [simp del]

definition memset :: "memory \<Rightarrow> u32 \<Rightarrow> int \<Rightarrow> u32 \<Rightarrow> memory" where
  "memset m dest value count = memset_loop m dest (word_of_int value) count 0"

function memcpy_loop :: "memory \<Rightarrow> u32 \<Rightarrow> u32 \<Rightarrow> u32 \<Rightarrow> u32 \<Rightarrow> memory" where
  "memcpy_loop m d s count i =
     (if i < count then memcpy_loop (store8 m (d + i) (load8 m (s + i))) d s count (i + 1) else m)"
  by pat_completeness auto
termination
  by (relation "measure (\<lambda>(m, d, s, count, i). unat count - unat i)") auto

declare memcpy_loop.simps [simp del]

definition memcpy :: "memory \<Rightarrow> u32 \<Rightarrow> u32 \<Rightarrow> u32 \<Rightarrow> memory" where
  "memcpy m dest src count = memcpy_loop m dest src count 0"

function memcmp_loop :: "memory \<Rightarrow> u32 \<Rightarrow> u32 \<Rightarrow> u32 \<Rightarrow> u32 \<Rightarrow> int" where
  "memcmp_loop m x y count i =
     (if i < count then
        if load8 m (x + i) \<noteq> load8 m (y + i)
        then uint (load8 m (x + i)) - uint (load8 m (y + i))
        else memcmp_loop m x y count (i + 1)
      else 0)"
  by pat_completeness auto
termination
  by (relation "measure (\<lambda>(m, x, y, count, i). unat count - unat i)") auto

declare memcmp_loop.simps [simp del]

definition memcmp :: "memory \<Rightarrow> u32 \<Rightarrow> u32 \<Rightarrow> u32 \<Rightarrow> int" where
  "memcmp m a b count = memcmp_loop m a b count 0"

subsection \<open>String operations\<close>

partial_function (option) strlen_loop :: "memory \<Rightarrow> u32 \<Rightarrow> u32 \<Rightarrow> u32 option" where
  "strlen_loop m str len =
     (if str \<noteq> 0 \<and> load8 m (str + len) \<noteq> 0 then strlen_loop m str (len + 1) else Some len)"

definition strlen :: "memory \<Rightarrow> u32 \<Rightarrow> u32 option" where
  "strlen m str = strlen_loop m str 0"

partial_function (option) strcmp_loop :: "memory \<Rightarrow> u32 \<Rightarrow> u32 \<Rightarrow> int option" where
  "strcmp_loop m a b =
     (if load8 m a \<noteq> 0 \<and> load8 m a = load8 m b then strcmp_loop m (a + 1) (b + 1)
      else Some (uint (load8 m a) - uint (load8 m b)))"

definition strcmp :: "memory \<Rightarrow> u32 \<Rightarrow> u32 \<Rightarrow> int option" where
  "strcmp m a b =
     (if a = b then Some 0 else if a = 0 then Some (-1) else if b = 0 then Some 1
      else strcmp_loop m a b)"

text \<open>
  The loop condition \<^verbatim>\<open>n-- && *a && *a == *b\<close> decrements \<open>n\<close> whatever its outcome;
  the body then sees the decremented value.
\<close>

partial_function (option) strncmp_loop :: "memory \<Rightarrow> u32 \<Rightarrow> u32 \<Rightarrow> u32 \<Rightarrow> int option" where
  "strncmp_loop m a b n =
     (if n \<noteq> 0 \<and> load8 m a \<noteq> 0 \<and> load8 m a = load8 m b
      then if n - 1 = 0 then Some 0 else strncmp_loop m (a + 1) (b + 1) (n - 1)
      else Some (uint (load8 m a) - uint (load8 m b)))"

definition strncmp :: "memory \<Rightarrow> u32 \<Rightarrow> u32 \<Rightarrow> u32 \<Rightarrow> int option" where
  "strncmp m a b n =
     (if n = 0 then Some 0 else if a = b then Some 0 else if a = 0 then Some (-1)
      else if b = 0 then Some 1 else strncmp_loop m a b n)"

subsection \<open>What the block operations compute\<close>

lemma memset_loop_apply:
  "memset_loop m d v count i a = (if i \<le> a - d \<and> a - d < count then v else m a)"
proof (induction m d v count i rule: memset_loop.induct)
  case (1 m d v count i)
  show ?case
  proof (cases "i < count")
    case True
    have eq: "a = d + i \<longleftrightarrow> a - d = i" by (auto simp: algebra_simps)
    have "memset_loop m d v count i a =
        (if i < a - d \<and> a - d < count then v else store8 m (d + i) v a)"
      using "1.IH" [OF True] True by (subst memset_loop.simps) (simp add: word_succ_le_iff)
    also have "\<dots> = (if i \<le> a - d \<and> a - d < count then v else m a)"
      using True by (auto simp: store8_def eq le_less)
    finally show ?thesis .
  next
    case False
    then show ?thesis by (subst memset_loop.simps) auto
  qed
qed

lemma memset_apply:
  "memset m dest value count a = (if a - dest < count then word_of_int value else m a)"
  by (simp add: memset_def memset_loop_apply)

text \<open>
  The copy runs upwards, so it is right whenever no destination byte is a later source
  byte: the regions are disjoint, equal, or the destination lies below the source.
\<close>

lemma memcpy_loop_apply:
  assumes "count \<le> d - s \<or> d = s"
  shows "memcpy_loop m d s count i a =
    (if i \<le> a - d \<and> a - d < count then m (s + (a - d)) else m a)"
  using assms
proof (induction m d s count i rule: memcpy_loop.induct)
  case (1 m d s count i)
  show ?case
  proof (cases "i < count")
    case True
    let ?m = "store8 m (d + i) (load8 m (s + i))"
    have src: "?m (s + j) = m (s + j)" if "i < j" "j < count" for j
    proof (cases "d = s")
      case False
      with "1.prems" have "count \<le> d - s" by simp
      with that have "s + j \<noteq> d + i" by uint_arith
      then show ?thesis by (simp add: store8_def)
    qed (use that in \<open>auto simp: store8_def load8_def\<close>)
    have eq: "a = d + i \<longleftrightarrow> a - d = i" by (auto simp: algebra_simps)
    have "memcpy_loop m d s count i a =
        (if i < a - d \<and> a - d < count then ?m (s + (a - d)) else ?m a)"
      using "1.IH" [OF True "1.prems"] True
      by (subst memcpy_loop.simps) (simp add: word_succ_le_iff)
    also have "\<dots> = (if i \<le> a - d \<and> a - d < count then m (s + (a - d)) else m a)"
      using src [of "a - d"] True by (cases "i < a - d") (auto simp: store8_def load8_def eq le_less)
    finally show ?thesis .
  next
    case False
    then show ?thesis by (subst memcpy_loop.simps) auto
  qed
qed

lemma memcpy_apply:
  assumes "count \<le> dest - src \<or> dest = src"
  shows "memcpy m dest src count a = (if a - dest < count then m (src + (a - dest)) else m a)"
  using memcpy_loop_apply [OF assms] by (simp add: memcpy_def)

text \<open>The same with addresses as numbers.\<close>

lemma unat_ad_diff:
  assumes "x < 2 ^ 32" and "y < 2 ^ 32"
  shows "unat (ad x - ad y) = (if y \<le> x then x - y else 2 ^ 32 + x - y)"
proof (cases "y \<le> x")
  case True
  then have "ad x - ad y = ad (x - y)" by (simp add: ad_def of_nat_diff)
  with True assms show ?thesis using unat_ad [of "x - y"] by simp
next
  case False
  have "(of_nat (2 ^ 32 + x - y) :: u32) = of_nat (2 ^ 32) + of_nat x - of_nat y"
    using assms by (subst of_nat_diff) simp_all
  also have "(of_nat (2 ^ 32) :: u32) = 0" by simp
  finally have "ad x - ad y = ad (2 ^ 32 + x - y)" by (simp add: ad_def)
  with False assms show ?thesis using unat_ad [of "2 ^ 32 + x - y"] by simp
qed

lemma memcpy_ad:
  assumes "unat n = k" and "s + k \<le> 2 ^ 32" and "d + k \<le> 2 ^ 32" and "s + k \<le> d \<or> d + k \<le> s"
    and "x < 2 ^ 32"
  shows "memcpy m (ad d) (ad s) n (ad x) = (if d \<le> x \<and> x < d + k then m (ad (s + (x - d))) else m (ad x))"
proof (cases "k = 0")
  case True
  then have "n = 0" using assms(1) by (simp add: unat_eq_0)
  with True show ?thesis by (auto simp: memcpy_apply)
next
  case False
  then have sd: "s < 2 ^ 32" "d < 2 ^ 32" using assms by linarith+
  have "n \<le> ad d - ad s"
    using unat_ad_diff [OF sd(2,1)] assms by (auto simp: word_le_nat_alt)
  then have eq: "memcpy m (ad d) (ad s) n (ad x) =
      (if ad x - ad d < n then m (ad s + (ad x - ad d)) else m (ad x))"
    by (simp add: memcpy_apply)
  have in_range: "ad x - ad d < n \<longleftrightarrow> d \<le> x \<and> x < d + k"
    using unat_ad_diff [OF assms(5) sd(2)] assms by (auto simp: word_less_nat_alt)
  have "ad s + (ad x - ad d) = ad (s + (x - d))" if "d \<le> x"
    using that by (simp add: ad_def of_nat_diff)
  with in_range show ?thesis by (simp add: eq)
qed

lemma memcmp_loop_zero:
  "memcmp_loop m x y count i = 0 \<longleftrightarrow>
     (\<forall>j. i \<le> j \<and> j < count \<longrightarrow> m (x + j) = m (y + j))"
proof (induction m x y count i rule: memcmp_loop.induct)
  case (1 m x y count i)
  show ?case
  proof (cases "i < count \<and> m (x + i) = m (y + i)")
    case True
    then have "memcmp_loop m x y count i = 0 \<longleftrightarrow>
        (\<forall>j. i < j \<and> j < count \<longrightarrow> m (x + j) = m (y + j))"
      using "1.IH" by (subst memcmp_loop.simps) (auto simp: load8_def word_succ_le_iff)
    with True show ?thesis by (auto simp: le_less)
  next
    case False
    then show ?thesis
      by (subst memcmp_loop.simps) (auto simp: load8_def word_uint_eq_iff)
  qed
qed

lemma memcmp_zero_iff: "memcmp m a b count = 0 \<longleftrightarrow> (\<forall>j < count. m (a + j) = m (b + j))"
  by (auto simp: memcmp_def memcmp_loop_zero)


subsection \<open>C strings\<close>

text \<open>
  \<open>cstring m a bs\<close>: the bytes \<open>bs\<close>, none of them zero, are stored from address
  \<open>a\<close> on and are followed by a zero byte.
\<close>

fun cstring :: "memory \<Rightarrow> u32 \<Rightarrow> u8 list \<Rightarrow> bool" where
  "cstring m a [] \<longleftrightarrow> m a = 0"
| "cstring m a (b # bs) \<longleftrightarrow> m a = b \<and> b \<noteq> 0 \<and> cstring m (a + 1) bs"

text \<open>The comparison on the byte lists that \<^verbatim>\<open>strcmp\<close> and \<^verbatim>\<open>strncmp\<close> compute.\<close>

fun compare_bytes :: "u8 list \<Rightarrow> u8 list \<Rightarrow> int" where
  "compare_bytes [] [] = 0"
| "compare_bytes [] (y # ys) = - uint y"
| "compare_bytes (x # xs) [] = uint x"
| "compare_bytes (x # xs) (y # ys) = (if x = y then compare_bytes xs ys else uint x - uint y)"

lemma uint_zero_iff: "uint (x :: 'a::len word) = 0 \<longleftrightarrow> x = 0"
  by (simp add: word_uint_eq_iff)

lemma uint_pos: "x \<noteq> 0 \<Longrightarrow> 0 < uint (x :: 'a::len word)"
  using uint_zero_iff [of x] uint_ge_0 [of x] by linarith

lemma compare_bytes_zero:
  "0 \<notin> set xs \<Longrightarrow> 0 \<notin> set ys \<Longrightarrow> compare_bytes xs ys = 0 \<longleftrightarrow> xs = ys"
  by (induction xs ys rule: compare_bytes.induct) (auto simp: uint_zero_iff word_uint_eq_iff [symmetric])

lemma compare_bytes_antisym: "compare_bytes ys xs = - compare_bytes xs ys"
  by (induction xs ys rule: compare_bytes.induct) auto

lemma compare_bytes_lexord:
  "0 \<notin> set xs \<Longrightarrow> 0 \<notin> set ys \<Longrightarrow>
   compare_bytes xs ys < 0 \<longleftrightarrow> (xs, ys) \<in> lexord {(a, b). a < b}"
proof (induction xs ys rule: compare_bytes.induct)
  case (2 y ys)
  then show ?case by (simp add: uint_pos)
next
  case (3 x xs)
  then show ?case using uint_ge_0 [of x] by simp
next
  case (4 x xs y ys)
  have "uint x - uint y < 0 \<longleftrightarrow> x < y" by (simp add: word_less_iff_unsigned [where ?'a = int])
  with 4 show ?case by simp
qed simp

lemma cstring_nonzero: "cstring m a bs \<Longrightarrow> 0 \<notin> set bs"
  by (induction bs arbitrary: a) auto

lemma strlen_loop_cstring:
  "cstring m (str + len) bs \<Longrightarrow> str \<noteq> 0 \<Longrightarrow>
   strlen_loop m str len = Some (len + of_nat (length bs))"
proof (induction bs arbitrary: len)
  case Nil
  then show ?case by (subst strlen_loop.simps) (simp add: load8_def)
next
  case (Cons b bs)
  from Cons.prems have "strlen_loop m str (len + 1) = Some (len + 1 + of_nat (length bs))"
    by (intro Cons.IH) (simp_all add: add.assoc)
  with Cons.prems show ?case
    by (subst strlen_loop.simps) (auto simp: load8_def algebra_simps)
qed

lemma strcmp_loop_cstring:
  "cstring m a xs \<Longrightarrow> cstring m b ys \<Longrightarrow> strcmp_loop m a b = Some (compare_bytes xs ys)"
proof (induction xs ys arbitrary: a b rule: compare_bytes.induct)
  case (4 x xs y ys)
  then show ?case by (subst strcmp_loop.simps) (auto simp: load8_def)
qed (subst strcmp_loop.simps; force simp: load8_def)+

lemma strncmp_loop_cstring:
  "cstring m a xs \<Longrightarrow> cstring m b ys \<Longrightarrow> n \<noteq> 0 \<Longrightarrow>
   strncmp_loop m a b n = Some (compare_bytes (take (unat n) xs) (take (unat n) ys))"
proof (induction xs ys arbitrary: a b n rule: compare_bytes.induct)
  case (4 x xs y ys)
  have n: "unat n = Suc (unat (n - 1))"
    using "4.prems"(3) by (simp add: unat_minus_one unat_gt_0)
  show ?case
  proof (cases "x = y \<and> n - 1 \<noteq> 0")
    case True
    with 4 show ?thesis
      by (subst strncmp_loop.simps) (auto simp: load8_def n)
  next
    case False
    with 4 show ?thesis
      by (subst strncmp_loop.simps) (auto simp: load8_def n)
  qed
qed (subst strncmp_loop.simps; force simp: load8_def take_Cons' unat_eq_zero)+

subsection \<open>Properties\<close>

text \<open>
  On two distinct terminated strings \<^verbatim>\<open>strcmp\<close> returns, with 0 exactly for equal
  strings, a negative value exactly when the first precedes the second in the
  lexicographic order of unsigned bytes, and the opposite sign for swapped arguments.
\<close>

theorem strcmp_order:
  assumes "cstring m a xs" and "cstring m b ys" and "a \<noteq> 0" and "b \<noteq> 0" and "a \<noteq> b"
  shows "\<exists>r. strcmp m a b = Some r \<and> (r = 0 \<longleftrightarrow> xs = ys) \<and>
    (r < 0 \<longleftrightarrow> (xs, ys) \<in> lexord {(c, d). c < d}) \<and> strcmp m b a = Some (- r)"
  using assms strcmp_loop_cstring [OF assms(1,2)] strcmp_loop_cstring [OF assms(2,1)]
    cstring_nonzero [OF assms(1)] cstring_nonzero [OF assms(2)]
  by (simp add: strcmp_def compare_bytes_zero compare_bytes_lexord compare_bytes_antisym [of ys xs])

definition strings_demo :: memory where
  "strings_demo = (\<lambda>_. 0)(100 := 97, 101 := 98, 200 := 97, 201 := 200)"

theorem strcmp_order_witness:
  "cstring strings_demo 100 [97, 98] \<and> cstring strings_demo 200 [97, 200] \<and>
   (\<exists>r. strcmp strings_demo 100 200 = Some r \<and> r < 0)"
proof -
  have c: "cstring strings_demo 100 [97, 98]" "cstring strings_demo 200 [97, 200]"
    by (simp_all add: strings_demo_def)
  from strcmp_order [OF this] have "\<exists>r. strcmp strings_demo 100 200 = Some r \<and>
      (r < 0 \<longleftrightarrow> ([97, 98], [97, 200]) \<in> lexord {(c :: u8, d). c < d})" by auto
  with c show ?thesis by simp
qed

text \<open>
  C33. \<^verbatim>\<open>memcpy\<close> between two ranges of which the destination does not start inside the
  source makes the ranges equal under \<^verbatim>\<open>memcmp\<close> if they are disjoint, stores the old
  source bytes in the destination, and changes no byte outside it.
\<close>

theorem memcpy_copies:
  assumes "count \<le> dest - src"
  shows "(\<forall>j < count. memcpy m dest src count (dest + j) = m (src + j)) \<and>
    (\<forall>a. count \<le> a - dest \<longrightarrow> memcpy m dest src count a = m a) \<and>
    (count \<le> src - dest \<longrightarrow> memcmp (memcpy m dest src count) dest src count = 0)"
proof -
  have ap: "memcpy m dest src count a = (if a - dest < count then m (src + (a - dest)) else m a)" for a
    using assms by (intro memcpy_apply) simp
  have "\<not> src + j - dest < count" if "j < count" "count \<le> src - dest" for j
    using that assms by uint_arith
  then show ?thesis by (auto simp: ap memcmp_zero_iff)
qed

theorem memcpy_copies_witness:
  "memcmp (memcpy strings_demo 200 100 2) 200 100 2 = 0 \<and> strcmp strings_demo 100 200 \<noteq> Some 0 \<and>
   memcpy strings_demo 200 100 2 201 = 98"
proof -
  have "strcmp strings_demo 100 200 = Some (- 102)"
    using strcmp_loop_cstring [of strings_demo 100 "[97, 98]" 200 "[97, 200]"]
    by (simp add: strcmp_def strings_demo_def)
  moreover have "(2 :: u32) \<le> 200 - 100" by simp
  note copied = memcpy_copies [OF this, of strings_demo]
  moreover have "memcpy strings_demo 200 100 2 (200 + 1) = strings_demo (100 + 1)"
    using copied [THEN conjunct1, rule_format, of 1] by simp
  ultimately show ?thesis by (simp add: strings_demo_def)
qed

end
