(* ===== verification/Frame_Pool.thy ===== *)
theory Frame_Pool
  imports Kernel_Prelude
begin

text \<open>
  The interface a client of the physical frame allocator relies on: the paging-size frames
  in use form a set, an allocation returns the address of an unused frame and adds it, a
  release removes it, and 0 stands for failure.
\<close>

fun alloc_many :: "('s \<Rightarrow> u32 \<times> 's) \<Rightarrow> nat \<Rightarrow> 's \<Rightarrow> u32 list \<times> 's" where
  "alloc_many alloc 0 s = ([], s)"
| "alloc_many alloc (Suc n) s =
     (let (p, s1) = alloc s; (ps, s2) = alloc_many alloc n s1 in (p # ps, s2))"

locale frame_pool =
  fixes alloc :: "'s \<Rightarrow> u32 \<times> 's"
    and release :: "u32 \<Rightarrow> 's \<Rightarrow> 's"
    and used :: "'s \<Rightarrow> nat set"
    and total :: "'s \<Rightarrow> nat"
    and invar :: "'s \<Rightarrow> bool"
  assumes used_bound: "invar s \<Longrightarrow> used s \<subseteq> {..<total s}"
    and alloc_full: "invar s \<Longrightarrow> used s = {..<total s} \<Longrightarrow> alloc s = (0, s)"
    and alloc_ok: "invar s \<Longrightarrow> used s \<noteq> {..<total s} \<Longrightarrow> alloc s = (p, s') \<Longrightarrow>
      invar s' \<and> total s' = total s \<and> unat p mod 4096 = 0 \<and> unat p div 4096 < total s \<and>
      unat p div 4096 \<notin> used s \<and> used s' = insert (unat p div 4096) (used s)"
    and release_ok: "invar s \<Longrightarrow> invar (release p s) \<and> total (release p s) = total s \<and>
      used (release p s) = used s - {unat p div 4096}"
begin

lemma used_finite: "invar s \<Longrightarrow> finite (used s)"
  using used_bound finite_subset by blast

lemma alloc_release:
  assumes "invar s" and "used s \<noteq> {..<total s}" and "alloc s = (p, s')"
  shows "used (release p s') = used s"
  using alloc_ok [OF assms] release_ok [of s' p] by simp

lemma alloc_many_ok:
  "invar s \<Longrightarrow> n \<le> total s - card (used s) \<Longrightarrow> alloc_many alloc n s = (ps, s') \<Longrightarrow>
   length ps = n \<and> distinct ps \<and> invar s' \<and> total s' = total s \<and>
   (\<forall>p \<in> set ps. unat p mod 4096 = 0 \<and> unat p div 4096 \<notin> used s) \<and>
   used s' = used s \<union> (\<lambda>p. unat p div 4096) ` set ps"
proof (induction n arbitrary: s ps)
  case (Suc n)
  obtain p s1 where p: "alloc s = (p, s1)" by fastforce
  obtain qs s2 where r2: "alloc_many alloc n s1 = (qs, s2)" by (rule prod.exhaust)
  with Suc.prems(3) p have ps: "ps = p # qs" and r: "alloc_many alloc n s1 = (qs, s')" by auto
  have "used s \<noteq> {..<total s}"
  proof
    assume "used s = {..<total s}"
    then have "card (used s) = total s" by simp
    with Suc.prems(2) show False by simp
  qed
  note one = alloc_ok [OF Suc.prems(1) this p]
  have "card (used s1) = Suc (card (used s))"
    using one used_finite [OF Suc.prems(1)] by simp
  then have "n \<le> total s1 - card (used s1)" using one Suc.prems(2) by simp
  moreover have "invar s1" using one by simp
  ultimately have IH: "length qs = n \<and> distinct qs \<and> invar s' \<and> total s' = total s1 \<and>
      (\<forall>q \<in> set qs. unat q mod 4096 = 0 \<and> unat q div 4096 \<notin> used s1) \<and>
      used s' = used s1 \<union> (\<lambda>p. unat p div 4096) ` set qs"
    using Suc.IH [OF _ _ r] by simp
  then have "p \<notin> set qs" using one by blast
  with one IH ps show ?case by auto
qed simp

end

end
