(* ===== verification/Frame_Allocator.thy ===== *)
theory Frame_Allocator
  imports Libc Frame_Pool
begin

text \<open>
  The physical frame allocator (\<^verbatim>\<open>src/mm/memory.c\<close>): a bitmap in the machine's memory, one
  bit per 4 KiB frame, placed after the kernel image by a bump allocator. The state holds
  the memory and the module's static variables; a null \<^verbatim>\<open>frame_bitmap\<close> is 0. The log
  calls of the module print and change nothing else, so they are left out.
\<close>

abbreviation FRAME_SIZE :: u32 where
  "FRAME_SIZE \<equiv> 4096"

abbreviation MULTIBOOT_FLAG_MMAP :: u32 where
  "MULTIBOOT_FLAG_MMAP \<equiv> 0x40"

record frame_state =
  fr_mem :: memory
  frame_bitmap :: u32
  total_frames :: u32
  used_frames :: u32
  bitmap_words :: u32
  placement_addr :: u32

subsection \<open>Placement allocation\<close>

definition align_up :: "u32 \<Rightarrow> u32 \<Rightarrow> u32" where
  "align_up addr align = (addr + align - 1) AND NOT (align - 1)"

definition placement_init :: "u32 \<Rightarrow> frame_state \<Rightarrow> frame_state" where
  "placement_init kernel_end s = s\<lparr>placement_addr := align_up kernel_end FRAME_SIZE\<rparr>"

definition placement_alloc :: "u32 \<Rightarrow> u32 \<Rightarrow> frame_state \<Rightarrow> u32 \<times> frame_state" where
  "placement_alloc sz align s =
     (let s1 = (if align \<noteq> 0 then s\<lparr>placement_addr := align_up (placement_addr s) align\<rparr> else s);
          addr = placement_addr s1
      in (addr, s1\<lparr>placement_addr := placement_addr s1 + sz\<rparr>))"

subsection \<open>Bits of the bitmap\<close>

definition bitmap_word :: "frame_state \<Rightarrow> u32 \<Rightarrow> u32" where
  "bitmap_word s i = load32 (fr_mem s) (frame_bitmap s + 4 * i)"

definition test_frame :: "frame_state \<Rightarrow> u32 \<Rightarrow> bool" where
  "test_frame s frame \<longleftrightarrow>
     drop_bit (unat (frame mod 32)) (bitmap_word s (frame div 32)) AND 1 \<noteq> 0"

definition set_frame :: "u32 \<Rightarrow> frame_state \<Rightarrow> frame_state" where
  "set_frame frame s =
     (if \<not> test_frame s frame then
        s\<lparr>fr_mem := store32 (fr_mem s) (frame_bitmap s + 4 * (frame div 32))
                     (bitmap_word s (frame div 32) OR push_bit (unat (frame mod 32)) 1),
          used_frames := used_frames s + 1\<rparr>
      else s)"

definition clear_frame :: "u32 \<Rightarrow> frame_state \<Rightarrow> frame_state" where
  "clear_frame frame s =
     (if test_frame s frame then
        s\<lparr>fr_mem := store32 (fr_mem s) (frame_bitmap s + 4 * (frame div 32))
                     (bitmap_word s (frame div 32) AND NOT (push_bit (unat (frame mod 32)) 1)),
          used_frames := used_frames s - 1\<rparr>
      else s)"

subsection \<open>Regions\<close>

text \<open>The loop of \<^verbatim>\<open>reserve_region\<close> and \<^verbatim>\<open>free_region\<close>, with the body as a parameter.\<close>

partial_function (option) region_loop ::
  "(u32 \<Rightarrow> frame_state \<Rightarrow> frame_state) \<Rightarrow> u32 \<Rightarrow> u32 \<Rightarrow> frame_state \<Rightarrow> frame_state option" where
  "region_loop f addr e s =
     (if addr < e then region_loop f (addr + FRAME_SIZE) e (f (addr div FRAME_SIZE) s) else Some s)"

definition reserve_region :: "u32 \<Rightarrow> u32 \<Rightarrow> frame_state \<Rightarrow> frame_state option" where
  "reserve_region start len s =
     region_loop set_frame (align_up start FRAME_SIZE) (align_up (start + len) FRAME_SIZE) s"

definition free_region :: "u32 \<Rightarrow> u32 \<Rightarrow> frame_state \<Rightarrow> frame_state option" where
  "free_region start len s =
     region_loop clear_frame (align_up start FRAME_SIZE) (align_up (start + len) FRAME_SIZE) s"

definition clamp_u64_to_u32 :: "u64 \<Rightarrow> u32" where
  "clamp_u64_to_u32 v = (if v > 0xFFFFFFFF then 0xFFFFFFFF else ucast v)"

subsection \<open>Initialisation from the multiboot memory map\<close>

text \<open>
  A memory map entry is packed: \<^verbatim>\<open>size\<close> at offset 0, \<^verbatim>\<open>addr\<close> at 4, \<^verbatim>\<open>len\<close> at 12
  and \<^verbatim>\<open>type\<close> at 20. In \<^verbatim>\<open>struct multiboot_info\<close>, 52 bytes long, \<^verbatim>\<open>flags\<close> is at
  offset 0, \<^verbatim>\<open>mmap_length\<close> at 44 and \<^verbatim>\<open>mmap_addr\<close> at 48.
\<close>

definition mmap_next :: "memory \<Rightarrow> u32 \<Rightarrow> u32" where
  "mmap_next m entry = entry + load32 m entry + 4"

partial_function (option) mmap_max :: "memory \<Rightarrow> u32 \<Rightarrow> u32 \<Rightarrow> u64 \<Rightarrow> u64 option" where
  "mmap_max m entry mmap_end max_addr =
     (if entry < mmap_end then
        mmap_max m (mmap_next m entry) mmap_end
          (let end = load64 m (entry + 4) + load64 m (entry + 12)
           in if end > max_addr then end else max_addr)
      else Some max_addr)"

definition mmap_free_entry :: "u32 \<Rightarrow> frame_state \<Rightarrow> frame_state option" where
  "mmap_free_entry entry s =
     (let m = fr_mem s in
      if load32 m (entry + 20) = 1 then
        let start64 = load64 m (entry + 4); end64 = load64 m (entry + 4) + load64 m (entry + 12)
        in if start64 < 0x100000000 then
             let end64 = (if end64 > 0x100000000 then 0x100000000 else end64)
             in free_region (ucast start64) (ucast (end64 - start64)) s
           else Some s
      else Some s)"

partial_function (option) mmap_free :: "u32 \<Rightarrow> u32 \<Rightarrow> frame_state \<Rightarrow> frame_state option" where
  "mmap_free entry mmap_end s =
     (if entry < mmap_end then
        Option.bind (mmap_free_entry entry s)
          (\<lambda>s1. mmap_free (mmap_next (fr_mem s1) entry) mmap_end s1)
      else Some s)"

definition frame_allocator_init :: "u32 \<Rightarrow> u32 \<Rightarrow> frame_state \<Rightarrow> frame_state option" where
  "frame_allocator_init kernel_end mb s =
     (if mb = 0 \<or> load32 (fr_mem s) mb AND MULTIBOOT_FLAG_MMAP = 0 then Some s
      else
        let mmap_addr = load32 (fr_mem s) (mb + 48);
            mmap_end = mmap_addr + load32 (fr_mem s) (mb + 44)
        in Option.bind (mmap_max (fr_mem s) mmap_addr mmap_end 0) (\<lambda>max_addr.
          let s1 = s\<lparr>total_frames := clamp_u64_to_u32 max_addr div FRAME_SIZE\<rparr> in
          if total_frames s1 = 0 then Some s1
          else
            let s2 = placement_init kernel_end s1;
                s3 = s2\<lparr>bitmap_words := (total_frames s2 + 31) div 32\<rparr>;
                (p, s4) = placement_alloc (bitmap_words s3 * 4) 4 s3;
                s5 = s4\<lparr>frame_bitmap := p,
                        fr_mem := memset (fr_mem s4) p 0xFF (bitmap_words s4 * 4),
                        used_frames := total_frames s4\<rparr>
            in Option.bind (mmap_free (load32 (fr_mem s5) (mb + 48)) mmap_end s5) (\<lambda>s6.
               Option.bind (reserve_region 0 (placement_addr s6) s6) (\<lambda>s7.
               Option.bind (reserve_region (load32 (fr_mem s7) (mb + 48))
                              (load32 (fr_mem s7) (mb + 44)) s7) (\<lambda>s8.
               reserve_region mb 52 s8)))))"

subsection \<open>Allocation and release\<close>

function find_clear_bit :: "u32 \<Rightarrow> u32 \<Rightarrow> u32 option" where
  "find_clear_bit w b =
     (if b < 32 then if w AND push_bit (unat b) 1 = 0 then Some b else find_clear_bit w (b + 1)
      else None)"
  by pat_completeness auto
termination
  by (relation "measure (\<lambda>(w, b). 32 - unat b)") (auto dest: count_up_measure)

function frame_scan :: "frame_state \<Rightarrow> u32 \<Rightarrow> u32 option" where
  "frame_scan s i =
     (if i < bitmap_words s then
        if bitmap_word s i \<noteq> 0xFFFFFFFF then
          case find_clear_bit (bitmap_word s i) 0 of
            Some b \<Rightarrow> Some (i * 32 + b)
          | None \<Rightarrow> frame_scan s (i + 1)
        else frame_scan s (i + 1)
      else None)"
  by pat_completeness auto
termination
  by (relation "measure (\<lambda>(s, i). unat (bitmap_words s) - unat i)") auto

declare find_clear_bit.simps [simp del] frame_scan.simps [simp del]

definition frame_alloc :: "frame_state \<Rightarrow> u32 \<times> frame_state" where
  "frame_alloc s =
     (if frame_bitmap s = 0 then (0, s)
      else case frame_scan s 0 of
             None \<Rightarrow> (0, s)
           | Some frame \<Rightarrow> (frame * FRAME_SIZE, set_frame frame s))"

definition frame_free :: "u32 \<Rightarrow> frame_state \<Rightarrow> frame_state" where
  "frame_free addr s =
     (if frame_bitmap s = 0 then s
      else let frame = addr div FRAME_SIZE
           in if frame < total_frames s then clear_frame frame s else s)"

definition frame_total :: "frame_state \<Rightarrow> u32" where
  "frame_total s = total_frames s"

definition frame_used :: "frame_state \<Rightarrow> u32" where
  "frame_used s = used_frames s"

definition frame_free_count :: "frame_state \<Rightarrow> u32" where
  "frame_free_count s =
     (if total_frames s < used_frames s then 0 else total_frames s - used_frames s)"

text \<open>
  The search of \<^verbatim>\<open>frame_alloc_contiguous\<close>: the inner loop gives the offset of the first
  used frame of a candidate run, and the outer loop goes on behind that frame.
\<close>

function first_used :: "frame_state \<Rightarrow> u32 \<Rightarrow> u32 \<Rightarrow> u32 \<Rightarrow> u32 option" where
  "first_used s start count i =
     (if i < count then if test_frame s (start + i) then Some i else first_used s start count (i + 1)
      else None)"
  by pat_completeness auto
termination
  by (relation "measure (\<lambda>(s, start, count, i). unat count - unat i)") auto

partial_function (option) contiguous_scan :: "frame_state \<Rightarrow> u32 \<Rightarrow> u32 \<Rightarrow> u32 option option" where
  "contiguous_scan s count start =
     (if start + count \<le> total_frames s then
        case first_used s start count 0 of
          None \<Rightarrow> Some (Some start)
        | Some i \<Rightarrow> contiguous_scan s count (start + i + 1)
      else Some None)"

function set_run :: "u32 \<Rightarrow> u32 \<Rightarrow> u32 \<Rightarrow> frame_state \<Rightarrow> frame_state" where
  "set_run start count i s =
     (if i < count then set_run start count (i + 1) (set_frame (start + i) s) else s)"
  by pat_completeness auto
termination
  by (relation "measure (\<lambda>(start, count, i, s). unat count - unat i)") auto

declare first_used.simps [simp del] set_run.simps [simp del]

definition frame_alloc_contiguous :: "u32 \<Rightarrow> frame_state \<Rightarrow> (u32 \<times> frame_state) option" where
  "frame_alloc_contiguous count s =
     (if frame_bitmap s = 0 \<or> count = 0 then Some (0, s)
      else if count > total_frames s then Some (0, s)
      else map_option
        (\<lambda>r. case r of None \<Rightarrow> (0, s) | Some start \<Rightarrow> (start * FRAME_SIZE, set_run start count 0 s))
        (contiguous_scan s count 0))"

function largest_run_loop :: "frame_state \<Rightarrow> u32 \<Rightarrow> u32 \<Rightarrow> u32 \<Rightarrow> u32" where
  "largest_run_loop s i best current =
     (if i < total_frames s then
        if \<not> test_frame s i then
          largest_run_loop s (i + 1) (if current + 1 > best then current + 1 else best) (current + 1)
        else largest_run_loop s (i + 1) best 0
      else best)"
  by pat_completeness auto
termination
  by (relation "measure (\<lambda>(s, i, best, current). unat (total_frames s) - unat i)") auto

declare largest_run_loop.simps [simp del]

definition frame_largest_free_run :: "frame_state \<Rightarrow> u32" where
  "frame_largest_free_run s = (if frame_bitmap s = 0 then 0 else largest_run_loop s 0 0 0)"

definition frame_stats :: "bool \<Rightarrow> bool \<Rightarrow> frame_state \<Rightarrow> u32 option \<times> u32 option" where
  "frame_stats free_nonnull largest_nonnull s =
     (if free_nonnull then Some (frame_free_count s) else None,
      if largest_nonnull then Some (frame_largest_free_run s) else None)"

subsection \<open>The abstraction: which frames are used\<close>

definition used_at :: "frame_state \<Rightarrow> nat \<Rightarrow> bool" where
  "used_at s f \<longleftrightarrow> bit (bitmap_word s (of_nat (f div 32))) (f mod 32)"

text \<open>
  The invariant of the initialised allocator: the bitmap has a word for every 32 frames and
  does not wrap around the address space, the counter agrees with the bits, and the padding
  bits behind the last frame stay set.
\<close>

definition frames_wf :: "frame_state \<Rightarrow> bool" where
  "frames_wf s \<longleftrightarrow>
     frame_bitmap s \<noteq> 0 \<and> 0 < total_frames s \<and> unat (total_frames s) < 2 ^ 20 \<and>
     unat (bitmap_words s) = (unat (total_frames s) + 31) div 32 \<and>
     unat (frame_bitmap s) + 4 * unat (bitmap_words s) \<le> 2 ^ 32 \<and>
     unat (used_frames s) = card {f. f < unat (total_frames s) \<and> used_at s f} \<and>
     (\<forall>f. unat (total_frames s) \<le> f \<and> f < 32 * unat (bitmap_words s) \<longrightarrow> used_at s f)"

lemma frame_word: "(fr :: u32) div 32 = of_nat (unat fr div 32)"
  using of_nat_unat_div [of fr 32] by simp

lemma test_frame_iff: "test_frame s fr \<longleftrightarrow> used_at s (unat fr)"
  by (simp add: test_frame_def used_at_def frame_word unat_mod_distrib bit_iff_odd_drop_bit
      and_one_eq odd_iff_mod_2_eq_one)

lemma bitmap_word_store:
  assumes "i < 2 ^ 27" and "j < 2 ^ 27"
  shows "bitmap_word (s\<lparr>fr_mem := store32 (fr_mem s) (frame_bitmap s + 4 * of_nat i) v\<rparr>) (of_nat j)
    = (if j = i then v else bitmap_word s (of_nat j))"
proof -
  have "apart (frame_bitmap s + of_nat (4 * i)) (frame_bitmap s + of_nat (4 * j))" if "i \<noteq> j"
    using that assms apart_offset [of "4 * i" "4 * j"] apart_offset [of "4 * j" "4 * i"]
    by (cases "i < j") (auto simp: apart_sym)
  then show ?thesis
    by (auto simp: bitmap_word_def load32_store32_apart)
qed

lemma frame_word_small: "g < 2 ^ 32 \<Longrightarrow> g div 32 < (2::nat) ^ 27"
  by (simp add: less_mult_imp_div_less)

lemma same_frame_iff: "g div 32 = f div 32 \<Longrightarrow> g mod 32 = f mod 32 \<longleftrightarrow> g = (f::nat)"
  by (metis div_mult_mod_eq)

lemma used_at_set_frame:
  assumes "g < 2 ^ 32"
  shows "used_at (set_frame fr s) g \<longleftrightarrow> g = unat fr \<or> used_at s g"
proof (cases "used_at s (unat fr)")
  case False
  have small: "unat fr div 32 < 2 ^ 27" "g div 32 < 2 ^ 27"
    using unsigned_less [of fr, where ?'a = nat] assms frame_word_small by simp_all
  have m: "unat (fr mod 32) = unat fr mod 32" by (simp add: unat_mod_distrib)
  have "bitmap_word (set_frame fr s) (of_nat (g div 32)) =
      (if g div 32 = unat fr div 32
       then bitmap_word s (of_nat (g div 32)) OR push_bit (unat fr mod 32) 1
       else bitmap_word s (of_nat (g div 32)))"
    using bitmap_word_store [OF small, of s] False
    by (simp add: set_frame_def test_frame_iff frame_word m bitmap_word_def)
  then show ?thesis
    using same_frame_iff [of g "unat fr"] False by (auto simp: used_at_def bit_simps)
qed (auto simp: set_frame_def test_frame_iff)

lemma used_at_clear_frame:
  assumes "g < 2 ^ 32"
  shows "used_at (clear_frame fr s) g \<longleftrightarrow> g \<noteq> unat fr \<and> used_at s g"
proof (cases "used_at s (unat fr)")
  case True
  have small: "unat fr div 32 < 2 ^ 27" "g div 32 < 2 ^ 27"
    using unsigned_less [of fr, where ?'a = nat] assms frame_word_small by simp_all
  have m: "unat (fr mod 32) = unat fr mod 32" by (simp add: unat_mod_distrib)
  have "bitmap_word (clear_frame fr s) (of_nat (g div 32)) =
      (if g div 32 = unat fr div 32
       then bitmap_word s (of_nat (g div 32)) AND NOT (push_bit (unat fr mod 32) 1)
       else bitmap_word s (of_nat (g div 32)))"
    using bitmap_word_store [OF small, of s] True
    by (simp add: clear_frame_def test_frame_iff frame_word m bitmap_word_def)
  then show ?thesis
    using same_frame_iff [of g "unat fr"] True by (auto simp: used_at_def bit_simps)
qed (auto simp: clear_frame_def test_frame_iff)

lemma set_frame_fields [simp]:
  "frame_bitmap (set_frame fr s) = frame_bitmap s"
  "total_frames (set_frame fr s) = total_frames s"
  "bitmap_words (set_frame fr s) = bitmap_words s"
  "placement_addr (set_frame fr s) = placement_addr s"
  by (simp_all add: set_frame_def)

lemma clear_frame_fields [simp]:
  "frame_bitmap (clear_frame fr s) = frame_bitmap s"
  "total_frames (clear_frame fr s) = total_frames s"
  "bitmap_words (clear_frame fr s) = bitmap_words s"
  "placement_addr (clear_frame fr s) = placement_addr s"
  by (simp_all add: clear_frame_def)

subsection \<open>Setting and clearing keep the invariant\<close>

definition used_set :: "frame_state \<Rightarrow> nat set" where
  "used_set s = {f. f < unat (total_frames s) \<and> used_at s f}"

lemma frames_wfD:
  assumes "frames_wf s"
  shows "frame_bitmap s \<noteq> 0" "0 < unat (total_frames s)" "unat (total_frames s) < 2 ^ 20"
    "unat (bitmap_words s) = (unat (total_frames s) + 31) div 32"
    "unat (used_frames s) = card (used_set s)"
    "\<And>f. unat (total_frames s) \<le> f \<Longrightarrow> f < 32 * unat (bitmap_words s) \<Longrightarrow> used_at s f"
  using assms by (auto simp: frames_wf_def used_set_def word_less_nat_alt)

lemma frames_wf_words:
  assumes "frames_wf s"
  shows "unat (total_frames s) \<le> 32 * unat (bitmap_words s)"
    "32 * unat (bitmap_words s) < 2 ^ 21" "unat (bitmap_words s) < 2 ^ 16"
  using frames_wfD(3,4) [OF assms] by auto

lemma finite_used_set [simp]: "finite (used_set s)"
  by (simp add: used_set_def)

lemma card_used_set: "card (used_set s) \<le> unat (total_frames s)"
  using card_mono [of "{..<unat (total_frames s)}" "used_set s"] by (auto simp: used_set_def)

lemma used_set_set_frame:
  "fr < total_frames s \<Longrightarrow> used_set (set_frame fr s) = insert (unat fr) (used_set s)"
  using unsigned_less [of "total_frames s", where ?'a = nat]
  by (auto simp: used_set_def used_at_set_frame word_less_nat_alt simp del: unsigned_less unat_u32)

lemma used_set_clear_frame:
  "used_set (clear_frame fr s) = used_set s - {unat fr}"
  using unsigned_less [of "total_frames s", where ?'a = nat]
  by (auto simp: used_set_def used_at_clear_frame simp del: unsigned_less unat_u32)

lemma set_frame_wf [inv_intros]:
  assumes wf: "frames_wf s" and fr: "fr < total_frames s"
  shows "frames_wf (set_frame fr s)"
proof -
  have "unat (used_frames (set_frame fr s)) = card (used_set (set_frame fr s))"
  proof (cases "used_at s (unat fr)")
    case True
    then show ?thesis
      using frames_wfD(5) [OF wf] by (simp add: set_frame_def test_frame_iff)
  next
    case False
    then have "unat fr \<notin> used_set s" by (simp add: used_set_def)
    moreover have "unat (used_frames s + 1) = unat (used_frames s) + 1"
      using frames_wfD(3,5) [OF wf] card_used_set [of s] by (simp add: unat_word_ariths)
    ultimately show ?thesis
      using frames_wfD(5) [OF wf] fr False
      by (subst used_set_set_frame) (simp_all add: set_frame_def test_frame_iff)
  qed
  moreover have "used_at (set_frame fr s) f"
    if "unat (total_frames s) \<le> f" "f < 32 * unat (bitmap_words s)" for f
    using that frames_wfD(6) [OF wf that] frames_wf_words [OF wf] by (simp add: used_at_set_frame)
  ultimately show ?thesis
    using wf by (simp add: frames_wf_def used_set_def)
qed

lemma clear_frame_wf [inv_intros]:
  assumes wf: "frames_wf s" and fr: "fr < total_frames s"
  shows "frames_wf (clear_frame fr s)"
proof -
  have "unat (used_frames (clear_frame fr s)) = card (used_set (clear_frame fr s))"
  proof (cases "used_at s (unat fr)")
    case False
    then have "unat fr \<notin> used_set s" by (simp add: used_set_def)
    with False show ?thesis
      using frames_wfD(5) [OF wf] by (simp add: clear_frame_def test_frame_iff)
  next
    case True
    with fr have mem: "unat fr \<in> used_set s" by (simp add: used_set_def word_less_nat_alt)
    then have "0 < unat (used_frames s)"
      using frames_wfD(5) [OF wf] by (auto simp: card_gt_0_iff)
    then have "unat (used_frames s - 1) = unat (used_frames s) - 1"
      by (simp add: unat_minus_one unat_gt_0)
    with mem True show ?thesis
      using frames_wfD(5) [OF wf]
      by (subst used_set_clear_frame) (simp add: clear_frame_def test_frame_iff)
  qed
  moreover have "used_at (clear_frame fr s) f"
    if "unat (total_frames s) \<le> f" "f < 32 * unat (bitmap_words s)" for f
    using that frames_wfD(6) [OF wf that] frames_wf_words [OF wf] fr
    by (simp add: used_at_clear_frame word_less_nat_alt)
  ultimately show ?thesis
    using wf by (simp add: frames_wf_def used_set_def)
qed

subsection \<open>The scan of \<^verbatim>\<open>frame_alloc\<close>\<close>

lemma find_clear_bit_Some:
  "find_clear_bit w b = Some r \<Longrightarrow>
   b \<le> r \<and> r < 32 \<and> \<not> bit w (unat r) \<and> (\<forall>k. unat b \<le> k \<and> k < unat r \<longrightarrow> bit w k)"
proof (induction w b rule: find_clear_bit.induct)
  case (1 w b)
  show ?case
  proof (cases "b < 32 \<and> bit w (unat b)")
    case True
    then have "find_clear_bit w (b + 1) = Some r"
      using "1.prems" by (simp add: find_clear_bit.simps [of w b] and_exp_eq_0_iff_not_bit)
    with "1.IH" True have "b < r \<and> r < 32 \<and> \<not> bit w (unat r) \<and>
        (\<forall>k. unat b < k \<and> k < unat r \<longrightarrow> bit w k)"
      by (simp add: and_exp_eq_0_iff_not_bit word_succ_le_iff [of b 32] unat_succ_less [of b 32] Suc_le_eq)
    with True show ?thesis by (metis le_neq_implies_less less_imp_le)
  next
    case False
    with "1.prems" show ?thesis
      by (auto simp: find_clear_bit.simps [of w b] and_exp_eq_0_iff_not_bit split: if_splits)
  qed
qed

lemma find_clear_bit_None:
  "find_clear_bit w b = None \<Longrightarrow> unat b \<le> k \<Longrightarrow> k < 32 \<Longrightarrow> bit w k"
proof (induction w b rule: find_clear_bit.induct)
  case (1 w b)
  then have b: "b < 32" by (simp add: word_less_nat_alt)
  then have "bit w (unat b)" and "find_clear_bit w (b + 1) = None"
    using "1.prems"(1) by (auto simp: find_clear_bit.simps [of w b] and_exp_eq_0_iff_not_bit split: if_splits)
  with 1 b show ?case
    by (cases "unat b = k") (simp_all add: and_exp_eq_0_iff_not_bit unat_succ_less [of b 32])
qed

lemma full_word_iff: "(w :: u32) = 0xFFFFFFFF \<longleftrightarrow> (\<forall>k < 32. bit w k)"
proof -
  have "(0xFFFFFFFF :: u32) = - 1" by simp
  then have "bit (0xFFFFFFFF :: u32) k" if "k < 32" for k
    using that by (simp only: bit_minus_1_iff possible_bit_word) simp
  then show ?thesis by (auto intro: bit_word_eqI)
qed

lemma word_bit_frame:
  assumes "unat i < 2 ^ 27" and "k < 32"
  shows "used_at s (32 * unat i + k) \<longleftrightarrow> bit (bitmap_word s i) k"
proof -
  have "(32 * unat i + k) div 32 = unat i" and "(32 * unat i + k) mod 32 = k"
    using assms(2) by simp_all
  then show ?thesis by (simp add: used_at_def)
qed

text \<open>
  The scan from word \<open>i\<close> finds the least free bit at or above frame \<open>32 i\<close>, and gives up
  only when there is none.
\<close>

definition least_free :: "frame_state \<Rightarrow> nat \<Rightarrow> nat \<Rightarrow> bool" where
  "least_free s lo f \<longleftrightarrow> lo \<le> f \<and> f < 32 * unat (bitmap_words s) \<and> \<not> used_at s f \<and>
     (\<forall>g. lo \<le> g \<and> g < f \<longrightarrow> used_at s g)"

lemma least_free_extend:
  assumes "least_free s (lo + 32) f" and "\<And>k. k < 32 \<Longrightarrow> used_at s (lo + k)"
  shows "least_free s lo f"
proof -
  have "used_at s g" if "lo \<le> g" "g < f" for g
    using assms(1) assms(2) [of "g - lo"] that by (cases "g < lo + 32") (auto simp: least_free_def)
  then show ?thesis using assms(1) by (auto simp: least_free_def)
qed

lemma frame_scan_spec:
  assumes "unat (bitmap_words s) < 2 ^ 16"
  shows "case frame_scan s i of
      None \<Rightarrow> \<forall>f. 32 * unat i \<le> f \<and> f < 32 * unat (bitmap_words s) \<longrightarrow> used_at s f
    | Some r \<Rightarrow> least_free s (32 * unat i) (unat r)"
  using assms
proof (induction s i rule: frame_scan.induct)
  case (1 s i)
  show ?case
  proof (cases "i < bitmap_words s")
    case False
    then show ?thesis by (auto simp: frame_scan.simps [of s i] word_less_nat_alt)
  next
    case True
    then have i: "unat i < unat (bitmap_words s)" by (simp add: word_less_nat_alt)
    then have small: "unat i < 2 ^ 27" using "1.prems" by simp
    note wb = word_bit_frame [OF small, of _ s]
    show ?thesis
    proof (cases "bitmap_word s i = 0xFFFFFFFF")
      case True
      then have all: "used_at s (32 * unat i + k)" if "k < 32" for k
        using that by (simp add: wb full_word_iff)
      have succ: "32 * unat (i + 1) = 32 * unat i + 32"
        using unat_succ_less [OF \<open>i < bitmap_words s\<close>] by simp
      have IH: "case frame_scan s (i + 1) of
          None \<Rightarrow> \<forall>f. 32 * unat i + 32 \<le> f \<and> f < 32 * unat (bitmap_words s) \<longrightarrow> used_at s f
        | Some r \<Rightarrow> least_free s (32 * unat i + 32) (unat r)"
        using "1.IH"(2) [OF \<open>i < bitmap_words s\<close>] True "1.prems"
        unfolding succ [symmetric] by simp
      have step: "frame_scan s i = frame_scan s (i + 1)"
        using \<open>i < bitmap_words s\<close> True by (simp add: frame_scan.simps [of s i])
      show ?thesis
      proof (cases "frame_scan s (i + 1)")
        case None
        then have "used_at s f" if "32 * unat i \<le> f" "f < 32 * unat (bitmap_words s)" for f
          using IH that all [of "f - 32 * unat i"] by (cases "f < 32 * unat i + 32") auto
        with step None show ?thesis by simp
      next
        case (Some r)
        with IH all step show ?thesis by (simp add: least_free_extend)
      qed
    next
      case False
      then obtain b where b: "find_clear_bit (bitmap_word s i) 0 = Some b"
        using find_clear_bit_None [of "bitmap_word s i" 0] full_word_iff [of "bitmap_word s i"]
        by fastforce
      note fb = find_clear_bit_Some [OF b]
      have r: "unat (i * 32 + b) = 32 * unat i + unat b"
        using i fb "1.prems" by (simp add: unat_word_ariths word_less_nat_alt)
      have "used_at s g" if "32 * unat i \<le> g" "g < 32 * unat i + unat b" for g
        using that fb wb [of "g - 32 * unat i"] by (auto simp: word_less_nat_alt)
      moreover have "unat b < 32" using fb by (simp add: word_less_nat_alt)
      ultimately have "least_free s (32 * unat i) (unat (i * 32 + b))"
        using fb i r wb [of "unat b"] by (simp add: least_free_def)
      then show ?thesis
        using True False b by (simp add: frame_scan.simps [of s i])
    qed
  qed
qed

subsection \<open>Contiguous runs\<close>

definition free_run :: "frame_state \<Rightarrow> nat \<Rightarrow> nat \<Rightarrow> bool" where
  "free_run s start count \<longleftrightarrow>
     start + count \<le> unat (total_frames s) \<and> (\<forall>i < count. start + i \<notin> used_set s)"

lemma first_used_Some:
  "first_used s start count i = Some r \<Longrightarrow> i \<le> r \<and> r < count \<and> test_frame s (start + r)"
proof (induction s start count i rule: first_used.induct)
  case (1 s start count i)
  then show ?case
    by (cases "i < count")
       (auto simp: first_used.simps [of s start count i] word_succ_le_iff less_imp_le split: if_splits)
qed

lemma first_used_None:
  "first_used s start count i = None \<Longrightarrow> i \<le> j \<Longrightarrow> j < count \<Longrightarrow> \<not> test_frame s (start + j)"
proof (induction s start count i rule: first_used.induct)
  case (1 s start count i)
  then have i: "i < count" by simp
  with "1.prems"(1) have "\<not> test_frame s (start + i)" "first_used s start count (i + 1) = None"
    by (auto simp: first_used.simps [of s start count i] split: if_splits)
  with 1 i show ?case
    by (cases "i = j") (simp_all add: word_succ_le_iff)
qed

lemma run_sum:
  assumes "frames_wf s" and "start \<le> total_frames s" and "i \<le> total_frames s"
  shows "unat (start + i) = unat start + unat i"
  using assms frames_wfD(3) [OF assms(1)] by (simp add: word_le_nat_alt unat_plus_no_wrap)

lemma contiguous_scan_spec:
  assumes wf: "frames_wf s" and count: "0 < count" "count \<le> total_frames s"
    and start: "start \<le> total_frames s"
    and below: "\<And>st. st < unat start \<Longrightarrow> \<not> free_run s st (unat count)"
  shows "\<exists>r. contiguous_scan s count start = Some r \<and>
    (case r of None \<Rightarrow> \<forall>st. \<not> free_run s st (unat count)
     | Some p \<Rightarrow> free_run s (unat p) (unat count) \<and> (\<forall>st < unat p. \<not> free_run s st (unat count)))"
  using start below
proof (induction "unat (total_frames s) - unat start" arbitrary: start rule: less_induct)
  case less
  have sum: "unat (start + count) = unat start + unat count"
    using run_sum [OF wf less.prems(1) count(2)] .
  show ?case
  proof (cases "start + count \<le> total_frames s")
    case False
    then have "\<not> free_run s st (unat count)" for st
      using sum less.prems(2) [of st]
      by (cases "st < unat start") (auto simp: free_run_def word_le_nat_alt not_le)
    with False show ?thesis by (subst contiguous_scan.simps) simp
  next
    case True
    then have fits: "unat start + unat count \<le> unat (total_frames s)"
      using sum by (simp add: word_le_nat_alt)
    have at: "unat (start + i) = unat start + unat i" if "i < count" for i
      using run_sum [OF wf less.prems(1)] that count(2) by (simp add: less_imp_le order.strict_trans2)
    show ?thesis
    proof (cases "first_used s start count 0")
      case None
      have "unat start + k \<notin> used_set s" if "k < unat count" for k
      proof -
        have k: "of_nat k < count" "unat (of_nat k :: u32) = k"
          using that unsigned_less [of count, where ?'a = nat]
          by (simp_all add: word_less_nat_alt unat_of_nat_small del: unsigned_less unat_u32)
        then show ?thesis
          using first_used_None [OF None _ k(1)] at [OF k(1)]
          by (simp add: test_frame_iff used_set_def)
      qed
      then have "free_run s (unat start) (unat count)" using fits by (simp add: free_run_def)
      with None True less.prems(2) show ?thesis by (subst contiguous_scan.simps) simp
    next
      case (Some i)
      then have i: "i < count" and used: "test_frame s (start + i)"
        using first_used_Some by blast+
      have ui: "unat i < unat count" using i by (simp add: word_less_nat_alt)
      have nxt: "unat (start + i + 1) = unat start + unat i + 1"
        using at [OF i] fits ui frames_wfD(3) [OF wf] by (simp add: unat_word_ariths)
      have hit: "unat start + unat i \<in> used_set s"
        using used at [OF i] fits ui by (simp add: test_frame_iff used_set_def)
      have skip: "\<not> free_run s st (unat count)"
        if "unat start \<le> st" "st \<le> unat start + unat i" for st
      proof
        assume "free_run s st (unat count)"
        moreover have "unat start + unat i - st < unat count" using that ui by simp
        ultimately have "st + (unat start + unat i - st) \<notin> used_set s"
          unfolding free_run_def by blast
        then show False using that hit by simp
      qed
      have "\<not> free_run s st (unat count)" if "st < unat (start + i + 1)" for st
        using that nxt skip [of st] less.prems(2) [of st] by (cases "st < unat start") auto
      moreover have "unat (total_frames s) - unat (start + i + 1) < unat (total_frames s) - unat start"
        using nxt fits ui by simp
      moreover have "start + i + 1 \<le> total_frames s"
        using nxt fits ui by (simp add: word_le_nat_alt)
      ultimately have "\<exists>r. contiguous_scan s count (start + i + 1) = Some r \<and>
          (case r of None \<Rightarrow> \<forall>st. \<not> free_run s st (unat count)
           | Some p \<Rightarrow> free_run s (unat p) (unat count) \<and>
               (\<forall>st < unat p. \<not> free_run s st (unat count)))"
        using less.hyps by blast
      with True Some show ?thesis by (subst contiguous_scan.simps) simp
    qed
  qed
qed

lemma set_run_spec:
  assumes "frames_wf s" and "unat start + unat count \<le> unat (total_frames s)" and "i \<le> count"
  shows "frames_wf (set_run start count i s) \<and>
    total_frames (set_run start count i s) = total_frames s \<and>
    used_set (set_run start count i s) =
      used_set s \<union> {unat start + unat i ..< unat start + unat count}"
  using assms
proof (induction start count i s rule: set_run.induct)
  case (1 start count i s)
  show ?case
  proof (cases "i < count")
    case False
    with "1.prems" show ?thesis by (simp add: set_run.simps)
  next
    case True
    have sum: "unat (start + i) = unat start + unat i"
      using "1.prems" True frames_wfD(3) [OF "1.prems"(1)]
      by (simp add: unat_plus_no_wrap word_less_nat_alt)
    then have fr: "start + i < total_frames s"
      using "1.prems"(2) True by (simp add: word_less_nat_alt)
    let ?s = "set_frame (start + i) s"
    have "frames_wf (set_run start count (i + 1) ?s) \<and>
        total_frames (set_run start count (i + 1) ?s) = total_frames ?s \<and>
        used_set (set_run start count (i + 1) ?s) =
          used_set ?s \<union> {unat start + unat (i + 1) ..< unat start + unat count}"
      using "1.IH" [OF True set_frame_wf [OF "1.prems"(1) fr]] "1.prems"(2) True
      by (simp add: word_succ_le_iff)
    moreover have "unat i < unat count" using True by (simp add: word_less_nat_alt)
    then have "insert (unat start + unat i) U \<union> {unat start + Suc (unat i)..<unat start + unat count} =
        U \<union> {unat start + unat i..<unat start + unat count}" for U
      by auto
    ultimately show ?thesis
      using True sum
      by (simp add: set_run.simps [of start count i s] used_set_set_frame [OF fr] unat_succ_less [OF True])
  qed
qed

text \<open>
  The counting loop behind \<^verbatim>\<open>frame_largest_free_run\<close>: \<open>best\<close> is the length of the longest
  free run inside the frames seen so far, \<open>current\<close> that of the run ending at the last of
  them.
\<close>

definition best_upto :: "frame_state \<Rightarrow> nat \<Rightarrow> nat \<Rightarrow> bool" where
  "best_upto s n best \<longleftrightarrow> (\<exists>st. st + best \<le> n \<and> free_run s st best) \<and>
     (\<forall>st k. st + k \<le> n \<and> free_run s st k \<longrightarrow> k \<le> best)"

definition current_upto :: "frame_state \<Rightarrow> nat \<Rightarrow> nat \<Rightarrow> bool" where
  "current_upto s n current \<longleftrightarrow> current \<le> n \<and> free_run s (n - current) current \<and>
     (\<forall>k. k \<le> n \<and> free_run s (n - k) k \<longrightarrow> k \<le> current)"

lemma free_run_snoc:
  "free_run s st (Suc k) \<longleftrightarrow> free_run s st k \<and> st + k < unat (total_frames s) \<and> st + k \<notin> used_set s"
  by (auto simp: free_run_def less_Suc_eq)

lemma current_upto_free:
  assumes "current_upto s n c" and "n < unat (total_frames s)" and "n \<notin> used_set s"
  shows "current_upto s (Suc n) (Suc c)"
proof -
  have "k \<le> Suc c" if "k \<le> Suc n" "free_run s (Suc n - k) k" for k
  proof (cases k)
    case (Suc j)
    then have "free_run s (n - j) j" and "j \<le> n"
      using that by (simp_all add: free_run_snoc)
    with assms(1) Suc show ?thesis by (auto simp: current_upto_def)
  qed simp
  then show ?thesis
    using assms by (auto simp: current_upto_def free_run_snoc)
qed

lemma current_upto_used:
  assumes "n \<in> used_set s"
  shows "current_upto s (Suc n) 0"
proof -
  have "k = 0" if "k \<le> Suc n" "free_run s (Suc n - k) k" for k
  proof (cases k)
    case (Suc j)
    with that have "n - j + j \<notin> used_set s" and "j \<le> n" by (simp_all add: free_run_snoc)
    with assms show ?thesis by simp
  qed simp
  then show ?thesis using assms by (auto simp: current_upto_def free_run_def used_set_def)
qed

lemma best_upto_step:
  assumes "best_upto s n b" and "current_upto s (Suc n) c"
  shows "best_upto s (Suc n) (max b c)"
proof -
  have "k \<le> max b c" if "st + k \<le> Suc n" "free_run s st k" for st k
  proof (cases "st + k = Suc n")
    case True
    then have "free_run s (Suc n - k) k" "k \<le> Suc n" using that by (auto simp flip: True)
    with assms(2) show ?thesis by (auto simp: current_upto_def)
  next
    case False
    with that assms(1) have "k \<le> b" unfolding best_upto_def by (metis le_SucE)
    then show ?thesis by simp
  qed
  moreover have "\<exists>st. st + max b c \<le> Suc n \<and> free_run s st (max b c)"
    using assms unfolding best_upto_def current_upto_def
    by (metis le_SucI max_def le_add_diff_inverse2 order_refl)
  ultimately show ?thesis by (auto simp: best_upto_def)
qed

lemma largest_run_loop_spec:
  assumes "frames_wf s" and "i \<le> total_frames s"
    and "best_upto s (unat i) (unat best)" and "current_upto s (unat i) (unat current)"
  shows "best_upto s (unat (total_frames s)) (unat (largest_run_loop s i best current))"
  using assms
proof (induction s i best current rule: largest_run_loop.induct)
  case (1 s i best current)
  show ?case
  proof (cases "i < total_frames s")
    case False
    with "1.prems" show ?thesis by (simp add: largest_run_loop.simps)
  next
    case True
    then have lt: "unat i < unat (total_frames s)" by (simp add: word_less_nat_alt)
    note succ = unat_succ_less [OF True]
    have i1: "i + 1 \<le> total_frames s" using True by (simp add: word_succ_le_iff)
    show ?thesis
    proof (cases "test_frame s i")
      case used: True
      then have "unat i \<in> used_set s" using lt by (simp add: used_set_def test_frame_iff)
      then have "current_upto s (unat (i + 1)) (unat (0 :: u32))"
        using succ by (simp add: current_upto_used)
      moreover from this have "best_upto s (unat (i + 1)) (unat best)"
        using best_upto_step [OF "1.prems"(3), of 0] succ by simp
      ultimately show ?thesis
        using "1.IH"(2) True used "1.prems"(1) i1 by (simp add: largest_run_loop.simps [of s i])
    next
      case free: False
      then have nu: "unat i \<notin> used_set s" by (simp add: used_set_def test_frame_iff)
      have c: "unat (current + 1) = Suc (unat current)"
        using "1.prems"(4) lt frames_wfD(3) [OF "1.prems"(1)]
        by (simp add: current_upto_def unat_word_ariths)
      have cur: "current_upto s (unat (i + 1)) (unat (current + 1))"
        using current_upto_free [OF "1.prems"(4) lt nu] succ c by simp
      moreover have "unat (if current + 1 > best then current + 1 else best) =
          max (unat best) (unat (current + 1))"
        by (simp add: word_less_nat_alt max_def)
      then have "best_upto s (unat (i + 1)) (unat (if current + 1 > best then current + 1 else best))"
        using best_upto_step [OF "1.prems"(3)] cur succ by metis
      ultimately show ?thesis
        using "1.IH"(1) True free "1.prems"(1) i1 by (simp add: largest_run_loop.simps [of s i])
    qed
  qed
qed

lemma largest_free_run_spec:
  assumes "frames_wf s"
  shows "best_upto s (unat (total_frames s)) (unat (frame_largest_free_run s))"
proof -
  have "best_upto s (unat (0 :: u32)) (unat (0 :: u32))" "current_upto s (unat (0 :: u32)) (unat (0 :: u32))"
    by (auto simp: best_upto_def current_upto_def free_run_def)
  then show ?thesis
    using largest_run_loop_spec [OF assms, of 0 0 0] frames_wfD(1) [OF assms]
    by (simp add: frame_largest_free_run_def)
qed

subsection \<open>Allocation and release on the set of used frames\<close>

lemma page_addr:
  assumes "frames_wf s" and "f < total_frames s"
  shows "unat (f * FRAME_SIZE) = unat f * 4096"
proof -
  have "unat f * 4096 < 2 ^ 32"
    using assms(2) frames_wfD(3) [OF assms(1)] by (simp add: word_less_nat_alt)
  then show ?thesis by (simp add: unat_word_ariths)
qed

lemma frame_alloc_cases:
  assumes wf: "frames_wf s"
  obtains (full) "frame_alloc s = (0, s)" and "used_set s = {..<unat (total_frames s)}"
  | (found) f where "frame_alloc s = (f * FRAME_SIZE, set_frame f s)" and "f < total_frames s"
      and "unat f \<notin> used_set s" and "\<forall>g < unat f. g \<in> used_set s"
proof -
  have spec: "case frame_scan s 0 of
      None \<Rightarrow> \<forall>f. 0 \<le> f \<and> f < 32 * unat (bitmap_words s) \<longrightarrow> used_at s f
    | Some r \<Rightarrow> least_free s 0 (unat r)"
    using frame_scan_spec [of s 0] frames_wf_words [OF wf] by (cases "frame_scan s 0") simp_all
  show thesis
  proof (cases "frame_scan s 0")
    case None
    with spec have "used_set s = {..<unat (total_frames s)}"
      using frames_wf_words [OF wf] by (auto simp: used_set_def)
    with None full frames_wfD(1) [OF wf] show thesis by (simp add: frame_alloc_def)
  next
    case (Some r)
    with spec have lf: "least_free s 0 (unat r)" by simp
    then have lt: "unat r < unat (total_frames s)"
      using frames_wfD(6) [OF wf, of "unat r"] by (auto simp: least_free_def not_le [symmetric])
    with lf have "\<forall>g < unat r. g \<in> used_set s" "unat r \<notin> used_set s"
      by (auto simp: least_free_def used_set_def)
    with lt Some found [of r] frames_wfD(1) [OF wf] show thesis
      by (simp add: frame_alloc_def word_less_nat_alt)
  qed
qed

lemma used_set_frame_free:
  assumes "frames_wf s"
  shows "used_set (frame_free addr s) = used_set s - {unat addr div 4096}"
    and "frames_wf (frame_free addr s)" and "total_frames (frame_free addr s) = total_frames s"
proof -
  let ?f = "addr div FRAME_SIZE"
  have f: "unat ?f = unat addr div 4096" by (simp add: unat_div_distrib)
  have out: "unat ?f \<notin> used_set s" if "\<not> ?f < total_frames s"
    using that by (simp add: used_set_def word_less_nat_alt)
  show "used_set (frame_free addr s) = used_set s - {unat addr div 4096}"
    using out frames_wfD(1) [OF assms] used_set_clear_frame [of ?f s]
    unfolding frame_free_def Let_def f by auto
  show "frames_wf (frame_free addr s)" "total_frames (frame_free addr s) = total_frames s"
    using assms clear_frame_wf [OF assms, of ?f] by (auto simp: frame_free_def Let_def)
qed

interpretation frames: frame_pool frame_alloc frame_free used_set
  "\<lambda>s. unat (total_frames s)" frames_wf
proof
  fix s assume wf: "frames_wf s"
  show "used_set s \<subseteq> {..<unat (total_frames s)}" by (auto simp: used_set_def)
next
  fix s assume wf: "frames_wf s" and "used_set s = {..<unat (total_frames s)}"
  then show "frame_alloc s = (0, s)"
    by (cases rule: frame_alloc_cases [OF wf]) (auto simp: word_less_nat_alt)
next
  fix s p s'
  assume wf: "frames_wf s" and ne: "used_set s \<noteq> {..<unat (total_frames s)}"
    and al: "frame_alloc s = (p, s')"
  show "frames_wf s' \<and> unat (total_frames s') = unat (total_frames s) \<and> unat p mod 4096 = 0 \<and>
      unat p div 4096 < unat (total_frames s) \<and> unat p div 4096 \<notin> used_set s \<and>
      used_set s' = insert (unat p div 4096) (used_set s)"
  proof (cases rule: frame_alloc_cases [OF wf])
    case (2 f)
    with al page_addr [OF wf 2(2)] set_frame_wf [OF wf 2(2)] used_set_set_frame [OF 2(2)]
    show ?thesis by (auto simp: word_less_nat_alt)
  qed (use ne in simp)
next
  fix s p assume "frames_wf s"
  then show "frames_wf (frame_free p s) \<and>
      unat (total_frames (frame_free p s)) = unat (total_frames s) \<and>
      used_set (frame_free p s) = used_set s - {unat p div 4096}"
    by (simp add: used_set_frame_free)
qed

lemma contiguous_alloc_spec:
  assumes wf: "frames_wf s" and "count \<noteq> 0"
  shows "\<exists>p s'. frame_alloc_contiguous count s = Some (p, s') \<and>
    (if \<exists>st. free_run s st (unat count) then
       \<exists>st. free_run s st (unat count) \<and> (\<forall>st' < st. \<not> free_run s st' (unat count)) \<and>
         unat p = st * 4096 \<and> frames_wf s' \<and>
         used_set s' = used_set s \<union> {st..<st + unat count}
     else p = 0 \<and> s' = s)"
proof (cases "count > total_frames s")
  case True
  then have "\<not> free_run s st (unat count)" for st by (simp add: free_run_def word_less_nat_alt)
  with True show ?thesis by (simp add: frame_alloc_contiguous_def)
next
  case False
  with assms(2) have c: "0 < count" "count \<le> total_frames s" by (simp_all add: word_gt_0)
  obtain r where r: "contiguous_scan s count 0 = Some r" and
    spec: "case r of None \<Rightarrow> \<forall>st. \<not> free_run s st (unat count)
      | Some p \<Rightarrow> free_run s (unat p) (unat count) \<and> (\<forall>st < unat p. \<not> free_run s st (unat count))"
    using contiguous_scan_spec [OF wf c, of 0] by auto
  show ?thesis
  proof (cases r)
    case None
    with r spec False frames_wfD(1) [OF wf] show ?thesis by (simp add: frame_alloc_contiguous_def)
  next
    case (Some st)
    with spec have run: "free_run s (unat st) (unat count)" by simp
    then have fit: "unat st + unat count \<le> unat (total_frames s)" by (simp add: free_run_def)
    moreover have "0 < unat count" using c(1) by (simp add: word_less_nat_alt)
    ultimately have "st < total_frames s" by (simp add: word_less_nat_alt)
    moreover note set_run_spec [OF wf fit, of 0]
    ultimately show ?thesis
      using r Some spec run False assms(2) frames_wfD(1) [OF wf] page_addr [OF wf]
      by (auto simp: frame_alloc_contiguous_def)
  qed
qed

lemma free_run_iff_largest:
  assumes "frames_wf s"
  shows "(\<exists>st. free_run s st n) \<longleftrightarrow> n \<le> unat (frame_largest_free_run s)"
proof
  assume "\<exists>st. free_run s st n"
  then show "n \<le> unat (frame_largest_free_run s)"
    using largest_free_run_spec [OF assms] by (auto simp: best_upto_def free_run_def)
next
  assume n: "n \<le> unat (frame_largest_free_run s)"
  obtain st where "free_run s st (unat (frame_largest_free_run s))"
    using largest_free_run_spec [OF assms] by (auto simp: best_upto_def)
  with n have "free_run s st n" by (auto simp: free_run_def)
  then show "\<exists>st. free_run s st n" ..
qed

subsection \<open>A concrete allocator\<close>

text \<open>Four frames, frame 0 in use, with the bitmap at address 0x1000.\<close>

definition frames_demo :: frame_state where
  "frames_demo = \<lparr>fr_mem = store32 (\<lambda>_. 0) 0x1000 0xFFFFFFF1, frame_bitmap = 0x1000,
     total_frames = 4, used_frames = 1, bitmap_words = 1, placement_addr = 0x2000\<rparr>"

lemma used_set_exec: "used_set s = set (filter (used_at s) [0..<unat (total_frames s)])"
  by (auto simp: used_set_def)

lemma frames_wf_exec:
  "frames_wf s \<longleftrightarrow> frame_bitmap s \<noteq> 0 \<and> 0 < total_frames s \<and> unat (total_frames s) < 2 ^ 20 \<and>
     unat (bitmap_words s) = (unat (total_frames s) + 31) div 32 \<and>
     unat (frame_bitmap s) + 4 * unat (bitmap_words s) \<le> 2 ^ 32 \<and>
     unat (used_frames s) = length (filter (used_at s) [0..<unat (total_frames s)]) \<and>
     list_all (used_at s) [unat (total_frames s)..<32 * unat (bitmap_words s)]"
proof -
  have "card (used_set s) = length (filter (used_at s) [0..<unat (total_frames s)])"
    unfolding used_set_exec by (rule distinct_card) simp
  then show ?thesis by (auto simp: frames_wf_def used_set_def list_all_iff)
qed

lemma frames_demo_wf: "frames_wf frames_demo"
proof -
  have "unat (used_frames frames_demo) =
      length (filter (used_at frames_demo) [0..<unat (total_frames frames_demo)])"
    by code_simp
  moreover have "list_all (used_at frames_demo)
      [unat (total_frames frames_demo)..<32 * unat (bitmap_words frames_demo)]"
    by code_simp
  moreover have "frame_bitmap frames_demo \<noteq> 0" "0 < total_frames frames_demo"
    "unat (total_frames frames_demo) < 2 ^ 20"
    "unat (bitmap_words frames_demo) = (unat (total_frames frames_demo) + 31) div 32"
    "unat (frame_bitmap frames_demo) + 4 * unat (bitmap_words frames_demo) \<le> 2 ^ 32"
    by (simp_all add: frames_demo_def)
  ultimately show ?thesis unfolding frames_wf_exec by blast
qed

lemma frames_demo_used: "used_set frames_demo = {0}"
  unfolding used_set_exec by code_simp

lemma frames_demo_total: "total_frames frames_demo = 4"
  by (simp add: frames_demo_def)

subsection \<open>Properties\<close>

text \<open>
  On an initialised allocator, \<^verbatim>\<open>frame_alloc\<close> returns the address of the lowest free
  frame, marks exactly that frame as used and keeps the invariant (bitmap, padding bits and
  counter consistent); when every frame is used it returns 0 and changes nothing.
\<close>

theorem frame_alloc_lowest:
  assumes wf: "frames_wf s" and al: "frame_alloc s = (p, s')"
  shows "if used_set s = {..<unat (total_frames s)} then p = 0 \<and> s' = s
    else frames_wf s' \<and> (\<exists>f < unat (total_frames s). unat p = f * 4096 \<and> f \<notin> used_set s \<and>
           (\<forall>g < f. g \<in> used_set s) \<and> used_set s' = insert f (used_set s))"
proof (cases rule: frame_alloc_cases [OF wf])
  case 1
  with al show ?thesis by simp
next
  case (2 f)
  then have "used_set s \<noteq> {..<unat (total_frames s)}" by (auto simp: word_less_nat_alt)
  moreover have "frames_wf s' \<and> unat p = unat f * 4096 \<and> used_set s' = insert (unat f) (used_set s)"
    using 2 al page_addr [OF wf 2(2)] set_frame_wf [OF wf 2(2)] used_set_set_frame [OF 2(2)] by auto
  ultimately show ?thesis using 2 by (auto simp: word_less_nat_alt)
qed

theorem frame_alloc_lowest_witness:
  "frames_wf (snd (frame_alloc frames_demo)) \<and> used_set (snd (frame_alloc frames_demo)) = {0, 1}"
proof -
  have ne: "used_set frames_demo \<noteq> {..<unat (total_frames frames_demo)}"
  proof
    assume "used_set frames_demo = {..<unat (total_frames frames_demo)}"
    then have "1 \<in> used_set frames_demo" by (simp add: frames_demo_total)
    then show False by (simp add: frames_demo_used)
  qed
  obtain f where "f < 4" "f \<noteq> 0" "\<forall>g < f. g = 0" "frames_wf (snd (frame_alloc frames_demo))"
    "used_set (snd (frame_alloc frames_demo)) = insert f {0}"
    using frame_alloc_lowest [OF frames_demo_wf, of "fst (frame_alloc frames_demo)" "snd (frame_alloc frames_demo)"] ne
    by (auto simp: frames_demo_used frames_demo_total)
  moreover from this(2,3) have "f = 1" by presburger
  ultimately show ?thesis by auto
qed

text \<open>
  C21. \<^verbatim>\<open>frame_alloc_contiguous\<close> terminates on every initialised allocator; for a nonzero
  count it reserves the lowest run of that many free frames and nothing else, keeping the
  invariant, or returns 0 and changes nothing when no such run exists. The skip over a used
  frame in the search therefore misses no candidate.
\<close>

theorem frame_alloc_contiguous_lowest:
  assumes wf: "frames_wf s" and "count \<noteq> 0"
  shows "\<exists>p s'. frame_alloc_contiguous count s = Some (p, s') \<and>
    (if \<exists>st. free_run s st (unat count) then
       \<exists>st. free_run s st (unat count) \<and> (\<forall>st' < st. \<not> free_run s st' (unat count)) \<and>
         unat p = st * 4096 \<and> frames_wf s' \<and>
         used_set s' = used_set s \<union> {st..<st + unat count}
     else p = 0 \<and> s' = s)"
  using contiguous_alloc_spec [OF assms] .

theorem frame_alloc_contiguous_lowest_witness:
  "\<exists>p s'. frame_alloc_contiguous 3 frames_demo = Some (p, s') \<and> used_set s' = {0, 1, 2, 3}"
proof -
  have runs: "free_run frames_demo st 3 \<longleftrightarrow> st = 1" for st
  proof -
    have "free_run frames_demo st 3 \<longleftrightarrow> st + 3 \<le> 4 \<and> (\<forall>i < 3. st + i \<noteq> 0)"
      by (simp add: free_run_def frames_demo_used frames_demo_total)
    then show ?thesis by presburger
  qed
  have "{0::nat} \<union> {1..<1 + 3} = {0, 1, 2, 3}" by auto
  then show ?thesis
    using frame_alloc_contiguous_lowest [OF frames_demo_wf, of 3]
    by (simp add: runs frames_demo_used) blast
qed

text \<open>
  \<^verbatim>\<open>frame_largest_free_run\<close> is exactly the threshold of \<^verbatim>\<open>frame_alloc_contiguous\<close>:
  with frame 0 in use, a contiguous request of \<open>count\<close> frames succeeds (returns a nonzero
  address) if and only if \<open>count\<close> is nonzero and at most the reported largest run.
\<close>

theorem contiguous_succeeds_iff_largest:
  assumes wf: "frames_wf s" and zero: "0 \<in> used_set s"
  shows "(\<exists>p s'. frame_alloc_contiguous count s = Some (p, s') \<and> p \<noteq> 0) \<longleftrightarrow>
    count \<noteq> 0 \<and> count \<le> frame_largest_free_run s"
proof (cases "count = 0")
  case True
  then show ?thesis by (simp add: frame_alloc_contiguous_def)
next
  case False
  obtain p s' where al: "frame_alloc_contiguous count s = Some (p, s')"
    and none: "\<not> (\<exists>st. free_run s st (unat count)) \<Longrightarrow> p = 0"
    and some: "\<exists>st. free_run s st (unat count) \<Longrightarrow> \<exists>st. free_run s st (unat count) \<and> unat p = st * 4096"
    using contiguous_alloc_spec [OF wf False] by (auto split: if_splits)
  have "st \<noteq> 0" if "free_run s st (unat count)" for st
    using that zero False by (cases st) (auto simp: free_run_def unat_eq_zero dest!: spec [of _ 0])
  with none some have "p \<noteq> 0 \<longleftrightarrow> (\<exists>st. free_run s st (unat count))"
    by (metis mult_eq_0_iff unat_eq_zero zero_neq_numeral)
  also have "\<dots> \<longleftrightarrow> count \<le> frame_largest_free_run s"
    using free_run_iff_largest [OF wf, of "unat count"] by (simp add: word_le_nat_alt)
  finally show ?thesis using al False by auto
qed

theorem contiguous_succeeds_iff_largest_witness:
  "frame_largest_free_run frames_demo = 3 \<and>
   (\<exists>p s'. frame_alloc_contiguous 3 frames_demo = Some (p, s') \<and> p \<noteq> 0) \<and>
   \<not> (\<exists>p s'. frame_alloc_contiguous 4 frames_demo = Some (p, s') \<and> p \<noteq> 0)"
proof -
  have l: "frame_largest_free_run frames_demo = 3" by code_simp
  have "0 \<in> used_set frames_demo" by (simp add: frames_demo_used)
  from contiguous_succeeds_iff_largest [OF frames_demo_wf this] l show ?thesis by simp
qed

text \<open>
  \<open>n\<close> allocations in a row, as long as \<open>n\<close> frames are free, give \<open>n\<close> different
  page-aligned addresses of frames that were free before, and exactly those frames become
  used: no frame is ever handed out twice.
\<close>

theorem frame_alloc_distinct:
  assumes "frames_wf s" and "n \<le> unat (total_frames s) - card (used_set s)"
    and "alloc_many frame_alloc n s = (ps, s')"
  shows "length ps = n \<and> distinct ps \<and> frames_wf s' \<and>
    (\<forall>p \<in> set ps. unat p mod 4096 = 0 \<and> unat p div 4096 \<notin> used_set s) \<and>
    used_set s' = used_set s \<union> (\<lambda>p. unat p div 4096) ` set ps"
  using frames.alloc_many_ok [OF assms] by blast

theorem frame_alloc_distinct_witness:
  "distinct (fst (alloc_many frame_alloc 3 frames_demo)) \<and>
   fst (alloc_many frame_alloc 3 frames_demo) = [0x1000, 0x2000, 0x3000]"
proof -
  have "3 \<le> unat (total_frames frames_demo) - card (used_set frames_demo)"
    by (simp add: frames_demo_used frames_demo_total)
  moreover have "fst (alloc_many frame_alloc 3 frames_demo) = [0x1000, 0x2000, 0x3000]" by code_simp
  ultimately show ?thesis
    using frame_alloc_distinct [OF frames_demo_wf, of 3 "fst (alloc_many frame_alloc 3 frames_demo)"
        "snd (alloc_many frame_alloc 3 frames_demo)"] by simp
qed

end
