(* ===== verification/Frame_Regions.thy ===== *)
theory Frame_Regions
  imports Frame_Allocator
begin

text \<open>
  What \<^verbatim>\<open>reserve_region\<close> and \<^verbatim>\<open>free_region\<close> of \<^verbatim>\<open>src/mm/memory.c\<close> do to the set of used
  frames. Both round the two ends of a region up, so they act on the frames whose first
  byte lies in the region.
\<close>

definition page_up :: "u32 \<Rightarrow> nat" where
  "page_up x = (if unat x + 4095 < 2 ^ 32 then (unat x + 4095) div 4096 else 0)"

lemma page_up_bound: "page_up x < 2 ^ 20"
  by (auto simp: page_up_def less_mult_imp_div_less)

definition frame_base :: "nat \<Rightarrow> u32" where
  "frame_base n = of_nat (4096 * n)"

lemma unat_frame_base: "n < 2 ^ 20 \<Longrightarrow> unat (frame_base n) = 4096 * n"
  unfolding frame_base_def by (rule unat_of_nat_small) simp

lemma align_up_page: "align_up x FRAME_SIZE = frame_base (page_up x)"
proof -
  have mask: "(FRAME_SIZE - 1 :: u32) = mask 12" by (simp add: mask_eq_exp_minus_1)
  have "unat (align_up x FRAME_SIZE) = unat (x + 4095) div 4096 * 4096"
    using unat_and_not_mask [of "x + 4095" 12] mask by (simp add: align_up_def add.commute)
  also have "\<dots> = 4096 * page_up x"
  proof (cases "unat x + 4095 < 2 ^ 32")
    case True
    then show ?thesis by (simp add: page_up_def unat_plus_no_wrap)
  next
    case False
    have "unat (x + 4095) = (unat x + 4095) mod 2 ^ 32" by (simp add: unat_word_ariths)
    also have "\<dots> = unat x + 4095 - 2 ^ 32"
      using False unsigned_less [of x, where ?'a = nat]
      by (subst mod_if) (simp add: mod_less del: unsigned_less unat_u32)
    finally have "unat (x + 4095) < 4096"
      using unsigned_less [of x, where ?'a = nat] by (simp del: unsigned_less unat_u32)
    with False show ?thesis by (simp add: page_up_def)
  qed
  finally show ?thesis
    using page_up_bound [of x] by (simp add: word_unat_eq_iff unat_frame_base)
qed

lemma region_loop_fold:
  assumes "a < 2 ^ 20" and "b < 2 ^ 20"
  shows "region_loop f (frame_base a) (frame_base b) s = Some (fold f (map of_nat [a..<b]) s)"
  using assms
proof (induction "b - a" arbitrary: a s)
  case 0
  then have "\<not> frame_base a < frame_base b" by (simp add: word_less_nat_alt unat_frame_base)
  with 0 show ?case by (subst region_loop.simps) simp
next
  case (Suc n)
  then have lt: "a < b" by simp
  have "frame_base a < frame_base b"
    using lt Suc.prems by (simp add: word_less_nat_alt unat_frame_base)
  moreover have "frame_base a + FRAME_SIZE = frame_base (Suc a)"
    by (simp add: frame_base_def algebra_simps)
  moreover have "frame_base a div FRAME_SIZE = of_nat a"
    using Suc.prems by (simp add: word_unat_eq_iff unat_div_distrib unat_frame_base unat_of_nat_small)
  moreover have "region_loop f (frame_base (Suc a)) (frame_base b) (f (of_nat a) s) =
      Some (fold f (map of_nat [Suc a..<b]) (f (of_nat a) s))"
    using Suc.hyps(1) [of "Suc a"] Suc.hyps(2) Suc.prems lt by simp
  ultimately show ?case
    using lt by (subst region_loop.simps) (simp add: upt_conv_Cons)
qed

lemma reserve_region_fold:
  "reserve_region start len s =
     Some (fold set_frame (map of_nat [page_up start..<page_up (start + len)]) s)"
  by (simp only: reserve_region_def align_up_page region_loop_fold [OF page_up_bound page_up_bound])

lemma free_region_fold:
  "free_region start len s =
     Some (fold clear_frame (map of_nat [page_up start..<page_up (start + len)]) s)"
  by (simp only: free_region_def align_up_page region_loop_fold [OF page_up_bound page_up_bound])

lemma fold_set_frame:
  assumes "frames_wf s" and "b \<le> unat (total_frames s)"
  shows "frames_wf (fold set_frame (map of_nat [a..<b]) s) \<and>
    total_frames (fold set_frame (map of_nat [a..<b]) s) = total_frames s \<and>
    used_set (fold set_frame (map of_nat [a..<b]) s) = used_set s \<union> {a..<b}"
  using assms(2)
proof (induction b)
  case (Suc b)
  let ?t = "fold set_frame (map of_nat [a..<b]) s"
  show ?case
  proof (cases "a \<le> b")
    case True
    have u: "unat (of_nat b :: u32) = b"
      using Suc.prems frames_wfD(3) [OF assms(1)] by (simp add: unat_of_nat_small)
    with Suc have IH: "frames_wf ?t" "total_frames ?t = total_frames s" "used_set ?t = used_set s \<union> {a..<b}"
      and lt: "of_nat b < total_frames ?t"
      by (simp_all add: word_less_nat_alt)
    show ?thesis
      using True set_frame_wf [OF IH(1) lt] used_set_set_frame [OF lt] IH u
      by (simp add: atLeastLessThanSuc)
  qed (use assms(1) in simp)
qed (use assms(1) in simp)

lemma fold_clear_frame:
  assumes "frames_wf s" and "b \<le> unat (total_frames s)"
  shows "frames_wf (fold clear_frame (map of_nat [a..<b]) s) \<and>
    total_frames (fold clear_frame (map of_nat [a..<b]) s) = total_frames s \<and>
    used_set (fold clear_frame (map of_nat [a..<b]) s) = used_set s - {a..<b}"
  using assms(2)
proof (induction b)
  case (Suc b)
  let ?t = "fold clear_frame (map of_nat [a..<b]) s"
  show ?case
  proof (cases "a \<le> b")
    case True
    have u: "unat (of_nat b :: u32) = b"
      using Suc.prems frames_wfD(3) [OF assms(1)] by (simp add: unat_of_nat_small)
    with Suc have IH: "frames_wf ?t" "total_frames ?t = total_frames s" "used_set ?t = used_set s - {a..<b}"
      and lt: "of_nat b < total_frames ?t"
      by (simp_all add: word_less_nat_alt)
    have "used_set s - {a..<b} - {b} = used_set s - {a..<Suc b}"
      using True by (auto simp: less_Suc_eq)
    then show ?thesis
      using True clear_frame_wf [OF IH(1) lt] used_set_clear_frame [of "of_nat b" ?t] IH u by simp
  qed (use assms(1) in simp)
qed (use assms(1) in simp)

text \<open>The frames whose first byte lies in a region.\<close>

definition region_frames :: "u32 \<Rightarrow> u32 \<Rightarrow> nat set" where
  "region_frames start len = {f. unat start \<le> 4096 * f \<and> 4096 * f < unat start + unat len}"

lemma region_frames_pages:
  assumes "unat start + unat len + 4095 < 2 ^ 32"
  shows "{page_up start..<page_up (start + len)} = region_frames start len"
proof -
  have "unat (start + len) = unat start + unat len"
    using assms by (simp add: unat_plus_no_wrap)
  then have "page_up start = (unat start + 4095) div 4096"
    "page_up (start + len) = (unat start + unat len + 4095) div 4096"
    using assms by (simp_all add: page_up_def)
  then show ?thesis by (auto simp: region_frames_def)
qed

lemma page_up_end_bound:
  assumes "unat start + unat len \<le> 4096 * n" and "n < 2 ^ 20"
  shows "page_up (start + len) \<le> n" and "unat start + unat len + 4095 < 2 ^ 32"
  using assms by (auto simp: page_up_def unat_plus_no_wrap)

lemma reserve_region_used:
  assumes "frames_wf s" and "unat start + unat len \<le> 4096 * unat (total_frames s)"
  shows "\<exists>s'. reserve_region start len s = Some s' \<and> frames_wf s' \<and>
    total_frames s' = total_frames s \<and> used_set s' = used_set s \<union> region_frames start len"
  using fold_set_frame [OF assms(1), of "page_up (start + len)" "page_up start"]
    page_up_end_bound [OF assms(2) frames_wfD(3) [OF assms(1)]]
  by (simp add: reserve_region_fold region_frames_pages)

lemma free_region_used:
  assumes "frames_wf s" and "unat start + unat len \<le> 4096 * unat (total_frames s)"
  shows "\<exists>s'. free_region start len s = Some s' \<and> frames_wf s' \<and>
    total_frames s' = total_frames s \<and> used_set s' = used_set s - region_frames start len"
  using fold_clear_frame [OF assms(1), of "page_up (start + len)" "page_up start"]
    page_up_end_bound [OF assms(2) frames_wfD(3) [OF assms(1)]]
  by (simp add: free_region_fold region_frames_pages)

text \<open>
  A region that starts inside a frame and ends in that same frame is not reserved at
  all: \<^verbatim>\<open>reserve_region\<close> returns with the allocator unchanged. This is the case of the
  52-byte multiboot structure, and of a short memory map, that \<^verbatim>\<open>frame_allocator_init\<close>
  means to protect.
\<close>

theorem reserve_region_skips_partial:
  assumes "unat start mod 4096 \<noteq> 0" and "unat start mod 4096 + unat len \<le> 4096"
    and "unat start + unat len + 4095 < 2 ^ 32"
  shows "reserve_region start len s = Some s"
proof -
  have "region_frames start len = {}"
  proof -
    have False if "unat start \<le> 4096 * f" "4096 * f < unat start + unat len" for f
    proof -
      define q where "q = unat start div 4096"
      define r where "r = unat start mod 4096"
      have "unat start = 4096 * q + r" by (simp add: q_def r_def)
      with that assms(1,2) have "q < f" and "f \<le> q" unfolding r_def [symmetric] by linarith+
      then show False by simp
    qed
    then show ?thesis by (auto simp: region_frames_def)
  qed
  then have "{page_up start..<page_up (start + len)} = {}"
    using region_frames_pages [OF assms(3)] by simp
  then show ?thesis by (simp add: reserve_region_fold)
qed

theorem reserve_region_skips_partial_witness:
  "reserve_region 0x9500 52 frames_demo = Some frames_demo"
  by (rule reserve_region_skips_partial) simp_all

end
