(* ===== verification/Heap_Interface.thy ===== *)
theory Heap_Interface
  imports Machine_Memory
begin

text \<open>
  The contract between the kernel heap and its clients (\<^verbatim>\<open>scheduler.c\<close> allocates task
  stacks, \<^verbatim>\<open>ramfs.c\<close> file contents): the blocks in use form a set of (address, size) pairs
  that never overlap; \<open>malloc\<close> adds a block of at least the requested size, \<open>free\<close> removes
  one, both always return, and neither changes a byte of any other block in use; a client
  may write anywhere inside a block it holds.
\<close>

definition same_payload :: "(nat \<times> nat) set \<Rightarrow> memory \<Rightarrow> memory \<Rightarrow> bool" where
  "same_payload L m m' \<longleftrightarrow>
     (\<forall>(p, k) \<in> L. \<forall>x. p \<le> x \<and> x < p + k \<longrightarrow> m' (ad x) = m (ad x))"

definition same_outside :: "nat \<Rightarrow> nat \<Rightarrow> memory \<Rightarrow> memory \<Rightarrow> bool" where
  "same_outside p k m m' \<longleftrightarrow> (\<forall>x < 2 ^ 32. x < p \<or> p + k \<le> x \<longrightarrow> m' (ad x) = m (ad x))"

lemma same_outsideD:
  "same_outside p k m m' \<Longrightarrow> x < 2 ^ 32 \<Longrightarrow> x < p \<or> p + k \<le> x \<Longrightarrow> m' (ad x) = m (ad x)"
  by (auto simp: same_outside_def)

definition same_beyond :: "nat \<Rightarrow> nat \<Rightarrow> memory \<Rightarrow> memory \<Rightarrow> bool" where
  "same_beyond lo hi m m' \<longleftrightarrow> (\<forall>x < 2 ^ 32. x < lo \<or> hi \<le> x \<longrightarrow> m' (ad x) = m (ad x))"

lemma same_beyondD:
  "same_beyond lo hi m m' \<Longrightarrow> x < 2 ^ 32 \<Longrightarrow> x < lo \<or> hi \<le> x \<Longrightarrow> m' (ad x) = m (ad x)"
  by (auto simp: same_beyond_def)

lemma same_beyond_trans:
  "same_beyond lo hi m m1 \<Longrightarrow> same_beyond lo hi m1 m2 \<Longrightarrow> same_beyond lo hi m m2"
  by (simp add: same_beyond_def)

lemma same_beyond_refl [simp]: "same_beyond lo hi m m"
  by (simp add: same_beyond_def)

lemma same_payloadI:
  "(\<And>p k x. (p, k) \<in> L \<Longrightarrow> p \<le> x \<Longrightarrow> x < p + k \<Longrightarrow> m' (ad x) = m (ad x)) \<Longrightarrow> same_payload L m m'"
  by (auto simp: same_payload_def)

lemma same_payload_refl [simp]: "same_payload L m m"
  by (simp add: same_payload_def)

lemma same_payload_trans:
  "same_payload L m m1 \<Longrightarrow> same_payload L m1 m2 \<Longrightarrow> same_payload L m m2"
  by (fastforce simp: same_payload_def)

lemma same_payload_subset: "same_payload L m m' \<Longrightarrow> K \<subseteq> L \<Longrightarrow> same_payload K m m'"
  by (auto simp: same_payload_def)

locale block_allocator =
  fixes malloc :: "u32 \<Rightarrow> 's \<Rightarrow> (u32 \<times> 's) option"
    and free :: "u32 \<Rightarrow> 's \<Rightarrow> 's option"
    and mem_of :: "'s \<Rightarrow> memory"
    and set_mem :: "memory \<Rightarrow> 's \<Rightarrow> 's"
    and rel :: "'s \<Rightarrow> (nat \<times> nat) set \<Rightarrow> bool"
  assumes live_range: "rel s L \<Longrightarrow> (p, k) \<in> L \<Longrightarrow> 0 < p \<and> 0 < k \<and> p + k < 2 ^ 32"
    and live_disjoint: "rel s L \<Longrightarrow> (p, k) \<in> L \<Longrightarrow> (q, j) \<in> L \<Longrightarrow>
      (p, k) = (q, j) \<or> p + k \<le> q \<or> q + j \<le> p"
    and malloc_ok: "rel s L \<Longrightarrow> 0 < unat n \<Longrightarrow> unat n \<le> 2 ^ 32 - 8 \<Longrightarrow>
      malloc n s = Some (0, s) \<or>
      (\<exists>a s' k. malloc n s = Some (a, s') \<and> a \<noteq> 0 \<and> unat n \<le> k \<and> (unat a, k) \<notin> L \<and>
         rel s' (insert (unat a, k) L) \<and> same_payload L (mem_of s) (mem_of s'))"
    and free_ok: "rel s L \<Longrightarrow> (unat a, k) \<in> L \<Longrightarrow>
      \<exists>s'. free a s = Some s' \<and> rel s' (L - {(unat a, k)}) \<and>
        same_payload (L - {(unat a, k)}) (mem_of s) (mem_of s')"
    and write_ok: "rel s L \<Longrightarrow> (p, k) \<in> L \<Longrightarrow> same_outside p k (mem_of s) m \<Longrightarrow> rel (set_mem m s) L"
begin

lemma malloc_cases:
  assumes "rel s L" and "0 < unat n" and "unat n \<le> 2 ^ 32 - 8"
  obtains (fail) "malloc n s = Some (0, s)"
  | (ok) p s' k where "malloc n s = Some (p, s')" and "p \<noteq> 0" and "unat n \<le> k"
      and "(unat p, k) \<notin> L" and "rel s' (insert (unat p, k) L)"
      and "same_payload L (mem_of s) (mem_of s')"
  using malloc_ok [OF assms] by blast

lemma malloc_free_round_trip:
  assumes "rel s L" and "0 < unat n" and "unat n \<le> 2 ^ 32 - 8" and "malloc n s = Some (p, s')"
    and "p \<noteq> 0"
  shows "\<exists>s''. free p s' = Some s'' \<and> rel s'' L \<and> same_payload L (mem_of s) (mem_of s'')"
proof (cases rule: malloc_cases [OF assms(1-3)])
  case 1
  with assms(4,5) show ?thesis by simp
next
  case (2 q t k)
  with assms(4) have eq: "q = p" "t = s'" by simp_all
  then obtain s'' where "free p s' = Some s''" "rel s'' (insert (unat p, k) L - {(unat p, k)})"
    "same_payload (insert (unat p, k) L - {(unat p, k)}) (mem_of s') (mem_of s'')"
    using free_ok [OF 2(5), of p k] by auto
  with 2 eq show ?thesis by (auto intro: same_payload_trans)
qed

text \<open>Writing into one block in use leaves the others alone.\<close>

lemma write_other:
  assumes "rel s L" and "(p, k) \<in> L" and "same_outside p k (mem_of s) m"
  shows "same_payload (L - {(p, k)}) (mem_of s) m"
proof (rule same_payloadI)
  fix q j x assume qj: "(q, j) \<in> L - {(p, k)}" and x: "q \<le> x" "x < q + j"
  then have q: "(q, j) \<in> L" "(q, j) \<noteq> (p, k)" by auto
  have "x < 2 ^ 32" using live_range [OF assms(1) q(1)] x by linarith
  moreover have "x < p \<or> p + k \<le> x"
    using live_disjoint [OF assms(1,2) q(1)] q x by auto
  ultimately show "m (ad x) = mem_of s (ad x)" using same_outsideD [OF assms(3)] by blast
qed

text \<open>A fresh block overlaps none of the blocks already in use.\<close>

lemma malloc_fresh:
  assumes "rel s L" and "0 < unat n" and "unat n \<le> 2 ^ 32 - 8" and "malloc n s = Some (p, s')"
    and "p \<noteq> 0" and "(q, j) \<in> L"
  shows "unat p + unat n \<le> q \<or> q + j \<le> unat p"
proof (cases rule: malloc_cases [OF assms(1-3)])
  case 1
  with assms(4,5) show ?thesis by simp
next
  case (2 p' t k)
  with assms(4) have eq: "p' = p" "t = s'" by simp_all
  have "unat p + k \<le> q \<or> q + j \<le> unat p"
    using live_disjoint [OF 2(5), of "unat p" k q j] 2 eq assms(6) by auto
  with 2 eq show ?thesis by auto
qed

end

text \<open>
  A client whose data does not all lie in the heap also relies on the region the allocator
  works in: the blocks lie inside it, no operation changes a byte outside, and none depends on one.
\<close>

locale region_allocator = block_allocator +
  fixes lo :: "'a \<Rightarrow> nat"
    and hi :: "'a \<Rightarrow> nat"
  assumes live_region: "rel s L \<Longrightarrow> (p, k) \<in> L \<Longrightarrow> lo s \<le> p \<and> p + k \<le> hi s"
    and malloc_region: "rel s L \<Longrightarrow> malloc n s = Some (a, s') \<Longrightarrow>
      lo s' = lo s \<and> hi s' = hi s \<and> same_beyond (lo s) (hi s) (mem_of s) (mem_of s')"
    and free_region: "rel s L \<Longrightarrow> (unat a, k) \<in> L \<Longrightarrow> free a s = Some s' \<Longrightarrow>
      lo s' = lo s \<and> hi s' = hi s \<and> same_beyond (lo s) (hi s) (mem_of s) (mem_of s')"
    and outside_ok: "rel s L \<Longrightarrow> (\<And>x. lo s \<le> x \<Longrightarrow> x < hi s \<Longrightarrow> m (ad x) = mem_of s (ad x)) \<Longrightarrow>
      rel (set_mem m s) L"
    and set_mem: "mem_of (set_mem m s) = m" "lo (set_mem m s) = lo s" "hi (set_mem m s) = hi s"
begin

text \<open>Writing inside a block changes nothing outside the region.\<close>

lemma write_region:
  assumes "rel s L" and "(p, k) \<in> L" and "same_outside p k (mem_of s) m"
  shows "same_beyond (lo s) (hi s) (mem_of s) m"
  unfolding same_beyond_def
proof clarify
  fix x :: nat assume x: "x < 2 ^ 32" "x < lo s \<or> hi s \<le> x"
  then have "x < p \<or> p + k \<le> x" using live_region [OF assms(1,2)] by auto
  with same_outsideD [OF assms(3) x(1)] show "m (ad x) = mem_of s (ad x)" by blast
qed

end

end
