(* ===== verification/Task_Context.thy ===== *)
theory Task_Context
  imports Heap_Interface
begin

text \<open>
  The saved context of a task (\<^verbatim>\<open>src/proc/task.c\<close>) and the interrupt frame it points to: the
  frame that \<^verbatim>\<open>common_stub\<close> in \<^verbatim>\<open>asm/interrupt.s\<close> pops, laid out as \<^verbatim>\<open>struct registers\<close> of
  \<^verbatim>\<open>include/idt.h\<close>.
\<close>

record task_context =
  irq_esp :: u32

text \<open>\<^verbatim>\<open>*--sp = v\<close>.\<close>

definition push32 :: "u32 \<Rightarrow> u32 \<times> memory \<Rightarrow> u32 \<times> memory" where
  "push32 v = (\<lambda>(sp, m). (sp - 4, store32 m (sp - 4) v))"

text \<open>The null pointer is \<open>None\<close>; otherwise the updated context is stored through it.\<close>

definition task_context_init ::
  "task_context option \<Rightarrow> u32 \<Rightarrow> u32 \<Rightarrow> memory \<Rightarrow> task_context option \<times> memory" where
  "task_context_init ctx entry stack_top m =
     (case ctx of
        None \<Rightarrow> (None, m)
      | Some c \<Rightarrow>
          (let st = (stack_top, m);
               st = push32 0x202 st;
               st = push32 0x08 st;
               st = push32 entry st;
               st = push32 0 st;
               st = push32 0 st;
               st = push32 0 st;
               st = push32 0 st;
               st = push32 0 st;
               st = push32 0 st;
               st = push32 0 st;
               st = push32 0 st;
               st = push32 0 st;
               st = push32 0 st;
               st = push32 0x10 st
           in (Some (c\<lparr>irq_esp := fst st\<rparr>), snd st)))"

text \<open>
  What the exit path of \<^verbatim>\<open>common_stub\<close> loads from the stack: \<^verbatim>\<open>pop eax\<close> for the segment
  registers, \<^verbatim>\<open>popa\<close> (which skips the stored stack pointer), \<^verbatim>\<open>add esp, 8\<close> over the interrupt
  number and error code, and \<^verbatim>\<open>iret\<close>.
\<close>

record cpu_frame =
  f_ds :: u32
  f_edi :: u32
  f_esi :: u32
  f_ebp :: u32
  f_ebx :: u32
  f_edx :: u32
  f_ecx :: u32
  f_eax :: u32
  f_eip :: u32
  f_cs :: u32
  f_eflags :: u32
  f_esp :: u32

definition pop32 :: "memory \<Rightarrow> u32 \<Rightarrow> u32 \<times> u32" where
  "pop32 m sp = (load32 m sp, sp + 4)"

definition common_stub_exit :: "memory \<Rightarrow> u32 \<Rightarrow> cpu_frame" where
  "common_stub_exit m sp =
     (let (ds, sp) = pop32 m sp;
          (edi, sp) = pop32 m sp;
          (esi, sp) = pop32 m sp;
          (ebp, sp) = pop32 m sp;
          sp = sp + 4;
          (ebx, sp) = pop32 m sp;
          (edx, sp) = pop32 m sp;
          (ecx, sp) = pop32 m sp;
          (eax, sp) = pop32 m sp;
          sp = sp + 8;
          (eip, sp) = pop32 m sp;
          (cs, sp) = pop32 m sp;
          (eflags, sp) = pop32 m sp
      in \<lparr>f_ds = ds, f_edi = edi, f_esi = esi, f_ebp = ebp, f_ebx = ebx, f_edx = edx, f_ecx = ecx,
          f_eax = eax, f_eip = eip, f_cs = cs, f_eflags = eflags, f_esp = sp\<rparr>)"

definition initial_frame :: "u32 \<Rightarrow> u32 \<Rightarrow> cpu_frame" where
  "initial_frame entry sp =
     \<lparr>f_ds = 0x10, f_edi = 0, f_esi = 0, f_ebp = 0, f_ebx = 0, f_edx = 0, f_ecx = 0, f_eax = 0,
      f_eip = entry, f_cs = 0x08, f_eflags = 0x202, f_esp = sp\<rparr>"

lemma common_stub_exit_ad:
  "common_stub_exit m (ad A) =
     \<lparr>f_ds = load32 m (ad A), f_edi = load32 m (ad (A + 4)), f_esi = load32 m (ad (A + 8)),
      f_ebp = load32 m (ad (A + 12)), f_ebx = load32 m (ad (A + 20)), f_edx = load32 m (ad (A + 24)),
      f_ecx = load32 m (ad (A + 28)), f_eax = load32 m (ad (A + 32)), f_eip = load32 m (ad (A + 44)),
      f_cs = load32 m (ad (A + 48)), f_eflags = load32 m (ad (A + 52)), f_esp = ad (A + 56)\<rparr>"
  by (simp add: common_stub_exit_def pop32_def Let_def ad_def algebra_simps)

text \<open>The frame depends only on the 56 bytes it is read from.\<close>

lemma common_stub_exit_cong:
  assumes "\<And>i. i < 56 \<Longrightarrow> m' (ad (A + i)) = m (ad (A + i))"
  shows "common_stub_exit m' (ad A) = common_stub_exit m (ad A)"
proof -
  have "load32 m' (ad (A + j)) = load32 m (ad (A + j))" if "j \<le> 52" for j
    using assms that by (intro load32_cong) (simp add: add.assoc)
  from this [of 0] this [of 4] this [of 8] this [of 12] this [of 20] this [of 24] this [of 28]
    this [of 32] this [of 44] this [of 48] this [of 52]
  show ?thesis by (simp add: common_stub_exit_ad)
qed

lemma push32_ad: "4 \<le> A \<Longrightarrow> push32 v (ad A, m) = (ad (A - 4), store32 m (ad (A - 4)) v)"
  using ad_minus [of 4 A] by (simp add: push32_def)

lemma task_context_init_stores:
  assumes "56 \<le> T"
  shows "task_context_init (Some c) entry (ad T) m = (Some (c\<lparr>irq_esp := ad (T - 56)\<rparr>),
    store32 (store32 (store32 (store32 (store32 (store32 (store32 (store32 (store32 (store32 (store32
     (store32 (store32 (store32 m (ad (T - 4)) 0x202) (ad (T - 8)) 0x08) (ad (T - 12)) entry)
     (ad (T - 16)) 0) (ad (T - 20)) 0) (ad (T - 24)) 0) (ad (T - 28)) 0) (ad (T - 32)) 0)
     (ad (T - 36)) 0) (ad (T - 40)) 0) (ad (T - 44)) 0) (ad (T - 48)) 0) (ad (T - 52)) 0)
     (ad (T - 56)) 0x10)"
  using assms by (simp add: task_context_init_def push32_ad)

lemma task_context_init_frame:
  assumes T: "56 \<le> T" "T < 2 ^ 32" and init: "task_context_init (Some c) entry (ad T) m = (c', m')"
  shows "c' = Some (c\<lparr>irq_esp := ad (T - 56)\<rparr>)"
    and "common_stub_exit m' (ad (T - 56)) = initial_frame entry (ad T)"
    and "same_outside (T - 56) 56 m m'"
proof -
  note st = task_context_init_stores [OF T(1), of c entry m, unfolded init]
  show "c' = Some (c\<lparr>irq_esp := ad (T - 56)\<rparr>)" using st by simp
  obtain U where U: "T = U + 56" using T(1) by (metis add.commute le_Suc_ex)
  show "common_stub_exit m' (ad (T - 56)) = initial_frame entry (ad T)"
    using st T(2) unfolding U
    by (simp add: common_stub_exit_ad initial_frame_def load32_store32_ad add.commute [of U])
  show "same_outside (T - 56) 56 m m'"
    using st T(2) unfolding U same_outside_def by (auto simp: store32_byte)
qed

end
