(* ===== verification/Kernel_Heap.thy ===== *)
theory Kernel_Heap
  imports Heap_Interface
begin

text \<open>
  The kernel heap (\<^verbatim>\<open>src/mm/heap.c\<close>): a singly linked list of blocks in memory, each a
  12-byte header (\<^verbatim>\<open>size\<close> at offset 0, \<^verbatim>\<open>next\<close> at 4, \<^verbatim>\<open>free\<close> at 8) followed by its
  payload. The state holds the memory and the three static variables; the null pointer is
  0. The list walks are partial functions, since a corrupt list could be cyclic.
\<close>

record heap_state =
  h_mem :: memory
  heap_start :: u32
  heap_end :: u32
  heap_head :: u32

abbreviation blk_size :: "memory \<Rightarrow> u32 \<Rightarrow> u32" where
  "blk_size m a \<equiv> load32 m a"

abbreviation blk_next :: "memory \<Rightarrow> u32 \<Rightarrow> u32" where
  "blk_next m a \<equiv> load32 m (a + 4)"

abbreviation blk_free :: "memory \<Rightarrow> u32 \<Rightarrow> u32" where
  "blk_free m a \<equiv> load32 m (a + 8)"

subsection \<open>The code\<close>

definition align8 :: "u32 \<Rightarrow> u32" where
  "align8 sz = (sz + 7) AND NOT 7"

definition heap_init :: "u32 \<Rightarrow> u32 \<Rightarrow> heap_state \<Rightarrow> heap_state" where
  "heap_init start sz s =
     s\<lparr>heap_start := start, heap_end := start + sz, heap_head := start,
       h_mem := store32 (store32 (store32 (h_mem s) start (sz - 12)) (start + 4) 0) (start + 8) 1\<rparr>"

definition split_block :: "u32 \<Rightarrow> u32 \<Rightarrow> memory \<Rightarrow> memory" where
  "split_block cur sz m =
     (let remaining = blk_size m cur - sz in
      if remaining > 12 + 8 then
        let nxt = cur + 12 + sz;
            m = store32 m nxt (remaining - 12);
            m = store32 m (nxt + 4) (blk_next m cur);
            m = store32 m (nxt + 8) 1;
            m = store32 m (cur + 4) nxt
        in store32 m cur sz
      else m)"

partial_function (option) kmalloc_loop :: "u32 \<Rightarrow> u32 \<Rightarrow> memory \<Rightarrow> (u32 \<times> memory) option" where
  "kmalloc_loop sz cur m =
     (if cur \<noteq> 0 then
        if blk_free m cur \<noteq> 0 \<and> blk_size m cur \<ge> sz then
          Some (cur + 12, store32 (split_block cur sz m) (cur + 8) 0)
        else kmalloc_loop sz (blk_next m cur) m
      else Some (0, m))"

definition kmalloc :: "u32 \<Rightarrow> heap_state \<Rightarrow> (u32 \<times> heap_state) option" where
  "kmalloc sz s =
     (if sz = 0 \<or> heap_head s = 0 then Some (0, s)
      else map_option (\<lambda>(p, m). (p, s\<lparr>h_mem := m\<rparr>)) (kmalloc_loop (align8 sz) (heap_head s) (h_mem s)))"

partial_function (option) coalesce_loop :: "u32 \<Rightarrow> memory \<Rightarrow> memory option" where
  "coalesce_loop cur m =
     (if cur \<noteq> 0 \<and> blk_next m cur \<noteq> 0 then
        let nxt = blk_next m cur; curr_end = cur + 12 + blk_size m cur in
        if blk_free m cur \<noteq> 0 \<and> blk_free m nxt \<noteq> 0 \<and> curr_end = nxt then
          let m1 = store32 m cur (blk_size m cur + (12 + blk_size m nxt));
              m2 = store32 m1 (cur + 4) (blk_next m1 (blk_next m1 cur))
          in coalesce_loop cur m2
        else coalesce_loop nxt m
      else Some m)"

definition coalesce :: "heap_state \<Rightarrow> heap_state option" where
  "coalesce s = map_option (\<lambda>m. s\<lparr>h_mem := m\<rparr>) (coalesce_loop (heap_head s) (h_mem s))"

definition kfree :: "u32 \<Rightarrow> heap_state \<Rightarrow> heap_state option" where
  "kfree ptr s =
     (if ptr = 0 \<or> heap_head s = 0 then Some s
      else if ptr < heap_start s + 12 \<or> ptr \<ge> heap_end s then Some s
      else coalesce (s\<lparr>h_mem := store32 (h_mem s) (ptr - 12 + 8) 1\<rparr>))"

partial_function (option) heap_stats_loop ::
  "memory \<Rightarrow> u32 \<Rightarrow> u32 \<times> u32 \<times> u32 \<times> u32 \<Rightarrow> (u32 \<times> u32 \<times> u32 \<times> u32) option" where
  "heap_stats_loop m cur acc =
     (if cur \<noteq> 0 then
        heap_stats_loop m (blk_next m cur)
          (case acc of (u, f, b, fb) \<Rightarrow>
             if blk_free m cur \<noteq> 0 then (u, f + blk_size m cur, b + 1, fb + 1)
             else (u + blk_size m cur, f, b + 1, fb))
      else Some acc)"

text \<open>The four totals, in the order of the parameters \<^verbatim>\<open>used\<close>, \<^verbatim>\<open>free\<close>,
  \<^verbatim>\<open>blocks\<close>, \<^verbatim>\<open>free_blocks\<close>; the code stores each through its pointer if that is not null.\<close>

definition heap_stats :: "heap_state \<Rightarrow> (u32 \<times> u32 \<times> u32 \<times> u32) option" where
  "heap_stats s = heap_stats_loop (h_mem s) (heap_head s) (0, 0, 0, 0)"

subsection \<open>The abstract heap: a list of blocks\<close>

record block =
  b_addr :: nat
  b_size :: nat
  b_free :: bool

fun tiles :: "nat \<Rightarrow> block list \<Rightarrow> nat \<Rightarrow> bool" where
  "tiles lo [] hi \<longleftrightarrow> lo = hi"
| "tiles lo (b # bs) hi \<longleftrightarrow> b_addr b = lo \<and> tiles (lo + 12 + b_size b) bs hi"

definition next_addr :: "block list \<Rightarrow> nat" where
  "next_addr bs = (case bs of [] \<Rightarrow> 0 | b # _ \<Rightarrow> b_addr b)"

definition header :: "memory \<Rightarrow> block \<Rightarrow> nat \<Rightarrow> bool" where
  "header m b nxt \<longleftrightarrow> load32 m (ad (b_addr b)) = of_nat (b_size b) \<and>
     load32 m (ad (b_addr b + 4)) = ad nxt \<and>
     (load32 m (ad (b_addr b + 8)) \<noteq> 0 \<longleftrightarrow> b_free b)"

fun chain :: "memory \<Rightarrow> block list \<Rightarrow> bool" where
  "chain m [] \<longleftrightarrow> True"
| "chain m (b # bs) \<longleftrightarrow> header m b (next_addr bs) \<and> chain m bs"

fun first_fit :: "nat \<Rightarrow> block list \<Rightarrow> (nat \<times> block list) option" where
  "first_fit n [] = None"
| "first_fit n (b # bs) =
     (if b_free b \<and> n \<le> b_size b then
        Some (b_addr b + 12,
          if b_size b - n > 20
          then b\<lparr>b_size := n, b_free := False\<rparr> #
               \<lparr>b_addr = b_addr b + 12 + n, b_size = b_size b - n - 12, b_free = True\<rparr> # bs
          else b\<lparr>b_free := False\<rparr> # bs)
      else map_option (\<lambda>(p, bs'). (p, b # bs')) (first_fit n bs))"

fun merge_free :: "block list \<Rightarrow> block list" where
  "merge_free (b # c # bs) =
     (if b_free b \<and> b_free c then merge_free (b\<lparr>b_size := b_size b + 12 + b_size c\<rparr> # bs)
      else b # merge_free (c # bs))"
| "merge_free [b] = [b]"
| "merge_free [] = []"

definition release :: "nat \<Rightarrow> block list \<Rightarrow> block list" where
  "release a bs = map (\<lambda>b. if b_addr b = a then b\<lparr>b_free := True\<rparr> else b) bs"

definition live :: "block list \<Rightarrow> (nat \<times> nat) set" where
  "live bs = {(b_addr b + 12, b_size b) | b. b \<in> set bs \<and> \<not> b_free b}"

text \<open>
  Bytes that an operation leaves alone: everything outside \<open>[lo, hi)\<close> and the payloads of
  the blocks in use.
\<close>

definition keeps :: "nat \<Rightarrow> nat \<Rightarrow> block list \<Rightarrow> memory \<Rightarrow> memory \<Rightarrow> bool" where
  "keeps lo hi bs m m' \<longleftrightarrow> (\<forall>x < 2 ^ 32. (x < lo \<or> hi \<le> x \<or>
     (\<exists>b \<in> set bs. \<not> b_free b \<and> b_addr b + 12 \<le> x \<and> x < b_addr b + 12 + b_size b)) \<longrightarrow>
     m' (ad x) = m (ad x))"

subsection \<open>Layout lemmas\<close>

lemma tiles_le: "tiles lo bs hi \<Longrightarrow> lo \<le> hi"
proof (induction bs arbitrary: lo)
  case (Cons b bs)
  then have "lo + 12 + b_size b \<le> hi" by simp
  then show ?case by simp
qed simp

lemma tiles_mem:
  "tiles lo bs hi \<Longrightarrow> b \<in> set bs \<Longrightarrow> lo \<le> b_addr b \<and> b_addr b + 12 + b_size b \<le> hi"
proof (induction bs arbitrary: lo)
  case (Cons c bs)
  then show ?case
    using tiles_le [of "lo + 12 + b_size c" bs hi] by (auto dest: Cons.IH)
qed simp

lemma header_cong:
  assumes "\<And>k. k < 12 \<Longrightarrow> m' (ad (b_addr b + k)) = m (ad (b_addr b + k))"
  shows "header m' b n \<longleftrightarrow> header m b n"
proof -
  have "load32 m' (ad (b_addr b + j)) = load32 m (ad (b_addr b + j))" if "j \<le> 8" for j
    using assms that by (intro load32_cong) (simp add: add.assoc)
  from this [of 0] this [of 4] this [of 8] show ?thesis by (simp add: header_def)
qed

lemma chain_cong:
  assumes "\<And>b k. b \<in> set bs \<Longrightarrow> k < 12 \<Longrightarrow> m' (ad (b_addr b + k)) = m (ad (b_addr b + k))"
  shows "chain m' bs \<longleftrightarrow> chain m bs"
  using assms
proof (induction bs)
  case (Cons c bs)
  have "header m' c n \<longleftrightarrow> header m c n" for n by (rule header_cong) (rule Cons.prems; simp)
  moreover have "chain m' bs \<longleftrightarrow> chain m bs" by (rule Cons.IH) (rule Cons.prems; simp)
  ultimately show ?case by simp
qed simp

lemma next_addr_less: "tiles lo bs hi \<Longrightarrow> hi < 2 ^ 32 \<Longrightarrow> next_addr bs < 2 ^ 32"
proof (cases bs)
  case (Cons b cs)
  moreover assume "tiles lo bs hi" and "hi < 2 ^ 32"
  ultimately show ?thesis using tiles_le [of lo bs hi] by (simp only: next_addr_def) simp
qed (simp add: next_addr_def)

text \<open>Reading a header through the pointer arithmetic of the code.\<close>

lemma header_fields:
  assumes "header m b nxt" and "b_size b < 2 ^ 32"
  shows "unat (load32 m (ad (b_addr b))) = b_size b" "load32 m (ad (b_addr b)) = of_nat (b_size b)"
    "load32 m (ad (b_addr b + 4)) = ad nxt" "load32 m (ad (b_addr b + 8)) = 0 \<longleftrightarrow> \<not> b_free b"
  using assms by (auto simp: header_def unat_of_nat_small)

lemma split_block_header:
  fixes b :: block and n :: nat and m :: memory
  defines "m' \<equiv> store32 (split_block (ad (b_addr b)) (of_nat n) m) (ad (b_addr b) + 8) 0"
  assumes hd: "header m b nxt" and free: "b_free b" and n: "n \<le> b_size b"
    and hi: "b_addr b + 12 + b_size b < 2 ^ 32"
  shows "if b_size b - n > 20
    then header m' (b\<lparr>b_size := n, b_free := False\<rparr>) (b_addr b + 12 + n) \<and>
      header m' \<lparr>b_addr = b_addr b + 12 + n, b_size = b_size b - n - 12, b_free = True\<rparr> nxt
    else header m' (b\<lparr>b_free := False\<rparr>) nxt"
    and "\<And>x. x < 2 ^ 32 \<Longrightarrow> x < b_addr b \<or> b_addr b + 12 + b_size b \<le> x \<Longrightarrow> m' (ad x) = m (ad x)"
proof -
  have rem: "load32 m (ad (b_addr b)) - of_nat n = of_nat (b_size b - n)"
    using hd n by (simp add: header_def of_nat_diff)
  have big: "(of_nat (b_size b - n) :: u32) > 20 \<longleftrightarrow> b_size b - n > 20"
    using hi by (simp add: word_less_nat_alt unat_of_nat_small)
  have rest: "of_nat (b_size b - n) - (12 :: u32) = of_nat (b_size b - n - 12)" if "b_size b - n > 20"
    using that by (subst of_nat_diff) auto
  have m': "m' = (if b_size b - n > 20
     then store32 (store32 (store32 (store32 (store32 (store32 m
            (ad (b_addr b + 12 + n)) (of_nat (b_size b - n - 12)))
            (ad (b_addr b + 12 + n + 4)) (ad nxt)) (ad (b_addr b + 12 + n + 8)) 1)
            (ad (b_addr b + 4)) (ad (b_addr b + 12 + n))) (ad (b_addr b)) (of_nat n))
            (ad (b_addr b + 8)) 0
     else store32 m (ad (b_addr b + 8)) 0)"
    using hi hd unfolding m'_def split_block_def Let_def rem
    by (simp add: big rest header_def load32_store32_ad del: of_nat_diff)
  show "if b_size b - n > 20
    then header m' (b\<lparr>b_size := n, b_free := False\<rparr>) (b_addr b + 12 + n) \<and>
      header m' \<lparr>b_addr = b_addr b + 12 + n, b_size = b_size b - n - 12, b_free = True\<rparr> nxt
    else header m' (b\<lparr>b_free := False\<rparr>) nxt"
    using hi hd unfolding m' by (simp add: header_def load32_store32_ad)
  show "m' (ad x) = m (ad x)"
    if "x < 2 ^ 32" and "x < b_addr b \<or> b_addr b + 12 + b_size b \<le> x" for x
  proof (cases "b_size b - n > 20")
    case True
    then have "n + 20 < b_size b" by simp
    with True that hi show ?thesis unfolding m' by (auto simp: store32_byte)
  qed (use that hi in \<open>auto simp: m' store32_byte\<close>)
qed

subsection \<open>Allocation refines first fit\<close>

lemma keepsD:
  "keeps lo hi bs m m' \<Longrightarrow> x < 2 ^ 32 \<Longrightarrow> x < lo \<or> hi \<le> x \<Longrightarrow> m' (ad x) = m (ad x)"
  by (auto simp: keeps_def)

lemma keepsI:
  assumes "\<And>x. x < 2 ^ 32 \<Longrightarrow> x < lo \<or> hi \<le> x \<Longrightarrow> m' (ad x) = m (ad x)"
    and "\<And>b x. b \<in> set bs \<Longrightarrow> \<not> b_free b \<Longrightarrow> x < 2 ^ 32 \<Longrightarrow> b_addr b + 12 \<le> x \<Longrightarrow>
      x < b_addr b + 12 + b_size b \<Longrightarrow> m' (ad x) = m (ad x)"
  shows "keeps lo hi bs m m'"
  using assms unfolding keeps_def by blast

lemma keeps_Cons:
  assumes "keeps (b_addr b + 12 + b_size b) hi bs m m'"
  shows "keeps (b_addr b) hi (b # bs) m m'"
  using assms by (auto simp: keeps_def)

lemma header_keeps:
  assumes "header m b n" and "keeps lo hi bs m m'" and "b_addr b + 12 \<le> lo" and "lo \<le> hi" and "hi < 2 ^ 32"
  shows "header m' b n"
  using assms header_cong [of m' b m n] keepsD [OF assms(2)] by simp

lemma first_fit_next_addr: "first_fit n bs = Some (p, bs') \<Longrightarrow> next_addr bs' = next_addr bs"
  by (cases bs) (auto simp: next_addr_def split: if_splits)

lemma kmalloc_loop_first_fit:
  assumes "chain m bs" and "tiles lo bs hi" and "0 < lo" and "hi < 2 ^ 32" and "n < 2 ^ 32"
  shows "case first_fit n bs of
      None \<Rightarrow> kmalloc_loop (of_nat n) (ad (next_addr bs)) m = Some (0, m)
    | Some (p, bs') \<Rightarrow> (\<exists>m'. kmalloc_loop (of_nat n) (ad (next_addr bs)) m = Some (ad p, m') \<and>
        chain m' bs' \<and> tiles lo bs' hi \<and> keeps lo hi bs m m')"
  using assms(1-3)
proof (induction bs arbitrary: lo)
  case Nil
  then show ?case by (subst kmalloc_loop.simps) (simp add: next_addr_def ad_zero)
next
  case (Cons b bs)
  let ?lo = "lo + 12 + b_size b"
  have b: "b_addr b = lo" and hd: "header m b (next_addr bs)" and ch: "chain m bs"
    and ti: "tiles ?lo bs hi"
    using Cons.prems by simp_all
  have le: "?lo \<le> hi" using tiles_le [OF ti] .
  note fields = header_fields [OF hd]
  have nz: "ad (next_addr (b # bs)) \<noteq> 0" and addr: "ad (next_addr (b # bs)) = ad lo"
    using Cons.prems(3) le assms(4) b by (simp_all add: next_addr_def ad_eq_zero)
  have test: "load32 m (ad lo + 8) \<noteq> 0 \<and> load32 m (ad lo) \<ge> of_nat n \<longleftrightarrow> b_free b \<and> n \<le> b_size b"
    using fields b le assms(4,5) by (simp add: word_le_nat_alt unat_of_nat_small)
  show ?case
  proof (cases "b_free b \<and> n \<le> b_size b")
    case True
    let ?m = "store32 (split_block (ad lo) (of_nat n) m) (ad lo + 8) 0"
    have step: "kmalloc_loop (of_nat n) (ad (next_addr (b # bs))) m = Some (ad (lo + 12), ?m)"
      using nz test True by (subst kmalloc_loop.simps) (simp add: addr)
    note sp = split_block_header [OF hd, of n, unfolded b]
    have out: "?m (ad x) = m (ad x)" if "x < 2 ^ 32" "x < lo \<or> ?lo \<le> x" for x
      using sp(2) [of x] True le assms(4) that by simp
    have "?m (ad (b_addr c + k)) = m (ad (b_addr c + k))" if "c \<in> set bs" "k < 12" for c k
      using tiles_mem [OF ti that(1)] that(2) assms(4) by (intro out) auto
    then have ch': "chain ?m bs" using chain_cong [of bs ?m m] ch by simp
    have "keeps lo hi (b # bs) m ?m"
    proof (rule keepsI)
      fix d x assume d: "d \<in> set (b # bs)" "\<not> b_free d" "x < 2 ^ 32" "b_addr d + 12 \<le> x"
      then have "d \<in> set bs" using True by auto
      with tiles_mem [OF ti this] d show "?m (ad x) = m (ad x)" by (intro out) auto
    next
      fix x :: nat assume "x < 2 ^ 32" "x < lo \<or> hi \<le> x"
      then show "?m (ad x) = m (ad x)" using le by (intro out) auto
    qed
    moreover have "tiles (12 + (b_addr b + b_size b)) bs hi" using ti b by (simp add: ac_simps)
    ultimately show ?thesis
      using step sp(1) True le assms(4) ch' b ti by (auto simp: next_addr_def)
  next
    case False
    then have step: "kmalloc_loop (of_nat n) (ad (next_addr (b # bs))) m =
        kmalloc_loop (of_nat n) (ad (next_addr bs)) m"
      using nz test fields(3) b le assms(4) by (subst kmalloc_loop.simps) (auto simp: addr)
    have IH: "case first_fit n bs of
        None \<Rightarrow> kmalloc_loop (of_nat n) (ad (next_addr bs)) m = Some (0, m)
      | Some (p, bs') \<Rightarrow> (\<exists>m'. kmalloc_loop (of_nat n) (ad (next_addr bs)) m = Some (ad p, m') \<and>
          chain m' bs' \<and> tiles ?lo bs' hi \<and> keeps ?lo hi bs m m')"
      using Cons.IH [OF ch ti] by simp
    show ?thesis
    proof (cases "first_fit n bs")
      case None
      with IH step False show ?thesis by auto
    next
      case (Some r)
      then obtain p bs' where r: "first_fit n bs = Some (p, bs')" by (cases r) simp
      with IH obtain m' where m': "kmalloc_loop (of_nat n) (ad (next_addr bs)) m = Some (ad p, m')"
        "chain m' bs'" "tiles ?lo bs' hi" "keeps ?lo hi bs m m'" by auto
      have "header m' b (next_addr bs')"
        using header_keeps [OF hd m'(4)] first_fit_next_addr [OF r] b le assms(4) by simp
      with m' r step False keeps_Cons [of b hi bs m m'] b show ?thesis by auto
    qed
  qed
qed

subsection \<open>Coalescing refines merging adjacent free blocks\<close>

lemma merge_free_next_addr [simp]: "next_addr (merge_free bs) = next_addr bs"
  by (induction bs rule: merge_free.induct) (auto simp: next_addr_def)

lemma keeps_trans:
  assumes "keeps lo hi bs m m1" and "keeps lo hi cs m1 m'"
    and "\<And>b. b \<in> set bs \<Longrightarrow> \<not> b_free b \<Longrightarrow> b \<in> set cs"
  shows "keeps lo hi bs m m'"
  using assms unfolding keeps_def by (metis (no_types, lifting))

lemma coalesce_loop_merge:
  assumes "chain m bs" and "tiles lo bs hi" and "0 < lo" and "hi < 2 ^ 32" and "bs \<noteq> []"
  shows "\<exists>m'. coalesce_loop (ad (next_addr bs)) m = Some m' \<and> chain m' (merge_free bs) \<and>
    tiles lo (merge_free bs) hi \<and> keeps lo hi bs m m'"
  using assms
proof (induction bs arbitrary: lo m rule: merge_free.induct)
  case (1 b c bs)
  let ?lo = "lo + 12 + b_size b"
  have b: "b_addr b = lo" and c: "b_addr c = ?lo" and hb: "header m b ?lo"
    and hc: "header m c (next_addr bs)" and ch: "chain m bs"
    and ti: "tiles (?lo + 12 + b_size c) bs hi"
    using "1.prems" by (simp_all add: next_addr_def)
  have le: "?lo + 12 + b_size c \<le> hi" using tiles_le [OF ti] .
  have small: "?lo + 12 + b_size c < 2 ^ 32" using le "1.prems"(4) by simp
  note fb = header_fields [OF hb, unfolded b] and fc = header_fields [OF hc, unfolded c]
  have addr: "ad (next_addr (b # c # bs)) = ad lo" and nz: "ad lo \<noteq> 0" "ad ?lo \<noteq> 0"
    using "1.prems"(3) small b by (simp_all add: next_addr_def ad_eq_zero)
  have adj: "ad lo + 12 + load32 m (ad lo) = ad ?lo" using fb small by simp
  show ?case
  proof (cases "b_free b \<and> b_free c")
    case True
    let ?b = "b\<lparr>b_size := b_size b + 12 + b_size c\<rparr>"
    define m2 where "m2 = store32 (store32 m (ad lo) (of_nat (b_size b + 12 + b_size c)))
        (ad (lo + 4)) (ad (next_addr bs))"
    have step: "coalesce_loop (ad lo) m = coalesce_loop (ad lo) m2"
      using True nz fb fc adj small unfolding m2_def
      by (subst coalesce_loop.simps) (simp add: load32_store32_ad add.assoc)
    have out: "m2 (ad x) = m (ad x)" if "x < 2 ^ 32" "x < lo \<or> lo + 8 \<le> x" for x
      using that small unfolding m2_def by (auto simp: store32_byte)
    have "m2 (ad (b_addr d + k)) = m (ad (b_addr d + k))" if "d \<in> set bs" "k < 12" for d k
      using tiles_mem [OF ti that(1)] that(2) "1.prems"(4) by (intro out) auto
    then have "chain m2 bs" using chain_cong [of bs m2 m] ch by simp
    moreover have "header m2 ?b (next_addr bs)"
      using hb small True b unfolding m2_def by (simp add: header_def load32_store32_ad)
    moreover have "tiles lo (?b # bs) hi"
      using ti b by (simp add: ac_simps)
    ultimately obtain m' where m': "coalesce_loop (ad (next_addr (?b # bs))) m2 = Some m'"
      "chain m' (merge_free (?b # bs))" "tiles lo (merge_free (?b # bs)) hi" "keeps lo hi (?b # bs) m2 m'"
      using "1.IH"(1) [OF True, of m2 lo] "1.prems"(3,4) by auto
    have "keeps lo hi (b # c # bs) m m2"
    proof (rule keepsI)
      fix d x assume d: "d \<in> set (b # c # bs)" "\<not> b_free d" "x < 2 ^ 32" "b_addr d + 12 \<le> x"
      then have "d \<in> set bs" using True by auto
      with tiles_mem [OF ti this] d show "m2 (ad x) = m (ad x)" by (intro out) auto
    qed (use le in \<open>auto intro: out\<close>)
    then have "keeps lo hi (b # c # bs) m m'"
      by (rule keeps_trans [OF _ m'(4)]) (use True in auto)
    with m' step True b addr show ?thesis by (auto simp: next_addr_def)
  next
    case False
    have step: "coalesce_loop (ad lo) m = coalesce_loop (ad ?lo) m"
      using False nz fb fc small by (subst coalesce_loop.simps) (auto simp: Let_def)
    obtain m' where m': "coalesce_loop (ad (next_addr (c # bs))) m = Some m'"
      "chain m' (merge_free (c # bs))" "tiles ?lo (merge_free (c # bs)) hi" "keeps ?lo hi (c # bs) m m'"
      using "1.IH"(2) [OF False, of m ?lo] "1.prems" by auto
    have "header m' b ?lo"
      using header_keeps [OF hb m'(4)] b le "1.prems"(4) by simp
    with m' step False addr b c keeps_Cons [of b hi "c # bs" m m'] show ?thesis
      by (auto simp: next_addr_def [of "c # bs"])
  qed
next
  case (2 b)
  then have h: "header m b 0" and b: "b_addr b = lo" by (simp_all add: next_addr_def)
  have "load32 m (ad (lo + 4)) = 0" using h b by (simp add: header_def ad_zero)
  then have "coalesce_loop (ad (next_addr [b])) m = Some m"
    using b by (subst coalesce_loop.simps) (simp add: next_addr_def)
  with 2 show ?case by (auto simp: keeps_def)
qed simp

subsection \<open>The abstract operations on the blocks in use\<close>

fun coalesced :: "block list \<Rightarrow> bool" where
  "coalesced (b # c # bs) \<longleftrightarrow> \<not> (b_free b \<and> b_free c) \<and> coalesced (c # bs)"
| "coalesced bs \<longleftrightarrow> True"

lemma tiles_disjoint:
  "tiles lo bs hi \<Longrightarrow> b \<in> set bs \<Longrightarrow> c \<in> set bs \<Longrightarrow>
   b = c \<or> b_addr b + 12 + b_size b \<le> b_addr c \<or> b_addr c + 12 + b_size c \<le> b_addr b"
proof (induction bs arbitrary: lo)
  case (Cons d bs)
  then have ti: "tiles (lo + 12 + b_size d) bs hi" and d: "b_addr d = lo" by simp_all
  from Cons.prems show ?case
    using Cons.IH [OF ti] tiles_mem [OF ti] d by (auto simp: add.assoc)
qed simp

lemma tiles_addr_inj:
  "tiles lo bs hi \<Longrightarrow> b \<in> set bs \<Longrightarrow> c \<in> set bs \<Longrightarrow> b_addr b = b_addr c \<Longrightarrow> b = c"
  using tiles_disjoint [of lo bs hi b c] by auto

lemma liveI: "b \<in> set bs \<Longrightarrow> \<not> b_free b \<Longrightarrow> (b_addr b + 12, b_size b) \<in> live bs"
  by (auto simp: live_def)

lemma live_Cons:
  "live (b # bs) = (if b_free b then live bs else insert (b_addr b + 12, b_size b) (live bs))"
  by (auto simp: live_def)

lemma live_Nil [simp]: "live [] = {}"
  by (simp add: live_def)

lemma live_addr:
  "tiles lo bs hi \<Longrightarrow> (p, k) \<in> live bs \<Longrightarrow> lo + 12 \<le> p \<and> p + k \<le> hi"
  by (auto simp: live_def dest: tiles_mem)

lemma first_fit_live:
  "tiles lo bs hi \<Longrightarrow> first_fit n bs = Some (p, bs') \<Longrightarrow>
   \<exists>k. n \<le> k \<and> k \<le> n + 20 \<and> lo + 12 \<le> p \<and> p + k \<le> hi \<and>
     (p, k) \<notin> live bs \<and> live bs' = insert (p, k) (live bs)"
proof (induction bs arbitrary: lo p bs')
  case (Cons b bs)
  then have ti: "tiles (lo + 12 + b_size b) bs hi" and b: "b_addr b = lo" by simp_all
  note le = tiles_le [OF ti]
  show ?case
  proof (cases "b_free b \<and> n \<le> b_size b")
    case True
    have "(lo + 12, k) \<notin> live bs" for k
      using live_addr [OF ti, of "lo + 12" k] by auto
    with True Cons.prems(2) b le show ?thesis
      by (auto simp: live_Cons split: if_splits)
  next
    case False
    then obtain cs where "first_fit n bs = Some (p, cs)" and bs': "bs' = b # cs"
      using Cons.prems(2) by (auto simp: map_option_case split: option.splits if_splits)
    from Cons.IH [OF ti this(1)] obtain k where k: "n \<le> k" "k \<le> n + 20" "lo + 12 + b_size b + 12 \<le> p"
      "p + k \<le> hi" "(p, k) \<notin> live bs" "live cs = insert (p, k) (live bs)" by auto
    then show ?thesis using b bs' by (auto simp: live_Cons)
  qed
qed simp

lemma first_fit_None: "first_fit n bs = None \<Longrightarrow> b \<in> set bs \<Longrightarrow> b_free b \<Longrightarrow> b_size b < n"
  by (induction bs) (auto split: if_splits)

lemma first_fit_hd_free:
  "first_fit n bs = Some (p, bs') \<Longrightarrow> bs' \<noteq> [] \<and> (b_free (hd bs') \<longrightarrow> b_free (hd bs))"
  by (cases bs) (auto split: if_splits)

lemma coalesced_Cons:
  "coalesced (b # bs) \<longleftrightarrow> coalesced bs \<and> (bs \<noteq> [] \<longrightarrow> \<not> (b_free b \<and> b_free (hd bs)))"
  by (cases bs) auto

lemma first_fit_coalesced:
  "coalesced bs \<Longrightarrow> first_fit n bs = Some (p, bs') \<Longrightarrow> coalesced bs'"
proof (induction bs arbitrary: bs')
  case (Cons b bs)
  show ?case
  proof (cases "b_free b \<and> n \<le> b_size b")
    case True
    with Cons.prems show ?thesis by (auto simp: coalesced_Cons split: if_splits)
  next
    case False
    then obtain cs where cs: "first_fit n bs = Some (p, cs)" and bs': "bs' = b # cs"
      using Cons.prems(2) by (auto simp: map_option_case split: option.splits if_splits)
    have "bs \<noteq> []" using cs by auto
    with Cons cs bs' first_fit_hd_free [OF cs] show ?thesis by (auto simp: coalesced_Cons)
  qed
qed simp

lemma first_fit_sizes:
  assumes "0 < n"
  shows "\<forall>b \<in> set bs. 0 < b_size b \<Longrightarrow> first_fit n bs = Some (p, bs') \<Longrightarrow> \<forall>b \<in> set bs'. 0 < b_size b"
  using assms by (induction bs arbitrary: bs') (auto split: if_splits)

lemma merge_free_live [simp]: "live (merge_free bs) = live bs"
  by (induction bs rule: merge_free.induct) (auto simp: live_Cons)

lemma merge_free_hd: "bs \<noteq> [] \<Longrightarrow> merge_free bs \<noteq> [] \<and> b_free (hd (merge_free bs)) = b_free (hd bs)"
  by (induction bs rule: merge_free.induct) auto

lemma merge_free_coalesced [simp]: "coalesced (merge_free bs)"
proof (induction bs rule: merge_free.induct)
  case (1 b c bs)
  then show ?case using merge_free_hd [of "c # bs"] by (auto simp: coalesced_Cons)
qed simp_all

lemma merge_free_sizes:
  "\<forall>b \<in> set bs. 0 < b_size b \<Longrightarrow> \<forall>b \<in> set (merge_free bs). 0 < b_size b"
  by (induction bs rule: merge_free.induct) auto

subsection \<open>Releasing a block\<close>

lemma release_tiles [simp]: "tiles lo (release a bs) hi \<longleftrightarrow> tiles lo bs hi"
  by (induction bs arbitrary: lo) (auto simp: release_def)

lemma release_next_addr [simp]: "next_addr (release a bs) = next_addr bs"
  by (cases bs) (auto simp: release_def next_addr_def)

lemma release_sizes:
  "\<forall>b \<in> set bs. 0 < b_size b \<Longrightarrow> \<forall>b \<in> set (release a bs). 0 < b_size b"
  by (auto simp: release_def)

lemma chain_release:
  assumes "chain m bs" and "a + 12 \<le> 2 ^ 32"
    and "\<And>c. c \<in> set bs \<Longrightarrow> b_addr c + 12 \<le> 2 ^ 32"
    and "\<And>c. c \<in> set bs \<Longrightarrow> b_addr c = a \<or> b_addr c + 12 \<le> a \<or> a + 12 \<le> b_addr c"
  shows "chain (store32 m (ad (a + 8)) 1) (release a bs)"
  using assms(1,3,4)
proof (induction bs)
  case (Cons c bs)
  let ?m = "store32 m (ad (a + 8)) 1"
  have "header ?m (if b_addr c = a then c\<lparr>b_free := True\<rparr> else c) (next_addr bs)"
  proof (cases "b_addr c = a")
    case True
    with Cons.prems(1) assms(2) show ?thesis by (simp add: header_def load32_store32_ad)
  next
    case False
    with Cons.prems(3) [of c] have "b_addr c + 12 \<le> a \<or> a + 12 \<le> b_addr c" by simp
    with Cons.prems(1) Cons.prems(2) [of c] assms(2) False show ?thesis
      by (auto simp: header_def load32_store32_ad)
  qed
  moreover have "chain ?m (release a bs)" using Cons by simp
  moreover have "next_addr (release a bs) = next_addr bs" by simp
  ultimately show ?case by (simp add: release_def)
qed (simp add: release_def)

lemma live_release:
  assumes "tiles lo bs hi" and "b \<in> set bs" and "\<not> b_free b"
  shows "live (release (b_addr b) bs) = live bs - {(b_addr b + 12, b_size b)}"
  using tiles_addr_inj [OF assms(1) assms(2)] assms(3)
  by (force simp: live_def release_def)

lemma live_payload:
  "same_payload (live bs) m m'" if "keeps lo hi bs m m'" and "tiles lo bs hi" and "hi < 2 ^ 32"
  unfolding same_payload_def
proof clarify
  fix p k x assume "(p, k) \<in> live bs" and x: "p \<le> x" "x < p + k"
  then obtain b where b: "b \<in> set bs" "\<not> b_free b" "p = b_addr b + 12" "k = b_size b"
    by (auto simp: live_def)
  then have "x < 2 ^ 32" using tiles_mem [OF that(2) b(1)] that(3) x by simp
  with that(1) b x show "m' (ad x) = m (ad x)" unfolding keeps_def by blast
qed

subsection \<open>The invariant of the heap\<close>

text \<open>
  The blocks tile the heap exactly, the memory holds their headers as a list from
  \<^verbatim>\<open>heap_head\<close>, no block is empty, and no two free blocks are adjacent.
\<close>

definition heap_inv :: "heap_state \<Rightarrow> block list \<Rightarrow> bool" where
  "heap_inv s bs \<longleftrightarrow> bs \<noteq> [] \<and> heap_start s \<noteq> 0 \<and> heap_head s = heap_start s \<and>
     tiles (unat (heap_start s)) bs (unat (heap_end s)) \<and> chain (h_mem s) bs \<and>
     coalesced bs \<and> (\<forall>b \<in> set bs. 0 < b_size b)"

definition heap_rel :: "heap_state \<Rightarrow> (nat \<times> nat) set \<Rightarrow> bool" where
  "heap_rel s L \<longleftrightarrow> (\<exists>bs. heap_inv s bs \<and> L = live bs)"

lemma heap_invD:
  assumes "heap_inv s bs"
  shows "bs \<noteq> []" "0 < unat (heap_start s)" "heap_head s = ad (next_addr bs)"
    "tiles (unat (heap_start s)) bs (unat (heap_end s))" "chain (h_mem s) bs" "coalesced bs"
    "\<forall>b \<in> set bs. 0 < b_size b" "unat (heap_end s) < 2 ^ 32" "heap_head s \<noteq> 0"
proof -
  show "heap_head s = ad (next_addr bs)"
    using assms by (cases bs) (auto simp: heap_inv_def next_addr_def)
qed (use assms in \<open>auto simp: heap_inv_def unat_gt_0\<close>)

lemma unat_align8:
  assumes "unat sz \<le> 2 ^ 32 - 8"
  shows "unat (align8 sz) = (unat sz + 7) div 8 * 8"
proof -
  have "(7 :: u32) = mask 3" by (simp add: mask_eq_exp_minus_1)
  moreover have "unat (sz + 7) = unat sz + 7" using assms by (simp add: unat_plus_no_wrap)
  ultimately show ?thesis
    unfolding align8_def using unat_and_not_mask [of "sz + 7" 3] by simp
qed

lemma align8_bounds:
  assumes "0 < unat sz" and "unat sz \<le> 2 ^ 32 - 8"
  shows "unat sz \<le> unat (align8 sz)" "0 < unat (align8 sz)"
proof -
  show "unat sz \<le> unat (align8 sz)"
    using div_mult_ge_round_up [of 8 "unat sz"] unat_align8 [OF assms(2)] by simp
  with assms(1) show "0 < unat (align8 sz)" by simp
qed

text \<open>\<^verbatim>\<open>kmalloc\<close> as first fit on the abstract blocks, for every request.\<close>

lemma kmalloc_first_fit:
  assumes "heap_inv s bs" and "sz \<noteq> 0"
  shows "case first_fit (unat (align8 sz)) bs of
      None \<Rightarrow> kmalloc sz s = Some (0, s)
    | Some (p, bs') \<Rightarrow> (\<exists>m'. kmalloc sz s = Some (ad p, s\<lparr>h_mem := m'\<rparr>) \<and> chain m' bs' \<and>
        tiles (unat (heap_start s)) bs' (unat (heap_end s)) \<and>
        keeps (unat (heap_start s)) (unat (heap_end s)) bs (h_mem s) m')"
proof -
  note I = heap_invD [OF assms(1)]
  have "unat (align8 sz) < 2 ^ 32" by simp
  from kmalloc_loop_first_fit [OF I(5,4,2,8) this] I(3,9) assms(2) show ?thesis
    unfolding kmalloc_def by (auto split: option.splits)
qed

lemma kmalloc_keeps_inv:
  assumes inv: "heap_inv s bs" and sz: "0 < unat sz" "unat sz \<le> 2 ^ 32 - 8"
    and ff: "first_fit (unat (align8 sz)) bs = Some (p, bs')"
  obtains s' k where "kmalloc sz s = Some (ad p, s')" and "heap_inv s' bs'" and "ad p \<noteq> 0"
    and "unat (ad p) = p" and "unat sz \<le> k" and "(p, k) \<notin> live bs" and "live bs' = insert (p, k) (live bs)"
    and "same_payload (live bs) (h_mem s) (h_mem s')"
proof -
  note I = heap_invD [OF inv]
  from sz(1) have "sz \<noteq> 0" by (simp add: unat_gt_0)
  from kmalloc_first_fit [OF inv this] ff obtain m' where
    m': "kmalloc sz s = Some (ad p, s\<lparr>h_mem := m'\<rparr>)" "chain m' bs'"
      "tiles (unat (heap_start s)) bs' (unat (heap_end s))"
      "keeps (unat (heap_start s)) (unat (heap_end s)) bs (h_mem s) m'" by auto
  obtain k where k: "unat (align8 sz) \<le> k" "unat (heap_start s) + 12 \<le> p" "p + k \<le> unat (heap_end s)"
    "(p, k) \<notin> live bs" "live bs' = insert (p, k) (live bs)"
    using first_fit_live [OF I(4) ff] by blast
  have p: "p < 2 ^ 32" "0 < p" using k I(8) by linarith+
  have "heap_inv (s\<lparr>h_mem := m'\<rparr>) bs'"
    using inv m' first_fit_coalesced [OF I(6) ff] first_fit_hd_free [OF ff]
      first_fit_sizes [OF align8_bounds(2) [OF sz] I(7) ff]
    by (simp add: heap_inv_def)
  with that [OF m'(1), of k] k p align8_bounds(1) [OF sz] live_payload [OF m'(4) I(4,8)]
  show thesis by (simp add: unat_ad ad_eq_zero)
qed

lemma kfree_merge:
  assumes inv: "heap_inv s bs" and b: "b \<in> set bs" "\<not> b_free b" "ptr = ad (b_addr b + 12)"
  obtains s' where "kfree ptr s = Some s'" and "heap_inv s' (merge_free (release (b_addr b) bs))"
    and "same_payload (live bs - {(b_addr b + 12, b_size b)}) (h_mem s) (h_mem s')"
    and "heap_start s' = heap_start s" and "heap_end s' = heap_end s"
    and "same_beyond (unat (heap_start s)) (unat (heap_end s)) (h_mem s) (h_mem s')"
proof -
  note I = heap_invD [OF inv]
  let ?lo = "unat (heap_start s)" and ?hi = "unat (heap_end s)" and ?bs = "release (b_addr b) bs"
  have mem: "?lo \<le> b_addr b" "b_addr b + 12 + b_size b \<le> ?hi"
    using tiles_mem [OF I(4) b(1)] by simp_all
  have pos: "0 < b_size b" using I(7) b(1) by simp
  have "b_addr b + 12 < 2 ^ 32" using mem(2) I(8) by (rule le_less_trans [OF order_trans [OF le_add1]])
  moreover from this mem(1) have "?lo + 12 < 2 ^ 32" by linarith
  ultimately have up: "unat ptr = b_addr b + 12" and start: "unat (heap_start s + 12) = ?lo + 12"
    using b(3) by (simp_all add: unat_ad unat_plus_no_wrap)
  have guard: "ptr \<noteq> 0" "\<not> (ptr < heap_start s + 12 \<or> heap_end s \<le> ptr)"
    using up mem pos start by (auto simp: word_less_nat_alt word_le_nat_alt)
  have at: "ptr - 12 + 8 = ad (b_addr b + 8)"
    using ad_minus [of 12 "b_addr b + 12"] b(3) by simp
  define m1 where "m1 = store32 (h_mem s) (ad (b_addr b + 8)) 1"
  have far: "b_addr c = b_addr b \<or> b_addr c + 12 \<le> b_addr b \<or> b_addr b + 12 \<le> b_addr c"
    if "c \<in> set bs" for c
    using tiles_disjoint [OF I(4) that b(1)] by auto
  have below: "b_addr c + 12 + b_size c < 2 ^ 32" if "c \<in> set bs" for c
    using tiles_mem [OF I(4) that] I(8) by linarith
  have "chain m1 ?bs" unfolding m1_def
    using far below [OF b(1)] below by (intro chain_release [OF I(5)]) fastforce+
  moreover have "?bs \<noteq> []" using I(1) by (simp add: release_def)
  ultimately obtain m' where m': "coalesce_loop (ad (next_addr bs)) m1 = Some m'"
    "chain m' (merge_free ?bs)" "tiles ?lo (merge_free ?bs) ?hi" "keeps ?lo ?hi ?bs m1 m'"
    using coalesce_loop_merge [of m1 ?bs ?lo ?hi] I(2,4,8) by auto
  have free: "kfree ptr s = Some (s\<lparr>h_mem := m'\<rparr>)"
    using guard at m'(1) I(3,9) by (simp add: kfree_def coalesce_def m1_def)
  have "heap_inv (s\<lparr>h_mem := m'\<rparr>) (merge_free ?bs)"
    using inv m' merge_free_hd [OF \<open>?bs \<noteq> []\<close>] merge_free_sizes [OF release_sizes [OF I(7)]]
    by (simp add: heap_inv_def)
  moreover have "same_payload (live ?bs) (h_mem s) m'"
  proof (rule same_payload_trans)
    show "same_payload (live ?bs) m1 m'" using live_payload [OF m'(4)] I(4,8) by simp
    have "m1 (ad x) = h_mem s (ad x)" if c: "c \<in> set ?bs" "\<not> b_free c"
      and x: "b_addr c + 12 \<le> x" "x < b_addr c + 12 + b_size c" for c x
    proof -
      from c have "c \<in> set bs" "b_addr c \<noteq> b_addr b" by (auto simp: release_def split: if_splits)
      with tiles_disjoint [OF I(4) this(1) b(1)] below [OF this(1)] below [OF b(1)] x
      show ?thesis unfolding m1_def by (auto simp: store32_byte)
    qed
    then show "same_payload (live ?bs) (h_mem s) m1"
      unfolding same_payload_def live_def by blast
  qed
  moreover have "same_beyond ?lo ?hi (h_mem s) m'"
    unfolding same_beyond_def
  proof clarify
    fix x :: nat assume x: "x < 2 ^ 32" "x < ?lo \<or> ?hi \<le> x"
    have "m' (ad x) = m1 (ad x)" using keepsD [OF m'(4) x] .
    also have "\<dots> = h_mem s (ad x)" unfolding m1_def
      using x mem below [OF b(1)] by (intro store32_byte) auto
    finally show "m' (ad x) = h_mem s (ad x)" .
  qed
  ultimately show thesis
    using that free live_release [OF I(4) b(1,2)] by simp
qed

lemma heap_inv_write:
  assumes inv: "heap_inv s bs" and b: "b \<in> set bs" and m: "same_outside (b_addr b + 12) (b_size b) (h_mem s) m"
  shows "heap_inv (s\<lparr>h_mem := m\<rparr>) bs"
proof -
  note I = heap_invD [OF inv]
  have below: "c \<in> set bs \<Longrightarrow> b_addr c + 12 + b_size c < 2 ^ 32" for c
    using tiles_mem [OF I(4), of c] I(8) by linarith
  have "m (ad (b_addr c + j)) = h_mem s (ad (b_addr c + j))" if "c \<in> set bs" "j < 12" for c j
    using tiles_disjoint [OF I(4) that(1) b] that(2) below [OF that(1)]
    by (intro same_outsideD [OF m]) auto
  then have "chain m bs" using chain_cong [of bs m "h_mem s"] I(5) by simp
  with inv show ?thesis by (simp add: heap_inv_def)
qed

interpretation heap: block_allocator kmalloc kfree h_mem "\<lambda>m s. s\<lparr>h_mem := m\<rparr>" heap_rel
proof
  fix s L p k assume "heap_rel s L" and "(p, k) \<in> L"
  then obtain b bs where inv: "heap_inv s bs" and b: "b \<in> set bs" "p = b_addr b + 12" "k = b_size b"
    by (auto simp: heap_rel_def live_def)
  have "b_addr b + 12 + b_size b < 2 ^ 32"
    using tiles_mem [OF heap_invD(4) [OF inv] b(1)] heap_invD(8) [OF inv] by linarith
  with heap_invD(7) [OF inv] b show "0 < p \<and> 0 < k \<and> p + k < 2 ^ 32" by auto
next
  fix s L p k q j assume "heap_rel s L" and "(p, k) \<in> L" and "(q, j) \<in> L"
  then obtain b c bs where inv: "heap_inv s bs" and "b \<in> set bs" "p = b_addr b + 12" "k = b_size b"
    "c \<in> set bs" "q = b_addr c + 12" "j = b_size c"
    by (auto simp: heap_rel_def live_def)
  with tiles_disjoint [OF heap_invD(4) [OF inv], of b c]
  show "(p, k) = (q, j) \<or> p + k \<le> q \<or> q + j \<le> p" by auto
next
  fix s L and n :: u32
  assume "heap_rel s L" and n: "0 < unat n" "unat n \<le> 2 ^ 32 - 8"
  then obtain bs where inv: "heap_inv s bs" and L: "L = live bs" by (auto simp: heap_rel_def)
  show "kmalloc n s = Some (0, s) \<or> (\<exists>a s' k. kmalloc n s = Some (a, s') \<and> a \<noteq> 0 \<and> unat n \<le> k \<and>
      (unat a, k) \<notin> L \<and> heap_rel s' (insert (unat a, k) L) \<and> same_payload L (h_mem s) (h_mem s'))"
  proof (cases "first_fit (unat (align8 n)) bs")
    case None
    with kmalloc_first_fit [OF inv, of n] n show ?thesis by (auto simp: unat_gt_0)
  next
    case (Some r)
    then obtain p bs' where "first_fit (unat (align8 n)) bs = Some (p, bs')" by (cases r) auto
    from kmalloc_keeps_inv [OF inv n this] L show ?thesis
      by (metis heap_rel_def)
  qed
next
  fix s L and a :: u32 and k
  assume "heap_rel s L" and "(unat a, k) \<in> L"
  then obtain bs b where inv: "heap_inv s bs" and L: "L = live bs" and b: "b \<in> set bs" "\<not> b_free b"
    and a: "unat a = b_addr b + 12" "k = b_size b" by (auto simp: heap_rel_def live_def)
  from a have "a = ad (b_addr b + 12)" by (metis ad_unat)
  from kfree_merge [OF inv b this] live_release [OF heap_invD(4) [OF inv] b] L a
  show "\<exists>s'. kfree a s = Some s' \<and> heap_rel s' (L - {(unat a, k)}) \<and>
      same_payload (L - {(unat a, k)}) (h_mem s) (h_mem s')"
    by (metis heap_rel_def merge_free_live)
next
  fix s L p k m
  assume "heap_rel s L" and "(p, k) \<in> L" and m: "same_outside p k (h_mem s) m"
  then obtain bs b where "heap_inv s bs" "L = live bs" "b \<in> set bs" "p = b_addr b + 12" "k = b_size b"
    by (auto simp: heap_rel_def live_def)
  with heap_inv_write m show "heap_rel (s\<lparr>h_mem := m\<rparr>) L" by (fastforce simp: heap_rel_def)
qed

end
