(* ===== verification/Scheduler.thy ===== *)
theory Scheduler
  imports Task_Context Kernel_Heap
begin

text \<open>
  The round-robin scheduler (\<^verbatim>\<open>src/proc/scheduler.c\<close>) with the timer interrupt that drives it
  (\<^verbatim>\<open>src/drivers/timer.c\<close>). The state holds the static variables of both files and the
  kernel heap from which the task stacks come. Function pointers and stack pointers are
  addresses; an operation that ends in \<^verbatim>\<open>int $0x20\<close> takes the stack pointer \<open>esp\<close> at which
  the interrupt frame of its caller ends up and returns the stack pointer from which
  \<^verbatim>\<open>common_stub\<close> restores the next context.
\<close>

abbreviation MAX_TASKS :: nat where
  "MAX_TASKS \<equiv> 4"

abbreviation STACK_SIZE :: u32 where
  "STACK_SIZE \<equiv> 4096"

datatype task_state = TASK_UNUSED | TASK_RUNNABLE | TASK_ZOMBIE

record task =
  ctx :: task_context
  stack_base :: u32
  pid :: int
  exit_code :: int
  state :: task_state

record sched =
  tasks :: "task list"
  task_count :: int
  current_task :: int
  active_tasks :: int
  scheduling_enabled :: bool
  need_resched :: bool
  kernel_ctx :: task_context
  next_pid :: int
  ticks :: u32
  timer_ticks :: u32
  heap :: heap_state

subsection \<open>The code\<close>

definition reset_task :: "task \<Rightarrow> task" where
  "reset_task t = t\<lparr>state := TASK_UNUSED, stack_base := 0, pid := 0, exit_code := 0,
     ctx := (ctx t)\<lparr>irq_esp := 0\<rparr>\<rparr>"

definition scheduler_init :: "sched \<Rightarrow> sched" where
  "scheduler_init s = s\<lparr>task_count := 0, current_task := -1, active_tasks := 0,
     scheduling_enabled := False, need_resched := False, next_pid := 1,
     tasks := map reset_task (tasks s)\<rparr>"

function find_slot :: "task list \<Rightarrow> nat \<Rightarrow> nat option" where
  "find_slot ts i =
     (if i < MAX_TASKS then if state (ts ! i) = TASK_UNUSED then Some i else find_slot ts (Suc i)
      else None)"
  by pat_completeness auto
termination by (relation "measure (\<lambda>(ts, i). MAX_TASKS - i)") auto

declare find_slot.simps [simp del]

text \<open>
  \<open>None\<close> as a result means that the call does not return, which only a corrupt heap list
  could cause in \<^verbatim>\<open>kmalloc\<close>.
\<close>

definition scheduler_add :: "u32 \<Rightarrow> sched \<Rightarrow> (int \<times> sched) option" where
  "scheduler_add entry s =
     (if entry = 0 then Some (-1, s)
      else case find_slot (tasks s) 0 of
        None \<Rightarrow> Some (-1, s)
      | Some slot \<Rightarrow>
          (case kmalloc STACK_SIZE (heap s) of
             None \<Rightarrow> None
           | Some (base, h) \<Rightarrow>
               if base = 0 then Some (-1, s\<lparr>heap := h\<rparr>)
               else
                 let stack_top = base + STACK_SIZE;
                     t = tasks s ! slot;
                     (c, m) = task_context_init (Some (ctx t)) entry stack_top (h_mem h);
                     t = t\<lparr>ctx := the c, stack_base := base, pid := next_pid s, exit_code := 0,
                           state := TASK_RUNNABLE\<rparr>
                 in Some (next_pid s,
                      s\<lparr>heap := h\<lparr>h_mem := m\<rparr>, tasks := (tasks s)[slot := t],
                        next_pid := next_pid s + 1, active_tasks := active_tasks s + 1,
                        task_count := (if int slot \<ge> task_count s then int slot + 1
                                       else task_count s)\<rparr>)))"

definition scheduler_tick :: "sched \<Rightarrow> sched" where
  "scheduler_tick s =
     (if \<not> scheduling_enabled s \<or> task_count s < 2 then s
      else let s = s\<lparr>ticks := ticks s + 1\<rparr> in
           if ticks s mod 10 = 0 then s\<lparr>need_resched := True\<rparr> else s)"

fun pick_loop :: "task list \<Rightarrow> int \<Rightarrow> nat \<Rightarrow> int \<Rightarrow> int option" where
  "pick_loop ts n 0 nxt = None"
| "pick_loop ts n (Suc k) nxt =
     (let nxt = (nxt + 1) mod n in
      if state (ts ! nat nxt) = TASK_RUNNABLE then Some nxt else pick_loop ts n k nxt)"

definition save_esp :: "u32 \<Rightarrow> sched \<Rightarrow> sched" where
  "save_esp esp s =
     (if current_task s \<ge> 0
      then let i = nat (current_task s); t = tasks s ! i in
           s\<lparr>tasks := (tasks s)[i := t\<lparr>ctx := (ctx t)\<lparr>irq_esp := esp\<rparr>\<rparr>]\<rparr>
      else s\<lparr>kernel_ctx := (kernel_ctx s)\<lparr>irq_esp := esp\<rparr>\<rparr>)"

definition scheduler_switch_from_isr :: "u32 \<Rightarrow> sched \<Rightarrow> u32 \<times> sched" where
  "scheduler_switch_from_isr current_esp s =
     (if \<not> scheduling_enabled s \<or> task_count s = 0 then (current_esp, s)
      else
        let s = save_esp current_esp s in
        if \<not> need_resched s then (current_esp, s)
        else
          let s = s\<lparr>need_resched := False\<rparr> in
          if active_tasks s = 0
          then (irq_esp (kernel_ctx s), s\<lparr>current_task := -1, scheduling_enabled := False\<rparr>)
          else case pick_loop (tasks s) (task_count s) (nat (task_count s)) (current_task s) of
                 Some nxt \<Rightarrow> (irq_esp (ctx (tasks s ! nat nxt)), s\<lparr>current_task := nxt\<rparr>)
               | None \<Rightarrow> (irq_esp (kernel_ctx s), s\<lparr>current_task := -1\<rparr>))"

definition timer_handler :: "sched \<Rightarrow> sched" where
  "timer_handler s = scheduler_tick (s\<lparr>timer_ticks := timer_ticks s + 1\<rparr>)"

text \<open>
  Interrupt 32, whether raised by the timer chip or by \<^verbatim>\<open>int $0x20\<close>: \<^verbatim>\<open>common_stub\<close> calls
  \<^verbatim>\<open>irq_handler\<close>, which runs the handler registered for IRQ 0, and then the scheduler.
\<close>

definition timer_interrupt :: "u32 \<Rightarrow> sched \<Rightarrow> u32 \<times> sched" where
  "timer_interrupt esp s = scheduler_switch_from_isr esp (timer_handler s)"

definition scheduler_start :: "u32 \<Rightarrow> sched \<Rightarrow> u32 \<times> sched" where
  "scheduler_start esp s =
     (if active_tasks s = 0 then (esp, s)
      else timer_interrupt esp (s\<lparr>scheduling_enabled := True, current_task := -1, need_resched := True\<rparr>))"

definition task_yield :: "u32 \<Rightarrow> sched \<Rightarrow> u32 \<times> sched" where
  "task_yield esp s =
     (if \<not> scheduling_enabled s \<or> task_count s < 2 then (esp, s)
      else timer_interrupt esp (s\<lparr>need_resched := True\<rparr>))"

text \<open>\<open>None\<close>: \<^verbatim>\<open>tasks[prev]\<close> is outside the array.\<close>

definition scheduler_exit :: "int \<Rightarrow> u32 \<Rightarrow> sched \<Rightarrow> (u32 \<times> sched) option" where
  "scheduler_exit code esp s =
     (if \<not> scheduling_enabled s \<or> task_count s = 0 then Some (esp, s)
      else if current_task s < 0 \<or> current_task s \<ge> int MAX_TASKS then None
      else
        let prev = nat (current_task s);
            s = s\<lparr>tasks := (tasks s)[prev := (tasks s ! prev)\<lparr>state := TASK_ZOMBIE, exit_code := code\<rparr>]\<rparr>;
            s = (if active_tasks s > 0 then s\<lparr>active_tasks := active_tasks s - 1\<rparr> else s)
        in Some (timer_interrupt esp (s\<lparr>need_resched := True\<rparr>)))"

function find_zombie :: "task list \<Rightarrow> int \<Rightarrow> int \<Rightarrow> int \<Rightarrow> int option" where
  "find_zombie ts n p i =
     (if i < n then
        if pid (ts ! nat i) = p \<and> state (ts ! nat i) = TASK_ZOMBIE then Some i
        else find_zombie ts n p (i + 1)
      else None)"
  by pat_completeness auto
termination by (relation "measure (\<lambda>(ts, n, p, i). nat (n - i))") auto

declare find_zombie.simps [simp del]

text \<open>
  The result, the exit code stored through \<^verbatim>\<open>exit_code\<close> (\<open>None\<close> if that is null, which
  \<open>want\<close> says, or if nothing is stored), and the new state.
\<close>

definition scheduler_wait :: "int \<Rightarrow> bool \<Rightarrow> sched \<Rightarrow> (int \<times> int option \<times> sched) option" where
  "scheduler_wait p want s =
     (case find_zombie (tasks s) (task_count s) p 0 of
        None \<Rightarrow> Some (-1, None, s)
      | Some i \<Rightarrow>
          let t = tasks s ! nat i; out = (if want then Some (exit_code t) else None) in
          if stack_base t \<noteq> 0 then
            case kfree (stack_base t) (heap s) of
              None \<Rightarrow> None
            | Some h \<Rightarrow> Some (0, out, s\<lparr>heap := h,
                tasks := (tasks s)[nat i := t\<lparr>stack_base := 0, state := TASK_UNUSED\<rparr>]\<rparr>)
          else Some (0, out, s\<lparr>tasks := (tasks s)[nat i := t\<lparr>state := TASK_UNUSED\<rparr>]\<rparr>))"

subsection \<open>Choosing the next task\<close>

definition runnable :: "sched \<Rightarrow> int \<Rightarrow> bool" where
  "runnable s i \<longleftrightarrow> 0 \<le> i \<and> i < task_count s \<and> state (tasks s ! nat i) = TASK_RUNNABLE"

text \<open>The loop looks at the slots after the current one in cyclic order.\<close>

lemma pick_loop_find:
  "pick_loop ts n k nxt =
     find (\<lambda>j. state (ts ! nat j) = TASK_RUNNABLE) (map (\<lambda>d. (nxt + 1 + int d) mod n) [0..<k])"
proof (induction k arbitrary: nxt)
  case (Suc k)
  have "map (\<lambda>d. (nxt + 1 + int d) mod n) [0..<Suc k] =
      (nxt + 1) mod n # map (\<lambda>d. ((nxt + 1) mod n + 1 + int d) mod n) [0..<k]"
    unfolding upt_conv_Cons [OF zero_less_Suc] map_Suc_upt [symmetric]
    by (simp add: add.assoc mod_add_left_eq)
  then show ?case using Suc.IH by (simp add: Let_def del: upt_Suc)
qed simp

lemma pick_loop_cases:
  assumes "0 < n"
  obtains (none) "pick_loop ts n (nat n) cur = None"
      and "\<And>j. 0 \<le> j \<Longrightarrow> j < n \<Longrightarrow> state (ts ! nat j) \<noteq> TASK_RUNNABLE"
  | (some) d where "pick_loop ts n (nat n) cur = Some ((cur + 1 + d) mod n)" and "0 \<le> d" and "d < n"
      and "state (ts ! nat ((cur + 1 + d) mod n)) = TASK_RUNNABLE"
      and "\<And>e. 0 \<le> e \<Longrightarrow> e < d \<Longrightarrow> state (ts ! nat ((cur + 1 + e) mod n)) \<noteq> TASK_RUNNABLE"
proof (cases "pick_loop ts n (nat n) cur")
  case None
  have "state (ts ! nat j) \<noteq> TASK_RUNNABLE" if "0 \<le> j" "j < n" for j
  proof -
    let ?d = "nat ((j - cur - 1) mod n)"
    have "(cur + 1 + int ?d) mod n = j"
      using assms that by (simp add: mod_add_right_eq)
    moreover have "?d < nat n" using assms by simp
    ultimately have "j \<in> set (map (\<lambda>d. (cur + 1 + int d) mod n) [0..<nat n])"
      unfolding set_map set_upt by (intro image_eqI [where x = ?d]) auto
    then show ?thesis using None unfolding pick_loop_find find_None_iff by blast
  qed
  with None that(1) show thesis by blast
next
  case (Some j)
  then obtain d where d: "d < nat n" "j = (cur + 1 + int d) mod n" "state (ts ! nat j) = TASK_RUNNABLE"
    "\<And>e. e < d \<Longrightarrow> state (ts ! nat ((cur + 1 + int e) mod n)) \<noteq> TASK_RUNNABLE"
    unfolding pick_loop_find find_Some_iff by auto
  have "state (ts ! nat ((cur + 1 + e) mod n)) \<noteq> TASK_RUNNABLE" if "0 \<le> e" "e < int d" for e
    using d(4) [of "nat e"] that by simp
  with that(2) [of "int d"] Some d show thesis by simp
qed

subsection \<open>The invariant\<close>

text \<open>
  Every slot in use has a stack in the heap of at least \<^verbatim>\<open>STACK_SIZE\<close> bytes, no two share
  one, and the pids of the slots in use are distinct and were handed out before.
\<close>

abbreviation used_slot :: "sched \<Rightarrow> nat \<Rightarrow> bool" where
  "used_slot s i \<equiv> i < MAX_TASKS \<and> state (tasks s ! i) \<noteq> TASK_UNUSED"

definition stacks_in :: "sched \<Rightarrow> (nat \<times> nat) set \<Rightarrow> bool" where
  "stacks_in s L \<longleftrightarrow>
     (\<forall>i. used_slot s i \<longrightarrow> (\<exists>k \<ge> 4096. (unat (stack_base (tasks s ! i)), k) \<in> L)) \<and>
     (\<forall>i j. used_slot s i \<and> used_slot s j \<and> i \<noteq> j \<longrightarrow> stack_base (tasks s ! i) \<noteq> stack_base (tasks s ! j))"

definition pids_ok :: "sched \<Rightarrow> bool" where
  "pids_ok s \<longleftrightarrow> 1 \<le> next_pid s \<and>
     (\<forall>i. used_slot s i \<longrightarrow> 1 \<le> pid (tasks s ! i) \<and> pid (tasks s ! i) < next_pid s) \<and>
     (\<forall>i j. used_slot s i \<and> used_slot s j \<and> i \<noteq> j \<longrightarrow> pid (tasks s ! i) \<noteq> pid (tasks s ! j))"

definition runnable_count :: "task list \<Rightarrow> nat" where
  "runnable_count ts = card {i. i < MAX_TASKS \<and> state (ts ! i) = TASK_RUNNABLE}"

definition slots_ok :: "sched \<Rightarrow> bool" where
  "slots_ok s \<longleftrightarrow> length (tasks s) = MAX_TASKS \<and> 0 \<le> task_count s \<and> task_count s \<le> int MAX_TASKS \<and>
     (\<forall>i < MAX_TASKS. task_count s \<le> int i \<longrightarrow> state (tasks s ! i) = TASK_UNUSED) \<and>
     active_tasks s = int (runnable_count (tasks s))"

definition sched_base :: "sched \<Rightarrow> bool" where
  "sched_base s \<longleftrightarrow> slots_ok s \<and> pids_ok s \<and> -1 \<le> current_task s \<and> current_task s < int MAX_TASKS \<and>
     (\<exists>L. heap_rel (heap s) L \<and> stacks_in s L)"

text \<open>
  While scheduling is enabled, the context that runs is a task, and it is runnable;
  otherwise the kernel context runs.
\<close>

definition sched_inv :: "sched \<Rightarrow> bool" where
  "sched_inv s \<longleftrightarrow> sched_base s \<and>
     (if scheduling_enabled s then runnable s (current_task s) else current_task s = -1)"

text \<open>The invariant reads of a slot only its state, stack and pid.\<close>

definition same_slots :: "sched \<Rightarrow> sched \<Rightarrow> bool" where
  "same_slots s s' \<longleftrightarrow> length (tasks s') = length (tasks s) \<and> task_count s' = task_count s \<and>
     (\<forall>i. state (tasks s' ! i) = state (tasks s ! i) \<and> stack_base (tasks s' ! i) = stack_base (tasks s ! i) \<and>
          pid (tasks s' ! i) = pid (tasks s ! i) \<and> exit_code (tasks s' ! i) = exit_code (tasks s ! i))"

lemma sched_base_cong:
  assumes "same_slots s s'" and "active_tasks s' = active_tasks s" and "next_pid s' = next_pid s"
    and "heap s' = heap s" and "-1 \<le> current_task s'" and "current_task s' < int MAX_TASKS"
  shows "sched_base s \<Longrightarrow> sched_base s'"
  using assms
  by (auto simp: sched_base_def same_slots_def slots_ok_def runnable_count_def pids_ok_def stacks_in_def)

lemma runnable_cong: "same_slots s s' \<Longrightarrow> runnable s' i \<longleftrightarrow> runnable s i"
  by (simp add: runnable_def same_slots_def)

lemma save_esp_frame [simp]:
  "task_count (save_esp e s) = task_count s" "current_task (save_esp e s) = current_task s"
  "active_tasks (save_esp e s) = active_tasks s" "heap (save_esp e s) = heap s"
  "scheduling_enabled (save_esp e s) = scheduling_enabled s" "next_pid (save_esp e s) = next_pid s"
  "need_resched (save_esp e s) = need_resched s"
  by (simp_all add: save_esp_def Let_def)

lemma update_keeps_field:
  assumes "f (g (xs ! j)) = f (xs ! j)"
  shows "f (xs[j := g (xs ! j)] ! i) = f (xs ! i)"
  using assms by (cases "j < length xs"; cases "i = j") (auto simp: list_update_beyond nth_list_update_neq)

lemma save_esp_slots: "same_slots s (save_esp e s)"
  unfolding save_esp_def same_slots_def Let_def
  by (auto intro!: update_keeps_field [where g = "\<lambda>t. t\<lparr>ctx := (ctx t)\<lparr>irq_esp := e\<rparr>\<rparr>"])

lemma save_esp_other: "int i \<noteq> current_task s \<Longrightarrow> tasks (save_esp e s) ! i = tasks s ! i"
  by (auto simp: save_esp_def Let_def nth_list_update_neq)

lemma save_esp_current:
  "0 \<le> current_task s \<Longrightarrow> current_task s < int (length (tasks s)) \<Longrightarrow>
   irq_esp (ctx (tasks (save_esp e s) ! nat (current_task s))) = e"
  by (simp add: save_esp_def Let_def)

lemma active_runnable:
  assumes "slots_ok s"
  shows "active_tasks s \<noteq> 0 \<longleftrightarrow> (\<exists>i. runnable s i)"
proof -
  let ?R = "{i. i < MAX_TASKS \<and> state (tasks s ! i) = TASK_RUNNABLE}"
  have "active_tasks s \<noteq> 0 \<longleftrightarrow> ?R \<noteq> {}" using assms by (simp add: slots_ok_def runnable_count_def)
  also have "\<dots> \<longleftrightarrow> (\<exists>i. runnable s i)"
  proof
    assume "?R \<noteq> {}"
    then obtain i where "i < MAX_TASKS" "state (tasks s ! i) = TASK_RUNNABLE" by auto
    with assms have "runnable s (int i)" by (force simp: slots_ok_def runnable_def not_less)
    then show "\<exists>i. runnable s i" ..
  next
    assume "\<exists>i. runnable s i"
    then obtain i where "runnable s i" ..
    with assms have "nat i \<in> ?R" by (auto simp: slots_ok_def runnable_def)
    then show "?R \<noteq> {}" by blast
  qed
  finally show ?thesis .
qed

text \<open>One rescheduling interrupt: the next runnable task in cyclic order takes over.\<close>

lemma switch_resched:
  assumes base: "sched_base s" and en: "scheduling_enabled s" "need_resched s" and act: "active_tasks s \<noteq> 0"
  obtains d j where "0 \<le> d" and "d < task_count s" and "j = (current_task s + 1 + d) mod task_count s"
    and "runnable s j" and "\<And>e. 0 \<le> e \<Longrightarrow> e < d \<Longrightarrow> \<not> runnable s ((current_task s + 1 + e) mod task_count s)"
    and "scheduler_switch_from_isr esp s =
      (irq_esp (ctx (tasks (save_esp esp s) ! nat j)), (save_esp esp s)\<lparr>need_resched := False, current_task := j\<rparr>)"
proof -
  let ?s = "save_esp esp s" and ?n = "task_count s"
  have slots: "slots_ok s" using base by (simp add: sched_base_def)
  with act obtain i where i: "runnable s i" using active_runnable by blast
  then have n: "0 < ?n" by (simp add: runnable_def)
  have st: "state (tasks ?s ! k) = state (tasks s ! k)" for k
    using save_esp_slots [of s esp] by (simp add: same_slots_def)
  show thesis
  proof (cases rule: pick_loop_cases [OF n, of "tasks ?s" "current_task s"])
    case 1
    with i st show ?thesis by (metis runnable_def)
  next
    case (2 d)
    let ?j = "(current_task s + 1 + d) mod ?n"
    have "runnable s ?j" using 2 n st by (simp add: runnable_def)
    moreover have "\<not> runnable s ((current_task s + 1 + e) mod ?n)" if "0 \<le> e" "e < d" for e
      using 2(5) [OF that] st by (simp add: runnable_def)
    moreover have "scheduler_switch_from_isr esp s =
        (irq_esp (ctx (tasks ?s ! nat ?j)), ?s\<lparr>need_resched := False, current_task := ?j\<rparr>)"
      using en act n 2(1) by (simp add: scheduler_switch_from_isr_def Let_def)
    ultimately show ?thesis using that [of d ?j] 2 by blast
  qed
qed

subsection \<open>Every operation keeps the invariant\<close>

lemma switch_inv:
  assumes base: "sched_base s" and run: "scheduling_enabled s \<Longrightarrow> \<not> need_resched s \<or> task_count s = 0 \<Longrightarrow>
    runnable s (current_task s)" and off: "\<not> scheduling_enabled s \<Longrightarrow> current_task s = -1"
  shows "sched_inv (snd (scheduler_switch_from_isr esp s))"
proof -
  have same: "same_slots s (save_esp esp s)" by (rule save_esp_slots)
  have base': "sched_base (save_esp esp s)"
    using base by (intro sched_base_cong [OF same _ _ _ _ _ base]) (simp_all add: sched_base_def)
  show ?thesis
  proof (cases "scheduling_enabled s \<and> need_resched s \<and> active_tasks s \<noteq> 0")
    case True
    then obtain j where j: "runnable s j" "snd (scheduler_switch_from_isr esp s) =
        (save_esp esp s)\<lparr>need_resched := False, current_task := j\<rparr>"
      using switch_resched [OF base, of esp] by (metis snd_conv)
    moreover have "task_count s \<le> 4" using base by (simp add: sched_base_def slots_ok_def)
    ultimately show ?thesis
      using True same base runnable_cong [OF same] unfolding sched_inv_def
      by (auto intro!: sched_base_cong [OF _ _ _ _ _ _ base] simp: same_slots_def runnable_def)
  next
    case False
    then show ?thesis
      using base base' run off same runnable_cong [OF same]
      by (auto simp: scheduler_switch_from_isr_def Let_def sched_inv_def runnable_def same_slots_def
          intro!: sched_base_cong [OF _ _ _ _ _ _ base])
  qed
qed

lemma timer_handler_frame [simp]:
  "tasks (timer_handler s) = tasks s" "task_count (timer_handler s) = task_count s"
  "current_task (timer_handler s) = current_task s" "active_tasks (timer_handler s) = active_tasks s"
  "scheduling_enabled (timer_handler s) = scheduling_enabled s" "next_pid (timer_handler s) = next_pid s"
  "heap (timer_handler s) = heap s" "kernel_ctx (timer_handler s) = kernel_ctx s"
  "need_resched s \<Longrightarrow> need_resched (timer_handler s)"
  by (auto simp: timer_handler_def scheduler_tick_def Let_def)

lemma timer_handler_slots [simp]: "same_slots s (timer_handler s)"
  by (simp add: same_slots_def)

lemma timer_handler_base: "sched_base s \<Longrightarrow> sched_base (timer_handler s)"
  by (rule sched_base_cong [of s]) (simp_all add: sched_base_def)

lemma timer_interrupt_inv:
  assumes "sched_base s" and "scheduling_enabled s \<Longrightarrow>
    (need_resched s \<and> task_count s \<noteq> 0) \<or> runnable s (current_task s)"
    and "\<not> scheduling_enabled s \<Longrightarrow> current_task s = -1"
  shows "sched_inv (snd (timer_interrupt esp s))"
  unfolding timer_interrupt_def
  using assms runnable_cong [OF timer_handler_slots]
  by (intro switch_inv timer_handler_base) (auto simp: runnable_def)

lemma sched_invD: "sched_inv s \<Longrightarrow> sched_base s"
  by (simp add: sched_inv_def)

lemma scheduler_start_inv: "sched_inv s \<Longrightarrow> sched_inv (snd (scheduler_start esp s))"
proof (cases "active_tasks s = 0")
  case False
  assume inv: "sched_inv s"
  let ?s = "s\<lparr>scheduling_enabled := True, current_task := -1, need_resched := True\<rparr>"
  have "slots_ok s" using inv by (simp add: sched_inv_def sched_base_def)
  with False have "task_count s \<noteq> 0" using active_runnable by (auto simp: runnable_def)
  moreover have "sched_base ?s"
    by (rule sched_base_cong [OF _ _ _ _ _ _ sched_invD [OF inv]]) (simp_all add: same_slots_def)
  ultimately show ?thesis
    using False timer_interrupt_inv [of ?s esp] by (simp add: scheduler_start_def)
qed (simp add: scheduler_start_def)

lemma task_yield_inv: "sched_inv s \<Longrightarrow> sched_inv (snd (task_yield esp s))"
proof -
  assume inv: "sched_inv s"
  have "sched_base (s\<lparr>need_resched := True\<rparr>)"
    using inv by (intro sched_base_cong [OF _ _ _ _ _ _ sched_invD [OF inv]])
      (auto simp: same_slots_def sched_inv_def sched_base_def)
  then show ?thesis
    using inv timer_interrupt_inv [of "s\<lparr>need_resched := True\<rparr>" esp] by (auto simp: task_yield_def)
qed

text \<open>A slot changes state: the count of runnable tasks follows.\<close>

lemma runnable_count_update:
  assumes "length ts = MAX_TASKS" and "i < MAX_TASKS"
  shows "runnable_count (ts[i := t]) + (if state (ts ! i) = TASK_RUNNABLE then 1 else 0) =
    runnable_count ts + (if state t = TASK_RUNNABLE then 1 else 0)"
proof -
  let ?R = "\<lambda>ts. {j. j < MAX_TASKS \<and> state (ts ! j) = TASK_RUNNABLE}"
  have split: "card (?R us) = card (?R us - {i}) + (if state (us ! i) = TASK_RUNNABLE then 1 else 0)" for us
    using assms(2) card.remove [of "?R us" i] by auto
  have "?R (ts[i := t]) - {i} = ?R ts - {i}" by (auto simp: nth_list_update)
  with split [of "ts[i := t]"] split [of ts] show ?thesis
    using assms by (simp only: runnable_count_def nth_list_update_eq)
qed

definition mark_zombie :: "int \<Rightarrow> sched \<Rightarrow> sched" where
  "mark_zombie code s = (let i = nat (current_task s) in
     s\<lparr>tasks := (tasks s)[i := (tasks s ! i)\<lparr>state := TASK_ZOMBIE, exit_code := code\<rparr>],
       active_tasks := active_tasks s - 1, need_resched := True\<rparr>)"

lemma scheduler_exit_zombie:
  assumes inv: "sched_inv s" and on: "scheduling_enabled s"
  shows "scheduler_exit code esp s = Some (timer_interrupt esp (mark_zombie code s))"
    and "sched_base (mark_zombie code s)" and "0 < task_count s"
proof -
  let ?i = "nat (current_task s)" and ?ts = "tasks s"
  have base: "sched_base s" and run: "runnable s (current_task s)" using inv on by (simp_all add: sched_inv_def)
  then have cur: "0 \<le> current_task s" "?i < MAX_TASKS" "state (?ts ! ?i) = TASK_RUNNABLE"
    and len: "length ?ts = MAX_TASKS" and act: "active_tasks s = int (runnable_count ?ts)"
    by (auto simp: sched_base_def slots_ok_def runnable_def)
  show tc: "0 < task_count s" using run by (simp add: runnable_def)
  have act': "active_tasks s = int (runnable_count
      (?ts[?i := (?ts ! ?i)\<lparr>state := TASK_ZOMBIE, exit_code := code\<rparr>])) + 1"
    using act runnable_count_update [OF len cur(2), of "(?ts ! ?i)\<lparr>state := TASK_ZOMBIE, exit_code := code\<rparr>"]
      cur(3) by simp
  let ?s = "mark_zombie code s"
  have "slots_ok ?s"
    using base cur len act' unfolding sched_base_def slots_ok_def mark_zombie_def Let_def
    by (auto simp: nth_list_update)
  moreover have "pids_ok ?s" "\<And>L. stacks_in s L \<Longrightarrow> stacks_in ?s L"
    using base cur len unfolding sched_base_def pids_ok_def stacks_in_def mark_zombie_def Let_def
    by (auto simp: nth_list_update)
  ultimately show "sched_base ?s" using base unfolding sched_base_def by (auto simp: mark_zombie_def Let_def)
  show "scheduler_exit code esp s = Some (timer_interrupt esp ?s)"
    using on cur act' tc by (simp add: scheduler_exit_def Let_def mark_zombie_def)
qed

lemma scheduler_exit_inv:
  assumes inv: "sched_inv s"
  shows "\<exists>e s'. scheduler_exit code esp s = Some (e, s') \<and> sched_inv s'"
proof (cases "scheduling_enabled s")
  case True
  note z = scheduler_exit_zombie(1,2) [OF inv True, of code] scheduler_exit_zombie(3) [OF inv True]
  have "sched_inv (snd (timer_interrupt esp (mark_zombie code s)))"
    using z(3) True by (intro timer_interrupt_inv z(2)) (simp_all add: mark_zombie_def Let_def)
  then show ?thesis using z(1) [of esp] by (cases "timer_interrupt esp (mark_zombie code s)") auto
qed (use inv in \<open>auto simp: scheduler_exit_def\<close>)

lemma find_slot_Some:
  "find_slot ts i = Some j \<Longrightarrow> i \<le> j \<and> j < MAX_TASKS \<and> state (ts ! j) = TASK_UNUSED \<and>
     (\<forall>k. i \<le> k \<and> k < j \<longrightarrow> state (ts ! k) \<noteq> TASK_UNUSED)"
proof (induction ts i rule: find_slot.induct)
  case (1 ts i)
  show ?case
  proof (cases "i < MAX_TASKS \<and> state (ts ! i) \<noteq> TASK_UNUSED")
    case True
    with "1.prems" have "find_slot ts (Suc i) = Some j" by (subst (asm) find_slot.simps) simp
    with "1.IH" True show ?thesis by (metis Suc_leD le_antisym not_less_eq_eq)
  next
    case False
    with "1.prems" show ?thesis by (subst (asm) find_slot.simps) (auto split: if_splits)
  qed
qed

lemma find_slot_None:
  "find_slot ts i = None \<Longrightarrow> i \<le> k \<Longrightarrow> k < MAX_TASKS \<Longrightarrow> state (ts ! k) \<noteq> TASK_UNUSED"
proof (induction ts i rule: find_slot.induct)
  case (1 ts i)
  then show ?case
    by (subst (asm) (2) find_slot.simps) (metis Suc_leI le_neq_implies_less option.distinct(1) order_le_less_trans)
qed

text \<open>The state after a task with the stack \<open>base\<close> was put into a free slot.\<close>

definition new_task :: "nat \<Rightarrow> u32 \<Rightarrow> u32 \<Rightarrow> sched \<Rightarrow> task" where
  "new_task slot e base s = (tasks s ! slot)\<lparr>ctx := (ctx (tasks s ! slot))\<lparr>irq_esp := e\<rparr>,
     stack_base := base, pid := next_pid s, exit_code := 0, state := TASK_RUNNABLE\<rparr>"

definition put_task :: "nat \<Rightarrow> task \<Rightarrow> heap_state \<Rightarrow> sched \<Rightarrow> sched" where
  "put_task slot t h s = s\<lparr>heap := h, tasks := (tasks s)[slot := t], next_pid := next_pid s + 1,
     active_tasks := active_tasks s + 1,
     task_count := (if int slot \<ge> task_count s then int slot + 1 else task_count s)\<rparr>"

lemma put_task_inv:
  assumes inv: "sched_inv s" and slot: "slot < MAX_TASKS" "state (tasks s ! slot) = TASK_UNUSED"
    and L: "heap_rel h L'" "stacks_in s L" "L' = insert (unat base, k) L" "4096 \<le> k" "(unat base, k) \<notin> L"
    and disj: "\<And>j. (unat base, j) \<notin> L"
  shows "sched_inv (put_task slot (new_task slot e base s) h s)" (is "sched_inv ?s")
proof -
  have base: "sched_base s" by (rule sched_invD [OF inv])
  then have len: "length (tasks s) = MAX_TASKS" and so: "slots_ok s" by (simp_all add: sched_base_def slots_ok_def)
  have "slots_ok ?s"
    using so slot runnable_count_update [OF len slot(1), of "new_task slot e base s"]
    unfolding slots_ok_def put_task_def new_task_def by (auto simp: nth_list_update)
  moreover have "pids_ok ?s"
    using base slot len unfolding sched_base_def pids_ok_def put_task_def new_task_def
    by (force simp: nth_list_update)
  moreover have "stacks_in ?s L'"
    using L(2,3,4) slot len disj unfolding stacks_in_def put_task_def new_task_def
    by (auto simp: nth_list_update)
  ultimately have "sched_base ?s"
    using base L(1) unfolding sched_base_def by (auto simp: put_task_def)
  moreover have "runnable ?s i" if "runnable s i" for i
    using that slot len unfolding runnable_def put_task_def new_task_def
    by (auto simp: nth_list_update)
  ultimately show ?thesis using inv by (auto simp: sched_inv_def put_task_def)
qed

text \<open>The stack bytes of the task in a slot.\<close>

definition stack_same :: "sched \<Rightarrow> sched \<Rightarrow> nat \<Rightarrow> bool" where
  "stack_same s s' i \<longleftrightarrow> stack_base (tasks s' ! i) = stack_base (tasks s ! i) \<and>
     (\<forall>x. unat (stack_base (tasks s ! i)) \<le> x \<and> x < unat (stack_base (tasks s ! i)) + 4096 \<longrightarrow>
        h_mem (heap s') (ad x) = h_mem (heap s) (ad x))"

lemma stack_sameI:
  assumes "same_payload K (h_mem (heap s)) (h_mem (heap s'))" and "(unat (stack_base (tasks s ! i)), k) \<in> K"
    and "4096 \<le> k" and "stack_base (tasks s' ! i) = stack_base (tasks s ! i)"
  shows "stack_same s s' i"
  using assms unfolding stack_same_def same_payload_def by fastforce

lemma scheduler_add_cases:
  assumes inv: "sched_inv s"
  obtains (fail) "scheduler_add entry s = Some (-1, s)"
  | (ok) slot h base where "entry \<noteq> 0" and "slot < MAX_TASKS" and "state (tasks s ! slot) = TASK_UNUSED"
      and "base \<noteq> 0" and "unat base + 4096 < 2 ^ 32"
      and "scheduler_add entry s =
        Some (next_pid s, put_task slot (new_task slot (base + 4040) base s) h s)"
      and "sched_inv (put_task slot (new_task slot (base + 4040) base s) h s)"
      and "common_stub_exit (h_mem h) (base + 4040) = initial_frame entry (base + 4096)"
      and "\<And>i. used_slot s i \<Longrightarrow> stack_same s (put_task slot (new_task slot (base + 4040) base s) h s) i"
proof (cases "entry = 0 \<or> find_slot (tasks s) 0 = None")
  case True
  then show ?thesis using fail by (auto simp: scheduler_add_def)
next
  case False
  then obtain slot where fs: "find_slot (tasks s) 0 = Some slot" and entry: "entry \<noteq> 0" by auto
  from find_slot_Some [OF fs] have slot: "slot < MAX_TASKS" "state (tasks s ! slot) = TASK_UNUSED" by auto
  obtain L where L: "heap_rel (heap s) L" "stacks_in s L" using inv by (auto simp: sched_inv_def sched_base_def)
  have n: "0 < unat STACK_SIZE" "unat STACK_SIZE \<le> 2 ^ 32 - 8" by simp_all
  show ?thesis
  proof (cases rule: heap.malloc_cases [OF L(1) n])
    case 1
    then have "scheduler_add entry s = Some (-1, s)" using fs entry by (simp add: scheduler_add_def)
    then show ?thesis by (rule fail)
  next
    case (2 base h k)
    have rng: "unat base + k < 2 ^ 32" "4096 \<le> k" using heap.live_range [OF 2(5)] 2(3) by auto
    then have top: "base + 4096 = ad (unat base + 4096)" "base + 4040 = ad (unat base + 4096 - 56)"
      by (simp_all add: ad_def)
    obtain c m where init: "task_context_init (Some (ctx (tasks s ! slot))) entry (base + 4096) (h_mem h) = (c, m)"
      by (cases "task_context_init (Some (ctx (tasks s ! slot))) entry (base + 4096) (h_mem h)")
    have le: "56 \<le> unat base + 4096" "unat base + 4096 < 2 ^ 32" using rng by linarith+
    note fr = task_context_init_frame [OF le init [unfolded top(1)]]
    have out: "same_outside (unat base) k (h_mem h) m"
      using fr(3) rng unfolding same_outside_def by auto
    let ?h = "h\<lparr>h_mem := m\<rparr>"
    let ?s = "put_task slot (new_task slot (base + 4040) base s) ?h s"
    have rel: "heap_rel ?h (insert (unat base, k) L)"
      using heap.write_ok [OF 2(5) _ out] by simp
    have fresh: "(unat base, j) \<notin> L" for j
      using heap.live_disjoint [OF 2(5), of "unat base" k "unat base" j] 2(4) rng(2)
        heap.live_range [OF L(1), of "unat base" j] by auto
    have add: "scheduler_add entry s = Some (next_pid s, ?s)"
      using fs entry 2(1,2) init fr(1) top
      by (simp add: scheduler_add_def put_task_def new_task_def Let_def)
    have inv': "sched_inv ?s"
      using put_task_inv [OF inv slot rel L(2) refl rng(2) 2(4) fresh] .
    have frame: "common_stub_exit (h_mem ?h) (base + 4040) = initial_frame entry (base + 4096)"
      using fr(2) top by simp
    have "same_payload L (h_mem h) m"
      using heap.write_other [OF 2(5) _ out] 2(4) by simp
    with 2(6) have keep: "same_payload L (h_mem (heap s)) (h_mem (heap ?s))"
      unfolding put_task_def by (auto intro: same_payload_trans)
    have "stack_same s ?s i" if "used_slot s i" for i
    proof -
      from L(2) that obtain j where "(unat (stack_base (tasks s ! i)), j) \<in> L" "4096 \<le> j"
        unfolding stacks_in_def by blast
      moreover have "i \<noteq> slot" using that slot by auto
      ultimately show ?thesis by (intro stack_sameI [OF keep]) (simp_all add: put_task_def)
    qed
    from ok [OF entry slot 2(2) le(2) add inv' frame this] show ?thesis .
  qed
qed

lemma find_zombie_Some:
  "find_zombie ts n p i = Some j \<Longrightarrow> i \<le> j \<and> j < n \<and> pid (ts ! nat j) = p \<and> state (ts ! nat j) = TASK_ZOMBIE"
proof (induction ts n p i rule: find_zombie.induct)
  case (1 ts n p i)
  then show ?case by (subst (asm) (2) find_zombie.simps) (force split: if_splits)
qed

lemma find_zombie_None:
  "find_zombie ts n p i = None \<Longrightarrow> i \<le> k \<Longrightarrow> k < n \<Longrightarrow> \<not> (pid (ts ! nat k) = p \<and> state (ts ! nat k) = TASK_ZOMBIE)"
proof (induction ts n p i rule: find_zombie.induct)
  case (1 ts n p i)
  then show ?case
    by (subst (asm) (2) find_zombie.simps) (metis le_less option.distinct(1) order_less_trans zless_imp_add1_zle)
qed

text \<open>The state after the zombie in a slot was reaped.\<close>

definition reap :: "nat \<Rightarrow> heap_state \<Rightarrow> sched \<Rightarrow> sched" where
  "reap i h s = s\<lparr>heap := h, tasks := (tasks s)[i := (tasks s ! i)\<lparr>stack_base := 0, state := TASK_UNUSED\<rparr>]\<rparr>"

lemma scheduler_wait_cases:
  assumes inv: "sched_inv s"
  obtains (none) "scheduler_wait p want s = Some (-1, None, s)"
      and "\<And>i. i < MAX_TASKS \<Longrightarrow> \<not> (pid (tasks s ! i) = p \<and> state (tasks s ! i) = TASK_ZOMBIE)"
  | (reaped) i h where "i < MAX_TASKS" and "pid (tasks s ! i) = p" and "state (tasks s ! i) = TASK_ZOMBIE"
      and "scheduler_wait p want s = Some (0, if want then Some (exit_code (tasks s ! i)) else None, reap i h s)"
      and "sched_inv (reap i h s)"
      and "\<And>j. used_slot s j \<Longrightarrow> j \<noteq> i \<Longrightarrow> stack_same s (reap i h s) j"
proof (cases "find_zombie (tasks s) (task_count s) p 0")
  case None
  have so: "slots_ok s" using inv by (simp add: sched_inv_def sched_base_def)
  have "\<not> (pid (tasks s ! i) = p \<and> state (tasks s ! i) = TASK_ZOMBIE)" if "i < MAX_TASKS" for i
  proof (cases "int i < task_count s")
    case True
    with find_zombie_None [OF None, of "int i"] show ?thesis by simp
  next
    case False
    with so that show ?thesis by (auto simp: slots_ok_def)
  qed
  with none None show ?thesis by (simp add: scheduler_wait_def)
next
  case (Some z)
  obtain L where L: "heap_rel (heap s) L" "stacks_in s L" and so: "slots_ok s" and base: "sched_base s"
    using inv by (auto simp: sched_inv_def sched_base_def)
  let ?i = "nat z"
  let ?t = "tasks s ! ?i"
  from find_zombie_Some [OF Some] have z: "0 \<le> z" "z < task_count s" "pid ?t = p" "state ?t = TASK_ZOMBIE" by auto
  with so have i: "?i < MAX_TASKS" "length (tasks s) = MAX_TASKS" by (auto simp: slots_ok_def)
  have used: "used_slot s ?i" using i z by simp
  then obtain k where k: "(unat (stack_base ?t), k) \<in> L" "4096 \<le> k"
    using L(2) unfolding stacks_in_def by blast
  then have nz: "stack_base ?t \<noteq> 0" using heap.live_range [OF L(1) k(1)] by auto
  from heap.free_ok [OF L(1) k(1)] obtain h where h: "kfree (stack_base ?t) (heap s) = Some h"
    "heap_rel h (L - {(unat (stack_base ?t), k)})"
    "same_payload (L - {(unat (stack_base ?t), k)}) (h_mem (heap s)) (h_mem h)" by blast
  have other: "\<exists>k' \<ge> 4096. (unat (stack_base (tasks s ! j)), k') \<in> L - {(unat (stack_base ?t), k)}"
    if "used_slot s j" "j \<noteq> ?i" for j
  proof -
    from L(2) that(1) obtain k' where "(unat (stack_base (tasks s ! j)), k') \<in> L" "4096 \<le> k'"
      unfolding stacks_in_def by blast
    moreover have "stack_base (tasks s ! j) \<noteq> stack_base ?t"
      using L(2) that used unfolding stacks_in_def by blast
    ultimately show ?thesis by (auto simp: word_unat_eq_iff)
  qed
  let ?s = "reap ?i h s"
  have wait: "scheduler_wait p want s = Some (0, if want then Some (exit_code ?t) else None, ?s)"
    using Some nz h(1) by (simp add: scheduler_wait_def reap_def Let_def)
  have "slots_ok ?s"
    using so i z(4) runnable_count_update [OF i(2,1), of "?t\<lparr>stack_base := 0, state := TASK_UNUSED\<rparr>"]
    unfolding slots_ok_def reap_def by (auto simp: nth_list_update)
  moreover have "pids_ok ?s"
    using base i unfolding sched_base_def pids_ok_def reap_def by (auto simp: nth_list_update)
  moreover have "stacks_in ?s (L - {(unat (stack_base ?t), k)})"
    using L(2) i other unfolding stacks_in_def reap_def by (auto simp: nth_list_update)
  moreover have "runnable ?s j \<longleftrightarrow> runnable s j" for j
    using i z(4) unfolding runnable_def reap_def by (auto simp: nth_list_update)
  ultimately have inv': "sched_inv ?s"
    using inv h(2) unfolding sched_inv_def sched_base_def by (auto simp: reap_def)
  have "stack_same s ?s j" if j: "used_slot s j" "j \<noteq> ?i" for j
  proof -
    from other [OF j] obtain k' where "4096 \<le> k'"
      "(unat (stack_base (tasks s ! j)), k') \<in> L - {(unat (stack_base ?t), k)}" by blast
    with j h(3) show ?thesis
      by (intro stack_sameI [where K = "L - {(unat (stack_base ?t), k)}"]) (simp_all add: reap_def)
  qed
  from reaped [OF i(1) z(3,4) wait inv' this] show ?thesis .
qed

end
