(* ===== verification/Heap_Properties.thy ===== *)
theory Heap_Properties
  imports Kernel_Heap
begin

text \<open>
  What the kernel heap guarantees to its clients: the contract of \<^verbatim>\<open>kmalloc\<close> and
  \<^verbatim>\<open>kfree\<close>, the heap after \<^verbatim>\<open>heap_init\<close>, the runs of a well-behaved client as a step
  relation, the totals of \<^verbatim>\<open>heap_stats\<close>, and the requests whose rounding wraps.
\<close>

subsection \<open>Initialisation\<close>

lemma heap_init_inv:
  assumes "start \<noteq> 0" and "12 < unat sz" and "unat start + unat sz < 2 ^ 32"
  shows "heap_inv (heap_init start sz s) [\<lparr>b_addr = unat start, b_size = unat sz - 12, b_free = True\<rparr>]"
proof -
  have "unat (start + sz) = unat start + unat sz" using assms(3) by (simp add: unat_plus_no_wrap)
  moreover have "sz - 12 = of_nat (unat sz - 12)" using assms(2) by (simp add: of_nat_diff)
  ultimately have "heap_inv (heap_init (ad (unat start)) sz s)
     [\<lparr>b_addr = unat start, b_size = unat sz - 12, b_free = True\<rparr>]"
    using assms unfolding heap_init_def heap_inv_def
    by (simp add: header_def next_addr_def load32_store32_ad ad_zero del: ad_unat) simp
  then show ?thesis by simp
qed

text \<open>A heap with nothing in use is one free block.\<close>

lemma coalesced_all_free:
  assumes "coalesced bs" and "\<forall>b \<in> set bs. b_free b" and "bs \<noteq> []"
  shows "\<exists>b. bs = [b]"
  using assms by (cases bs rule: coalesced.cases) auto

lemma heap_inv_unused:
  assumes "heap_inv s bs" and "live bs = {}"
  shows "bs = [\<lparr>b_addr = unat (heap_start s), b_size = unat (heap_end s) - unat (heap_start s) - 12,
                b_free = True\<rparr>]"
proof -
  note I = heap_invD [OF assms(1)]
  have free: "\<forall>b \<in> set bs. b_free b" using assms(2) by (auto simp: live_def)
  then obtain b where b: "bs = [b]" using coalesced_all_free [OF I(6) _ I(1)] by blast
  with I(4) free show ?thesis by (cases b) auto
qed

subsection \<open>The runs of a client\<close>

text \<open>
  A client allocates, frees what it holds, and writes into the blocks it holds; the second
  component is the set of blocks it holds.
\<close>

inductive heap_run :: "heap_state \<Rightarrow> (nat \<times> nat) set \<Rightarrow> bool" where
  run_init: "start \<noteq> 0 \<Longrightarrow> 12 < unat sz \<Longrightarrow> unat start + unat sz < 2 ^ 32 \<Longrightarrow>
     heap_run (heap_init start sz s) {}"
| run_fail: "heap_run s L \<Longrightarrow> kmalloc n s = Some (0, s') \<Longrightarrow> heap_run s' L"
| run_alloc: "heap_run s L \<Longrightarrow> 0 < unat n \<Longrightarrow> unat n \<le> 2 ^ 32 - 8 \<Longrightarrow> kmalloc n s = Some (p, s') \<Longrightarrow>
     p \<noteq> 0 \<Longrightarrow> k = unat (blk_size (h_mem s') (p - 12)) \<Longrightarrow> heap_run s' (insert (unat p, k) L)"
| run_free: "heap_run s L \<Longrightarrow> (unat p, k) \<in> L \<Longrightarrow> kfree p s = Some s' \<Longrightarrow>
     heap_run s' (L - {(unat p, k)})"
| run_write: "heap_run s L \<Longrightarrow> (p, k) \<in> L \<Longrightarrow> p \<le> x \<Longrightarrow> x < p + k \<Longrightarrow>
     heap_run (s\<lparr>h_mem := store8 (h_mem s) (ad x) v\<rparr>) L"

inductive_cases heap_runE: "heap_run s L"

text \<open>The header in front of a block in use records its size.\<close>

lemma chain_mem_size: "chain m bs \<Longrightarrow> b \<in> set bs \<Longrightarrow> load32 m (ad (b_addr b)) = of_nat (b_size b)"
  by (induction bs) (auto simp: header_def)

lemma heap_inv_block_size:
  assumes inv: "heap_inv s bs" and "(p, k) \<in> live bs"
  shows "unat (blk_size (h_mem s) (ad p - 12)) = k"
proof -
  obtain b where b: "b \<in> set bs" "p = b_addr b + 12" "k = b_size b"
    using assms(2) by (auto simp: live_def)
  have "ad p - 12 = ad (b_addr b)" using ad_minus [of 12 p] b by simp
  moreover have "b_size b < 2 ^ 32"
    using tiles_mem [OF heap_invD(4) [OF inv] b(1)] heap_invD(8) [OF inv] by linarith
  ultimately show ?thesis
    using chain_mem_size [OF heap_invD(5) [OF inv] b(1)] b(3) by (simp add: unat_of_nat_small)
qed

lemma store8_outside:
  "p \<le> x \<Longrightarrow> x < p + k \<Longrightarrow> p + k \<le> 2 ^ 32 \<Longrightarrow> same_outside p k m (store8 m (ad x) v)"
  by (auto simp: same_outside_def store8_def ad_inj)

lemma kmalloc_null: "heap_inv s bs \<Longrightarrow> kmalloc n s = Some (0, s') \<Longrightarrow> s' = s"
proof (cases "n = 0")
  case False
  assume inv: "heap_inv s bs" and km: "kmalloc n s = Some (0, s')"
  show ?thesis
  proof (cases "first_fit (unat (align8 n)) bs")
    case (Some r)
    then obtain p bs' where ff: "first_fit (unat (align8 n)) bs = Some (p, bs')" by (cases r) auto
    from first_fit_live [OF heap_invD(4) [OF inv] ff]
    have "0 < p" "p < 2 ^ 32" using heap_invD(8) [OF inv] by linarith+
    moreover have "ad p = 0" using kmalloc_first_fit [OF inv False] ff km by auto
    ultimately show ?thesis by (simp add: ad_eq_zero)
  qed (use kmalloc_first_fit [OF inv False] km in simp)
qed (simp add: kmalloc_def)

lemma heap_run_rel: "heap_run s L \<Longrightarrow> heap_rel s L"
proof (induction rule: heap_run.induct)
  case (run_init start sz s)
  from heap_init_inv [OF this] show ?case by (fastforce simp: heap_rel_def live_def)
next
  case (run_fail s L n s')
  then show ?case by (metis heap_rel_def kmalloc_null)
next
  case (run_alloc s L n p s' k)
  from heap.malloc_cases [OF run_alloc.IH run_alloc.hyps(2,3)] run_alloc.hyps(4,5)
  obtain j where j: "heap_rel s' (insert (unat p, j) L)" by (metis Pair_inject option.inject)
  then obtain bs where bs: "heap_inv s' bs" "live bs = insert (unat p, j) L"
    by (auto simp: heap_rel_def)
  have "k = j" using heap_inv_block_size [OF bs(1), of "unat p" j] bs(2) run_alloc.hyps(6) by simp
  with j show ?case by simp
next
  case (run_free s L p k s')
  from heap.free_ok [OF run_free.IH run_free.hyps(2)] run_free.hyps(3) show ?case by auto
next
  case (run_write s L p k x v)
  then have "same_outside p k (h_mem s) (store8 (h_mem s) (ad x) v)"
    using heap.live_range [OF run_write.IH run_write.hyps(2)] by (intro store8_outside) simp_all
  from heap.write_ok [OF run_write.IH run_write.hyps(2) this] show ?case .
qed

subsection \<open>Statistics\<close>

definition used_bytes :: "block list \<Rightarrow> nat" where
  "used_bytes bs = sum_list (map b_size (filter (\<lambda>b. \<not> b_free b) bs))"

definition free_bytes :: "block list \<Rightarrow> nat" where
  "free_bytes bs = sum_list (map b_size (filter b_free bs))"

lemma heap_stats_loop_chain:
  assumes "chain m bs" and "tiles lo bs hi" and "0 < lo" and "hi < 2 ^ 32"
  shows "heap_stats_loop m (ad (next_addr bs)) (u, f, c, d) =
    Some (u + of_nat (used_bytes bs), f + of_nat (free_bytes bs), c + of_nat (length bs),
      d + of_nat (length (filter b_free bs)))"
  using assms(1-3)
proof (induction bs arbitrary: lo u f c d)
  case Nil
  then show ?case
    by (subst heap_stats_loop.simps) (simp add: next_addr_def ad_zero used_bytes_def free_bytes_def)
next
  case (Cons b bs)
  have b: "b_addr b = lo" and hd: "header m b (next_addr bs)" and ch: "chain m bs"
    and ti: "tiles (lo + 12 + b_size b) bs hi" using Cons.prems by simp_all
  have sz: "lo + 12 + b_size b < 2 ^ 32" using tiles_le [OF ti] assms(4) by linarith
  then have nz: "ad lo \<noteq> 0" using Cons.prems(3) by (simp add: ad_eq_zero)
  from hd sz b have fields: "load32 m (ad lo) = of_nat (b_size b)"
    "load32 m (ad (lo + 4)) = ad (next_addr bs)" "load32 m (ad (lo + 8)) = 0 \<longleftrightarrow> \<not> b_free b"
    by (auto simp: header_def)
  have pos: "0 < lo + 12 + b_size b" by simp
  note IH = Cons.IH [OF ch ti pos]
  have at: "ad (next_addr (b # bs)) = ad lo" using b by (simp add: next_addr_def)
  show ?case unfolding at
    by (subst heap_stats_loop.simps) (simp add: nz fields IH used_bytes_def free_bytes_def)
qed

lemma live_finite [simp]: "finite (live bs)"
  by (induction bs) (auto simp: live_Cons)

lemma used_bytes_live: "tiles lo bs hi \<Longrightarrow> (\<Sum>(p, k) \<in> live bs. k) = used_bytes bs"
  and free_blocks_live: "tiles lo bs hi \<Longrightarrow> card (live bs) + length (filter b_free bs) = length bs"
  and bytes_total: "tiles lo bs hi \<Longrightarrow> lo + used_bytes bs + free_bytes bs + 12 * length bs = hi"
proof (induction bs arbitrary: lo)
  case (Cons b bs)
  {
    case 1
    then have ti: "tiles (lo + 12 + b_size b) bs hi" and b: "b_addr b = lo" by simp_all
    have "(lo + 12, b_size b) \<notin> live bs" using live_addr [OF ti] by fastforce
    with Cons.IH(1) [OF ti] b show ?case by (simp add: live_Cons used_bytes_def)
  next
    case 2
    then have ti: "tiles (lo + 12 + b_size b) bs hi" and b: "b_addr b = lo" by simp_all
    have "(lo + 12, b_size b) \<notin> live bs" using live_addr [OF ti] by fastforce
    with Cons.IH(2) [OF ti] b show ?case by (simp add: live_Cons)
  next
    case 3
    then have ti: "tiles (lo + 12 + b_size b) bs hi" by simp
    from Cons.IH(3) [OF ti] show ?case by (simp add: used_bytes_def free_bytes_def)
  }
qed (simp_all add: used_bytes_def free_bytes_def)

subsection \<open>Properties\<close>

lemma kmalloc_fail_small:
  assumes inv: "heap_inv s bs" and n: "0 < unat n" "unat n \<le> 2 ^ 32 - 8"
    and km: "kmalloc n s = Some (0, s)" and b: "b \<in> set bs" "b_free b"
  shows "b_size b < (unat n + 7) div 8 * 8"
proof (cases "first_fit (unat (align8 n)) bs")
  case None
  from first_fit_None [OF this b] unat_align8 [OF n(2)] show ?thesis by simp
next
  case (Some r)
  then obtain p bs' where ff: "first_fit (unat (align8 n)) bs = Some (p, bs')" by (cases r) auto
  obtain s' where "kmalloc n s = Some (ad p, s')" "ad p \<noteq> 0"
    using kmalloc_keeps_inv [OF inv n ff] by blast
  with km show ?thesis by simp
qed

lemma heap_run_inv:
  assumes "heap_run s L"
  obtains bs where "heap_inv s bs" and "live bs = L"
  using heap_run_rel [OF assms] by (auto simp: heap_rel_def)

lemma round_up_le:
  assumes "n \<le> k div 8 * 8"
  shows "(n + 7) div 8 * 8 \<le> (k :: nat)"
proof -
  have "(n + 7) div 8 \<le> (k div 8 * 8 + 7) div 8" using assms by (intro div_le_mono) simp
  also have "\<dots> = k div 8" by simp
  finally have "(n + 7) div 8 * 8 \<le> k div 8 * 8" by simp
  then show ?thesis using div_times_less_eq_dividend order_trans by blast
qed

lemma align8_wrap:
  assumes "unat sz > 2 ^ 32 - 8"
  shows "align8 sz = 0"
proof -
  have "NOT (7 :: u32) < sz" using assms by (simp add: word_less_nat_alt)
  then have "sz + 7 < 7" by uint_arith simp
  then have "unat (sz + 7) < 7" by (simp add: word_less_nat_alt)
  moreover have "(7 :: u32) = mask 3" by (simp add: mask_eq_exp_minus_1)
  ultimately have "unat (align8 sz) = 0"
    unfolding align8_def using unat_and_not_mask [of "sz + 7" 3] by simp
  then show ?thesis by (simp add: unsigned_eq_0_iff)
qed

text \<open>A small heap to run the operations on.\<close>

definition heap_demo :: heap_state where
  "heap_demo = heap_init 4096 108 \<lparr>h_mem = \<lambda>_. 0, heap_start = 0, heap_end = 0, heap_head = 0\<rparr>"

lemma heap_demo_run: "heap_run heap_demo {}"
  unfolding heap_demo_def by (rule run_init) simp_all

lemma heap_demo_bounds: "heap_start heap_demo = 4096" "heap_end heap_demo = 4204"
  by (simp_all add: heap_demo_def heap_init_def)


text \<open>
  C2. In every heap a client can reach, freeing a block in use returns, and afterwards
  exactly that block is no longer in use, the bytes of the others are unchanged, and no two
  adjacent blocks are both free.
\<close>

theorem kfree_contract:
  assumes run: "heap_run s L" and p: "(unat p, k) \<in> L"
  shows "\<exists>s' bs. kfree p s = Some s' \<and> heap_run s' (L - {(unat p, k)}) \<and> heap_inv s' bs \<and>
    live bs = L - {(unat p, k)} \<and> coalesced bs \<and>
    same_payload (L - {(unat p, k)}) (h_mem s) (h_mem s')"
proof -
  obtain s' where s': "kfree p s = Some s'"
    "same_payload (L - {(unat p, k)}) (h_mem s) (h_mem s')"
    using heap.free_ok [OF heap_run_rel [OF run] p] by blast
  note run' = run_free [OF run p s'(1)]
  obtain bs where "heap_inv s' bs" "live bs = L - {(unat p, k)}" using heap_run_inv [OF run'] by blast
  with s' run' heap_invD(6) show ?thesis by blast
qed


text \<open>
  \<^verbatim>\<open>heap_stats\<close> returns in every heap a client can reach and its totals are exact: the
  bytes in use are those of the client's blocks, used and free bytes and the headers add up
  to the heap, and the blocks that are not free are the client's.
\<close>

theorem heap_stats_exact:
  assumes run: "heap_run s L"
  shows "\<exists>u f b fb. heap_stats s = Some (u, f, b, fb) \<and> unat u = (\<Sum>(p, k) \<in> L. k) \<and>
    unat u + unat f + 12 * unat b = unat (heap_end s) - unat (heap_start s) \<and>
    unat b = card L + unat fb"
proof -
  obtain bs where inv: "heap_inv s bs" and L: "live bs = L" using heap_run_inv [OF run] by blast
  note I = heap_invD [OF inv]
  note total = bytes_total [OF I(4)]
  have "heap_stats s = Some (of_nat (used_bytes bs), of_nat (free_bytes bs), of_nat (length bs),
      of_nat (length (filter b_free bs)))"
    using heap_stats_loop_chain [OF I(5,4,2,8)] I(3) by (simp add: heap_stats_def)
  moreover have "used_bytes bs < 2 ^ 32" "free_bytes bs < 2 ^ 32" "length bs < 2 ^ 32"
    using total I(8) by linarith+
  moreover have "length (filter b_free bs) < 2 ^ 32"
    using \<open>length bs < 2 ^ 32\<close> length_filter_le [of b_free bs] by linarith
  ultimately show ?thesis
    using total used_bytes_live [OF I(4)] free_blocks_live [OF I(4)] L
    by (auto simp: unat_of_nat_small)
qed

text \<open>
  The rounding in \<^verbatim>\<open>align8\<close> wraps for the seven largest requests: on a fresh heap
  \<^verbatim>\<open>kmalloc\<close> answers a request for more than 4 gigabytes less seven bytes with a pointer
  into the heap, to a block of size 0, instead of null.
\<close>

theorem kmalloc_wraps:
  assumes n: "unat n > 2 ^ 32 - 8"
    and "start \<noteq> 0" and "32 < unat sz" and "unat start + unat sz < 2 ^ 32"
  shows "\<exists>s'. kmalloc n (heap_init start sz s) = Some (start + 12, s') \<and>
    blk_size (h_mem s') start = 0"
proof -
  let ?s = "heap_init start sz s"
  let ?b = "\<lparr>b_addr = unat start, b_size = unat sz - 12, b_free = True\<rparr>"
  let ?rest = "[\<lparr>b_addr = unat start + 12, b_size = unat sz - 24, b_free = True\<rparr>]"
  have inv: "heap_inv ?s [?b]" using assms by (intro heap_init_inv) simp_all
  have "n \<noteq> 0" using n by auto
  moreover have "first_fit (unat (align8 n)) [?b] =
      Some (unat start + 12, ?b\<lparr>b_size := 0, b_free := False\<rparr> # ?rest)"
    using assms(3) align8_wrap [OF n] by simp
  ultimately obtain m' where "kmalloc n ?s = Some (ad (unat start + 12), ?s\<lparr>h_mem := m'\<rparr>)"
    "chain m' (?b\<lparr>b_size := 0, b_free := False\<rparr> # ?rest)"
    using kmalloc_first_fit [OF inv, of n] by auto
  moreover have "ad (unat start + 12) = start + 12" by (simp add: ad_def)
  ultimately show ?thesis by (auto simp: header_def)
qed


text \<open>The same heap with one block of 32 bytes in use.\<close>

lemma heap_demo_block:
  obtains s where "kmalloc 32 heap_demo = Some (4108, s)" and "heap_run s {(4108, 32)}"
proof -
  let ?s = "\<lparr>h_mem = \<lambda>_. 0, heap_start = 0, heap_end = 0, heap_head = 0\<rparr>"
  let ?b = "\<lparr>b_addr = 4096, b_size = 96, b_free = True\<rparr>"
  have inv: "heap_inv heap_demo [?b]"
    using heap_init_inv [of 4096 108 ?s] unfolding heap_demo_def by simp
  have al: "unat (align8 32) = 32" by (simp add: unat_align8)
  then obtain m where m: "kmalloc 32 heap_demo = Some (ad 4108, heap_demo\<lparr>h_mem := m\<rparr>)"
    "chain m [?b\<lparr>b_size := 32, b_free := False\<rparr>, \<lparr>b_addr = 4140, b_size = 52, b_free = True\<rparr>]"
    using kmalloc_first_fit [OF inv, of 32] by auto
  have at: "ad 4108 = 4108" "ad 4096 = 4096" by (simp_all add: ad_def)
  have "heap_run (heap_demo\<lparr>h_mem := m\<rparr>) (insert (unat (4108 :: u32), 32) {})"
    by (rule run_alloc [OF heap_demo_run, of 32]) (use m at in \<open>simp_all add: header_def\<close>)
  with m at that show thesis by simp
qed

theorem kfree_contract_witness:
  "\<exists>s. heap_run s {(4108, 32)} \<and> (\<exists>s' bs. kfree 4108 s = Some s' \<and>
     heap_run s' ({(4108, 32)} - {(4108, 32)}) \<and> heap_inv s' bs \<and>
     live bs = {(4108, 32)} - {(4108, 32)} \<and> coalesced bs \<and>
     same_payload ({(4108, 32)} - {(4108, 32)}) (h_mem s) (h_mem s'))"
proof -
  obtain s where "heap_run s {(4108, 32)}" using heap_demo_block by blast
  with kfree_contract [OF this, of 4108 32] show ?thesis by auto
qed


theorem heap_stats_exact_witness:
  "\<exists>s u f b fb. heap_run s {(4108, 32)} \<and> heap_stats s = Some (u, f, b, fb) \<and> unat u = 32 \<and>
     unat b = 1 + unat fb"
proof -
  obtain s where "heap_run s {(4108, 32)}" using heap_demo_block by blast
  with heap_stats_exact [OF this] show ?thesis by fastforce
qed

theorem kmalloc_wraps_witness:
  "\<exists>s'. kmalloc 4294967295 heap_demo = Some (4108, s') \<and> blk_size (h_mem s') 4096 = 0"
  using kmalloc_wraps [of 4294967295 4096 108] unfolding heap_demo_def by simp

end
