(* ===== verification/Scheduler_Properties.thy ===== *)
theory Scheduler_Properties
  imports Scheduler Heap_Properties
begin

text \<open>
  The scheduler as a transition system: the operations of \<^verbatim>\<open>scheduler.c\<close> and the computation
  of the running context, the invariant of its reachable states, and what a task can rely
  on: its stack is its own, it gets its turn, its context comes back as it was saved.
\<close>

subsection \<open>Steps\<close>

text \<open>
  Between two operations the running context computes: it may use the heap and write to
  memory, within the contract of the heap and outside the stacks of the other tasks.
\<close>

inductive sched_step :: "sched \<Rightarrow> sched \<Rightarrow> bool" where
  step_add: "scheduler_add entry s = Some (r, s') \<Longrightarrow> sched_step s s'"
| step_start: "scheduler_start esp s = (e, s') \<Longrightarrow> current_task s = -1 \<Longrightarrow> sched_step s s'"
| step_timer: "timer_interrupt esp s = (e, s') \<Longrightarrow> sched_step s s'"
| step_yield: "task_yield esp s = (e, s') \<Longrightarrow> sched_step s s'"
| step_exit: "scheduler_exit code esp s = Some (e, s') \<Longrightarrow> sched_step s s'"
| step_wait: "scheduler_wait p want s = Some (r, out, s') \<Longrightarrow> sched_step s s'"
| step_run: "heap_rel h L \<Longrightarrow> stacks_in s L \<Longrightarrow>
    (\<And>i. used_slot s i \<Longrightarrow> int i \<noteq> current_task s \<Longrightarrow> stack_same s (s\<lparr>heap := h\<rparr>) i) \<Longrightarrow>
    sched_step s (s\<lparr>heap := h\<rparr>)"

inductive sched_reach :: "sched \<Rightarrow> bool" where
  reach_init: "heap_run (heap s) L \<Longrightarrow> length (tasks s) = MAX_TASKS \<Longrightarrow> sched_reach (scheduler_init s)"
| reach_step: "sched_reach s \<Longrightarrow> sched_step s s' \<Longrightarrow> sched_reach s'"

lemma scheduler_init_inv:
  assumes "heap_run (heap s) L" and "length (tasks s) = MAX_TASKS"
  shows "sched_inv (scheduler_init s)"
proof -
  have "\<not> used_slot (scheduler_init s) i" for i
    using assms(2) by (auto simp: scheduler_init_def reset_task_def)
  moreover from this have "runnable_count (tasks (scheduler_init s)) = 0"
    unfolding runnable_count_def by (auto simp: card_eq_0_iff)
  ultimately have "sched_base (scheduler_init s)"
    using assms(2) heap_run_rel [OF assms(1)]
    unfolding sched_base_def slots_ok_def pids_ok_def stacks_in_def
    by (auto simp: scheduler_init_def)
  then show ?thesis by (simp add: sched_inv_def scheduler_init_def)
qed

lemma sched_step_inv: "sched_step s s' \<Longrightarrow> sched_inv s \<Longrightarrow> sched_inv s'"
proof (induction rule: sched_step.induct)
  case (step_add entry s r s')
  then show ?case using scheduler_add_cases [of s entry] by (metis Pair_inject option.inject)
next
  case (step_start esp s e s')
  then show ?case using scheduler_start_inv [of s esp] by simp
next
  case (step_timer esp s e s')
  then show ?case using timer_interrupt_inv [of s esp] by (auto simp: sched_inv_def split: if_splits)
next
  case (step_yield esp s e s')
  then show ?case using task_yield_inv [of s esp] by simp
next
  case (step_exit code esp s e s')
  then show ?case using scheduler_exit_inv [of s code esp] by auto
next
  case (step_wait p want s r out s')
  then show ?case using scheduler_wait_cases [of s p want] by (metis Pair_inject option.inject)
next
  case (step_run h L s)
  then show ?case
    unfolding sched_inv_def sched_base_def slots_ok_def pids_ok_def stacks_in_def runnable_def by auto
qed

lemma sched_reach_inv: "sched_reach s \<Longrightarrow> sched_inv s"
  by (induction rule: sched_reach.induct) (auto intro: scheduler_init_inv sched_step_inv)

subsection \<open>A parked task\<close>

text \<open>A runnable task that is not running keeps its context and its stack.\<close>

definition parked :: "nat \<Rightarrow> sched \<Rightarrow> sched \<Rightarrow> bool" where
  "parked i s s' \<longleftrightarrow> runnable s' (int i) \<and> ctx (tasks s' ! i) = ctx (tasks s ! i) \<and> stack_same s s' i"

lemma stack_same_trans: "stack_same s s1 i \<Longrightarrow> stack_same s1 s2 i \<Longrightarrow> stack_same s s2 i"
  by (simp add: stack_same_def)

lemma switch_frame:
  "int i \<noteq> current_task s \<Longrightarrow> tasks (snd (scheduler_switch_from_isr esp s)) ! i = tasks s ! i"
  "task_count (snd (scheduler_switch_from_isr esp s)) = task_count s"
  "heap (snd (scheduler_switch_from_isr esp s)) = heap s"
  by (auto simp: scheduler_switch_from_isr_def Let_def save_esp_other split: option.split)

lemma timer_interrupt_frame:
  "int i \<noteq> current_task s \<Longrightarrow> tasks (snd (timer_interrupt esp s)) ! i = tasks s ! i"
  "task_count (snd (timer_interrupt esp s)) = task_count s"
  "heap (snd (timer_interrupt esp s)) = heap s"
  unfolding timer_interrupt_def
  using switch_frame(1) [of i "timer_handler s" esp] switch_frame(2,3) [of esp "timer_handler s"] by simp_all

lemma parked_refl: "runnable s (int i) \<Longrightarrow> parked i s s"
  by (simp add: parked_def stack_same_def)

lemma parkedI:
  assumes "runnable s (int i)" and "tasks s' ! i = tasks s ! i" and "task_count s \<le> task_count s'"
    and "heap s' = heap s \<or> stack_same s s' i"
  shows "parked i s s'"
  using assms by (auto simp: parked_def runnable_def stack_same_def)

lemma runnable_used: "slots_ok s \<Longrightarrow> runnable s (int i) \<Longrightarrow> used_slot s i"
  by (auto simp: slots_ok_def runnable_def)

lemma sched_step_parked:
  assumes step: "sched_step s s'" and inv: "sched_inv s" and i: "runnable s (int i)" "current_task s \<noteq> int i"
  shows "parked i s s'"
proof -
  have so: "slots_ok s" using inv by (simp add: sched_inv_def sched_base_def)
  note used = runnable_used [OF so i(1)]
  have i': "int i \<noteq> current_task s" using i(2) by simp
  from step show ?thesis
  proof cases
    case (step_add entry r)
    show ?thesis
    proof (cases rule: scheduler_add_cases [OF inv, of entry])
      case 1
      with step_add i parked_refl show ?thesis by simp
    next
      case (2 slot h base)
      then have "i \<noteq> slot" using i(1) by (auto simp: runnable_def)
      with 2(6) 2(9) [OF used] step_add i(1) show ?thesis
        by (auto intro!: parkedI simp: put_task_def)
    qed
  next
    case (step_start esp e)
    have "int i \<noteq> - 1" by simp
    note fr = timer_interrupt_frame(1) [of i
        "s\<lparr>scheduling_enabled := True, current_task := -1, need_resched := True\<rparr>" esp]
      timer_interrupt_frame(2,3) [of esp "s\<lparr>scheduling_enabled := True, current_task := -1, need_resched := True\<rparr>"]
    have "s' = snd (scheduler_start esp s)" using step_start by simp
    with fr i(1) show ?thesis
      by (auto intro!: parkedI simp: scheduler_start_def)
  next
    case (step_timer esp e)
    then have "s' = snd (timer_interrupt esp s)" by simp
    with timer_interrupt_frame [where s = s and esp = esp] i' i(1) show ?thesis by (auto intro!: parkedI)
  next
    case (step_yield esp e)
    then have "s' = snd (task_yield esp s)" by simp
    with timer_interrupt_frame [where s = "s\<lparr>need_resched := True\<rparr>" and esp = esp] i' i(1) show ?thesis
      by (auto intro!: parkedI simp: task_yield_def)
  next
    case (step_exit code esp e)
    show ?thesis
    proof (cases "scheduling_enabled s")
      case True
      have "s' = snd (timer_interrupt esp (mark_zombie code s))"
        using scheduler_exit_zombie(1) [OF inv True, of code esp] step_exit by (metis option.inject snd_conv)
      moreover have "0 \<le> current_task s" using inv True by (simp add: sched_inv_def runnable_def)
      ultimately show ?thesis
        using timer_interrupt_frame [where s = "mark_zombie code s" and esp = esp] i' i(1)
        by (auto intro!: parkedI simp: mark_zombie_def Let_def)
    qed (use step_exit i parked_refl in \<open>auto simp: scheduler_exit_def\<close>)
  next
    case (step_wait p want r out)
    show ?thesis
    proof (cases rule: scheduler_wait_cases [OF inv, of p want])
      case 1
      with step_wait i parked_refl show ?thesis by simp
    next
      case (2 z h)
      then have "i \<noteq> z" using i(1) by (auto simp: runnable_def)
      with 2(4) 2(6) [OF used] step_wait i(1) show ?thesis
        by (auto intro!: parkedI simp: reap_def)
    qed
  next
    case (step_run h L)
    with used i i' show ?thesis by (auto intro!: parkedI)
  qed
qed

text \<open>Any number of steps during which the task does not run.\<close>

inductive sched_wait_for :: "nat \<Rightarrow> sched \<Rightarrow> sched \<Rightarrow> bool" for i where
  wait_refl: "sched_wait_for i s s"
| wait_step: "sched_wait_for i s s1 \<Longrightarrow> current_task s1 \<noteq> int i \<Longrightarrow> sched_step s1 s2 \<Longrightarrow> sched_wait_for i s s2"

lemma sched_wait_for_parked:
  assumes "sched_wait_for i s s'" and "sched_inv s" and "runnable s (int i)"
  shows "parked i s s' \<and> sched_inv s'"
  using assms
proof (induction rule: sched_wait_for.induct)
  case (wait_step s s1 s2)
  then have p: "parked i s s1" "sched_inv s1" by auto
  then have "runnable s1 (int i)" by (simp add: parked_def)
  from sched_step_parked [OF wait_step.hyps(3) p(2) this wait_step.hyps(2)] p
  show ?case using sched_step_inv [OF wait_step.hyps(3) p(2)]
    by (auto simp: parked_def intro: stack_same_trans)
qed (auto intro: parked_refl)

subsection \<open>A concrete run\<close>

text \<open>Two tasks are added on a fresh heap, and the scheduler is started.\<close>

lemma first_fit_append:
  "\<forall>c \<in> set bs. \<not> b_free c \<Longrightarrow>
   first_fit n (bs @ cs) = map_option (\<lambda>(p, ds). (p, bs @ ds)) (first_fit n cs)"
  by (induction bs) (auto simp: option.map_comp comp_def case_prod_beta map_option_case split: option.splits)

lemma add_on_top:
  assumes inv: "heap_inv (heap s) (bs @ [b])" and used: "\<forall>c \<in> set bs. \<not> b_free c" and b: "b_free b" "4116 < b_size b"
    and entry: "entry \<noteq> 0" and slot: "find_slot (tasks s) 0 = Some slot"
  shows "\<exists>h. scheduler_add entry s = Some (next_pid s,
      put_task slot (new_task slot (ad (b_addr b + 4052)) (ad (b_addr b + 12)) s) h s) \<and>
    heap_inv h (bs @ [b\<lparr>b_size := 4096, b_free := False\<rparr>,
       \<lparr>b_addr = b_addr b + 4108, b_size = b_size b - 4108, b_free = True\<rparr>])"
proof -
  let ?n = "STACK_SIZE" and ?p = "b_addr b + 12"
  let ?bs = "bs @ [b\<lparr>b_size := 4096, b_free := False\<rparr>,
       \<lparr>b_addr = b_addr b + 4108, b_size = b_size b - 4108, b_free = True\<rparr>]"
  have al: "unat (align8 ?n) = 4096" by (simp add: unat_align8)
  have "first_fit (unat (align8 ?n)) (bs @ [b]) = Some (?p, ?bs)"
    using b by (simp add: first_fit_append [OF used] al)
  from kmalloc_keeps_inv [OF inv _ _ this] obtain h where
    h: "kmalloc ?n (heap s) = Some (ad ?p, h)" "heap_inv h ?bs" "ad ?p \<noteq> 0" by auto
  have top: "ad ?p + 4096 = ad (b_addr b + 4108)" by (simp add: add.commute)
  have lt: "b_addr b + 12 + b_size b < 2 ^ 32"
    using tiles_mem [OF heap_invD(4) [OF inv], of b, THEN conjunct2] heap_invD(8) [OF inv]
    by (meson in_set_conv_decomp order_le_less_trans)
  obtain c m where init: "task_context_init (Some (ctx (tasks s ! slot))) entry (ad (b_addr b + 4108)) (h_mem h) = (c, m)"
    by (cases "task_context_init (Some (ctx (tasks s ! slot))) entry (ad (b_addr b + 4108)) (h_mem h)")
  have "56 \<le> b_addr b + 4108" "b_addr b + 4108 < 2 ^ 32" using lt b(2) by simp_all
  note fr = task_context_init_frame [OF this init]
  have esp: "b_addr b + 4108 - 56 = b_addr b + 4052" by simp
  let ?b = "b\<lparr>b_size := 4096, b_free := False\<rparr>"
  have "same_outside (b_addr ?b + 12) (b_size ?b) (h_mem h) m"
    using fr(3) unfolding same_outside_def by simp
  with heap_inv_write [OF h(2), of ?b] have "heap_inv (h\<lparr>h_mem := m\<rparr>) ?bs" by simp
  moreover have "scheduler_add entry s = Some (next_pid s,
      put_task slot (new_task slot (ad (b_addr b + 4052)) (ad ?p) s) (h\<lparr>h_mem := m\<rparr>) s)"
    using slot entry h(1,3) top init fr(1) [unfolded esp]
    by (simp add: scheduler_add_def put_task_def new_task_def Let_def)
  ultimately show ?thesis by blast
qed

definition idle_task :: task where
  "idle_task = \<lparr>ctx = \<lparr>irq_esp = 0\<rparr>, stack_base = 0, pid = 0, exit_code = 0, state = TASK_UNUSED\<rparr>"

definition sched_boot :: sched where
  "sched_boot = scheduler_init \<lparr>tasks = replicate 4 idle_task, task_count = 0, current_task = -1,
     active_tasks = 0, scheduling_enabled = False, need_resched = False, kernel_ctx = \<lparr>irq_esp = 0\<rparr>,
     next_pid = 1, ticks = 0, timer_ticks = 0,
     heap = heap_init 4096 32768 \<lparr>h_mem = \<lambda>_. 0, heap_start = 0, heap_end = 0, heap_head = 0\<rparr>\<rparr>"

lemma sched_boot_reach: "sched_reach sched_boot"
  unfolding sched_boot_def by (rule reach_init) (auto intro!: run_init)

lemma numeral_4_replicate: "replicate 4 x = [x, x, x, x]"
  by (simp add: numeral_eq_Suc)

lemma sched_boot_fields:
  "tasks sched_boot = [idle_task, idle_task, idle_task, idle_task]" "task_count sched_boot = 0"
  "current_task sched_boot = -1" "active_tasks sched_boot = 0" "\<not> scheduling_enabled sched_boot"
  "next_pid sched_boot = 1" "ticks sched_boot = 0"
  by (simp_all add: sched_boot_def scheduler_init_def reset_task_def idle_task_def numeral_4_replicate)

lemma start_two:
  assumes "tasks s = [t0, t1, t2, t3]" and "task_count s = 2" and "active_tasks s = 2" and "current_task s = -1"
  shows "state t0 = TASK_RUNNABLE \<Longrightarrow> \<exists>s'. scheduler_start esp s = (irq_esp (ctx t0), s') \<and>
    scheduling_enabled s' \<and> current_task s' = 0 \<and> task_count s' = 2 \<and> tasks s' = tasks s"
  using assms
  by (simp add: scheduler_start_def timer_interrupt_def timer_handler_def scheduler_tick_def Let_def
      scheduler_switch_from_isr_def save_esp_def numeral_2_eq_2)

text \<open>
  The run: \<open>sched_two\<close> has the tasks with pids 1 and 2, at entry points 1048576 and
  2097152, and the first of them running.
\<close>

lemma sched_two:
  obtains s1 s2 s3 where "scheduler_add 1048576 sched_boot = Some (1, s1)"
    and "scheduler_add 2097152 s1 = Some (2, s2)" and "scheduler_start 65536 s2 = (8148, s3)"
    and "sched_reach s1" and "sched_reach s2" and "sched_reach s3" and "scheduling_enabled s3"
    and "current_task s3 = 0" and "task_count s3 = 2" and "runnable s3 0" and "runnable s3 1"
    and "irq_esp (ctx (tasks s3 ! 1)) = 12256" and "pid (tasks s3 ! 0) = 1"
    and "state (tasks s1 ! 1) = TASK_UNUSED" and "state (tasks s2 ! 1) = TASK_RUNNABLE"
    and "current_task s2 = -1"
proof -
  let ?b = "\<lparr>b_addr = 4096, b_size = 32756, b_free = True\<rparr>"
  have "heap_inv (heap sched_boot) ([] @ [?b])"
    using heap_init_inv [of 4096 32768] by (simp add: sched_boot_def scheduler_init_def)
  moreover have "find_slot (tasks sched_boot) 0 = Some 0"
    by (subst find_slot.simps) (simp add: sched_boot_fields idle_task_def)
  ultimately obtain h where h: "scheduler_add 1048576 sched_boot = Some (1,
      put_task 0 (new_task 0 (ad 8148) (ad 4108) sched_boot) h sched_boot)" (is "_ = Some (1, ?s1)")
    "heap_inv h [?b\<lparr>b_size := 4096, b_free := False\<rparr>, \<lparr>b_addr = 8204, b_size = 28648, b_free = True\<rparr>]"
    using add_on_top [where entry = 1048576 and s = sched_boot and bs = "[]" and b = ?b and slot = 0]
    by (auto simp: sched_boot_fields)
  have "heap_inv (heap ?s1) ([?b\<lparr>b_size := 4096, b_free := False\<rparr>] @ [\<lparr>b_addr = 8204, b_size = 28648, b_free = True\<rparr>])"
    using h(2) by (simp add: put_task_def)
  moreover have "find_slot (tasks ?s1) 0 = Some 1"
    by (subst find_slot.simps, subst find_slot.simps)
      (simp add: sched_boot_fields idle_task_def put_task_def new_task_def)
  ultimately obtain h2 where h2: "scheduler_add 2097152 ?s1 = Some (2,
      put_task 1 (new_task 1 (ad 12256) (ad 8216) ?s1) h2 ?s1)" (is "_ = Some (2, ?s2)")
    using add_on_top [where entry = 2097152 and s = ?s1 and bs = "[?b\<lparr>b_size := 4096, b_free := False\<rparr>]"
        and b = "\<lparr>b_addr = 8204, b_size = 28648, b_free = True\<rparr>" and slot = 1]
    by (auto simp: put_task_def sched_boot_fields)
  have r1: "sched_reach ?s1" using reach_step [OF sched_boot_reach step_add [OF h(1)]] .
  have r2: "sched_reach ?s2" using reach_step [OF r1 step_add [OF h2]] .
  have slots: "tasks ?s2 = [new_task 0 (ad 8148) (ad 4108) sched_boot, new_task 1 (ad 12256) (ad 8216) ?s1,
      idle_task, idle_task]" "task_count ?s2 = 2" "active_tasks ?s2 = 2" "current_task ?s2 = -1"
    by (simp_all add: put_task_def sched_boot_fields)
  obtain s3 where s3: "scheduler_start 65536 ?s2 = (ad 8148, s3)" "scheduling_enabled s3" "current_task s3 = 0"
    "task_count s3 = 2" "tasks s3 = tasks ?s2"
    using start_two [OF slots, of 65536] by (auto simp: new_task_def)
  have "sched_reach s3" using reach_step [OF r2 step_start [OF s3(1)]] slots by simp
  moreover have "runnable s3 0" "runnable s3 1" "irq_esp (ctx (tasks s3 ! 1)) = 12256" "pid (tasks s3 ! 0) = 1"
    using s3(4,5) slots by (simp_all add: runnable_def new_task_def ad_def sched_boot_fields)
  moreover have "state (tasks ?s1 ! 1) = TASK_UNUSED" "state (tasks ?s2 ! 1) = TASK_RUNNABLE" "current_task ?s2 = -1"
    using slots by (simp_all add: put_task_def new_task_def sched_boot_fields idle_task_def)
  moreover have "ad 8148 = 8148" by (simp add: ad_def)
  ultimately show thesis using that [OF h(1) h2 _ r1 r2] s3 by simp
qed

subsection \<open>Taking turns\<close>

fun yield_trace :: "u32 list \<Rightarrow> sched \<Rightarrow> (u32 \<times> sched) list" where
  "yield_trace [] s = []"
| "yield_trace (e # es) s = task_yield e s # yield_trace es (snd (task_yield e s))"

text \<open>How many slots lie between the running task and the task \<open>t\<close> in cyclic order.\<close>

definition slots_before :: "sched \<Rightarrow> int \<Rightarrow> int" where
  "slots_before s t = (t - current_task s - 1) mod task_count s"

lemma mod_cyclic:
  fixes t c d n :: int
  shows "(t - (c + 1 + d) mod n - 1) mod n = ((t - c - 1) mod n - d - 1) mod n"
proof -
  have "(t - (c + 1 + d) mod n - 1) mod n = (t - 1 - (c + 1 + d) mod n) mod n" by (simp add: algebra_simps)
  also have "\<dots> = (t - 1 - (c + 1 + d)) mod n" by (rule mod_diff_right_eq)
  also have "\<dots> = (t - c - 1 - (d + 1)) mod n" by (simp add: algebra_simps)
  also have "\<dots> = ((t - c - 1) mod n - (d + 1)) mod n" by (rule mod_diff_left_eq [symmetric])
  finally show ?thesis by (simp add: algebra_simps)
qed

lemma yield_switch:
  assumes inv: "sched_inv s" and on: "scheduling_enabled s" and t: "runnable s (int t)" "int t \<noteq> current_task s"
  obtains j e s' where "task_yield esp s = (e, s')" and "sched_inv s'" and "scheduling_enabled s'"
    and "current_task s' = j" and "task_count s' = task_count s" and "parked t s s'"
    and "e = irq_esp (ctx (tasks s' ! nat j))" and "j \<noteq> int t \<longrightarrow> slots_before s' (int t) < slots_before s (int t)"
proof -
  let ?n = "task_count s" and ?c = "current_task s"
  define s1 where "s1 = timer_handler (s\<lparr>need_resched := True\<rparr>)"
  have cur: "runnable s ?c" using inv on by (simp add: sched_inv_def)
  then have n: "2 \<le> ?n" using t by (auto simp: runnable_def)
  have same: "same_slots s s1" by (simp add: s1_def same_slots_def)
  have base: "sched_base s1"
    using inv unfolding s1_def
    by (intro timer_handler_base sched_base_cong [OF _ _ _ _ _ _ sched_invD [OF inv]])
      (auto simp: same_slots_def sched_inv_def sched_base_def)
  have fields: "scheduling_enabled s1" "need_resched s1" "active_tasks s1 = active_tasks s"
    "current_task s1 = ?c" "task_count s1 = ?n"
    using on by (simp_all add: s1_def)
  have "slots_ok s" using inv by (simp add: sched_inv_def sched_base_def)
  then have act: "active_tasks s1 \<noteq> 0" using active_runnable cur fields(3) by auto
  from switch_resched [OF base fields(1,2) act, of esp] obtain d j where
    d: "0 \<le> d" "d < ?n" "j = (?c + 1 + d) mod ?n" "runnable s j"
    "\<And>e. 0 \<le> e \<Longrightarrow> e < d \<Longrightarrow> \<not> runnable s ((?c + 1 + e) mod ?n)"
    and sw: "scheduler_switch_from_isr esp s1 = (irq_esp (ctx (tasks (save_esp esp s1) ! nat j)),
        (save_esp esp s1)\<lparr>need_resched := False, current_task := j\<rparr>)" (is "_ = (_, ?s')")
    unfolding fields runnable_cong [OF same] by blast
  have y: "task_yield esp s = (irq_esp (ctx (tasks ?s' ! nat j)), ?s')"
    using on n sw by (simp add: task_yield_def timer_interrupt_def s1_def)
  have inv': "sched_inv ?s'" using task_yield_inv [OF inv, of esp] y by simp
  have "sched_step s ?s'" using step_yield [OF y] .
  then have "parked t s ?s'" using sched_step_parked [OF _ inv t(1)] t(2) by simp
  moreover have "slots_before ?s' (int t) < slots_before s (int t)" if "j \<noteq> int t"
  proof -
    let ?b = "slots_before s (int t)"
    have "(?c + 1 + ?b) mod ?n = int t"
      using t(1) by (simp add: slots_before_def runnable_def mod_add_right_eq)
    moreover have b: "0 \<le> ?b" "?b < ?n" using n by (simp_all add: slots_before_def)
    ultimately have "d \<noteq> ?b" "\<not> ?b < d" using d(3) d(5) [of ?b] that t(1) by auto
    with b have "d < ?b" "0 \<le> ?b" "?b < ?n" by simp_all
    moreover have "slots_before ?s' (int t) = (?b - d - 1) mod ?n"
      using fields(4,5) d(3) mod_cyclic [of "int t" ?c d ?n] by (simp add: slots_before_def)
    moreover have "0 \<le> ?b - d - 1" "?b - d - 1 < ?n" using calculation d(1) by linarith+
    ultimately show ?thesis using d(1) by (simp add: mod_pos_pos_trivial)
  qed
  ultimately show thesis using that [OF y inv'] fields by simp
qed

lemma yield_reaches:
  assumes "sched_inv s" and "scheduling_enabled s" and "runnable s (int t)" and "int t \<noteq> current_task s"
    and "slots_before s (int t) < int (length es)"
  shows "\<exists>k < length es. int k \<le> slots_before s (int t) \<and>
    (case yield_trace es s ! k of (e, s') \<Rightarrow> current_task s' = int t \<and> e = irq_esp (ctx (tasks s ! t)))"
  using assms
proof (induction es arbitrary: s)
  case Nil
  then have "0 < task_count s" by (auto simp: runnable_def)
  then have "0 \<le> slots_before s (int t)" by (simp add: slots_before_def)
  with Nil show ?case by simp
next
  case (Cons esp es)
  from yield_switch [OF Cons.prems(1-4), of esp] obtain j e s' where
    y: "task_yield esp s = (e, s')" "sched_inv s'" "scheduling_enabled s'" "current_task s' = j"
      "task_count s' = task_count s" "parked t s s'" "e = irq_esp (ctx (tasks s' ! nat j))"
      "j \<noteq> int t \<longrightarrow> slots_before s' (int t) < slots_before s (int t)" by blast
  have n: "0 < task_count s" using Cons.prems(3) by (auto simp: runnable_def)
  show ?case
  proof (cases "j = int t")
    case True
    with y have "current_task s' = int t \<and> e = irq_esp (ctx (tasks s ! t))" by (simp add: parked_def)
    with y(1) n show ?thesis by (intro exI [of _ 0]) (simp add: slots_before_def)
  next
    case False
    have lt: "slots_before s' (int t) < int (length es)" using y(8) False Cons.prems(5) by simp
    have "runnable s' (int t)" "int t \<noteq> current_task s'" using y(4,6) False by (auto simp: parked_def)
    from Cons.IH [OF y(2,3) this lt] obtain k where
      "k < length es \<and> int k \<le> slots_before s' (int t) \<and>
       (case yield_trace es s' ! k of (e, s'') \<Rightarrow> current_task s'' = int t \<and> e = irq_esp (ctx (tasks s' ! t)))"
      ..
    with y(1,6,8) False show ?thesis by (intro exI [of _ "Suc k"]) (auto simp: parked_def)
  qed
qed

text \<open>The operations that end in interrupt 32, with the stack pointer it returns.\<close>

inductive sched_switch :: "sched \<Rightarrow> u32 \<Rightarrow> sched \<Rightarrow> bool" where
  switch_start: "scheduler_start esp s = (e, s') \<Longrightarrow> current_task s = -1 \<Longrightarrow> sched_switch s e s'"
| switch_timer: "timer_interrupt esp s = (e, s') \<Longrightarrow> sched_switch s e s'"
| switch_yield: "task_yield esp s = (e, s') \<Longrightarrow> sched_switch s e s'"
| switch_exit: "scheduler_exit code esp s = Some (e, s') \<Longrightarrow> sched_switch s e s'"

lemma sched_switch_step: "sched_switch s e s' \<Longrightarrow> sched_step s s'"
  by (induction rule: sched_switch.induct) (auto intro: sched_step.intros)

lemma timer_interrupt_selects:
  assumes "timer_interrupt esp s = (e, s')" and "current_task s \<noteq> int i" and "current_task s' = int i"
  shows "e = irq_esp (ctx (tasks s ! i))"
  using assms save_esp_other [of i "timer_handler s" esp]
  by (auto simp: timer_interrupt_def scheduler_switch_from_isr_def Let_def split: option.splits if_splits)

lemma sched_switch_selects:
  assumes "sched_switch s e s'" and "sched_inv s" and "current_task s \<noteq> int i" and "current_task s' = int i"
  shows "e = irq_esp (ctx (tasks s ! i))"
  using assms(1)
proof cases
  case (switch_start esp)
  with assms(3,4) timer_interrupt_selects [of esp
      "s\<lparr>scheduling_enabled := True, current_task := -1, need_resched := True\<rparr>" e s' i]
  show ?thesis by (auto simp: scheduler_start_def split: if_splits)
next
  case (switch_timer esp)
  with assms(3,4) timer_interrupt_selects show ?thesis by blast
next
  case (switch_yield esp)
  with assms(3,4) timer_interrupt_selects [of esp "s\<lparr>need_resched := True\<rparr>" e s' i]
  show ?thesis by (auto simp: task_yield_def split: if_splits)
next
  case (switch_exit code esp)
  show ?thesis
  proof (cases "scheduling_enabled s")
    case True
    then have "timer_interrupt esp (mark_zombie code s) = (e, s')"
      using scheduler_exit_zombie(1) [OF assms(2) True, of code esp] switch_exit by simp
    moreover have "0 \<le> current_task s" using assms(2) True by (simp add: sched_inv_def runnable_def)
    ultimately show ?thesis
      using assms(3,4) timer_interrupt_selects [of esp "mark_zombie code s" e s' i]
      by (auto simp: mark_zombie_def Let_def)
  qed (use switch_exit assms(3,4) in \<open>auto simp: scheduler_exit_def\<close>)
qed

lemma timer_interrupt_slots: "same_slots s (snd (timer_interrupt esp s))"
proof -
  have "same_slots t (snd (scheduler_switch_from_isr esp t))" for t
    using save_esp_slots [of t esp]
    by (auto simp: scheduler_switch_from_isr_def Let_def same_slots_def split: option.splits)
  from this [of "timer_handler s"] show ?thesis by (simp add: timer_interrupt_def same_slots_def)
qed

lemma wait_reaps:
  assumes inv: "sched_inv s" and i: "i < MAX_TASKS" "state (tasks s ! i) = TASK_ZOMBIE"
  shows "\<exists>s'. scheduler_wait (pid (tasks s ! i)) want s =
      Some (0, if want then Some (exit_code (tasks s ! i)) else None, s') \<and> sched_inv s' \<and>
    state (tasks s' ! i) = TASK_UNUSED \<and> (\<forall>j. used_slot s' j \<longrightarrow> pid (tasks s' ! j) \<noteq> pid (tasks s ! i))"
proof -
  have pids: "pids_ok s" and len: "length (tasks s) = MAX_TASKS"
    using inv by (simp_all add: sched_inv_def sched_base_def slots_ok_def)
  show ?thesis
  proof (cases rule: scheduler_wait_cases [OF inv, of "pid (tasks s ! i)" want])
    case 1
    with i show ?thesis by blast
  next
    case (2 j h)
    then have "used_slot s j" "used_slot s i" using i by simp_all
    with pids 2(2) have "j = i" unfolding pids_ok_def by blast
    moreover from this have "used_slot (reap i h s) k \<longrightarrow> pid (tasks (reap i h s) ! k) \<noteq> pid (tasks s ! i)" for k
      using pids i len unfolding pids_ok_def reap_def by (auto simp: nth_list_update)
    ultimately show ?thesis using 2 len i by (auto simp: reap_def)
  qed
qed

subsection \<open>Properties\<close>



text \<open>
  C6. Round robin without starvation: in a reachable state every runnable task that is not
  running gets the processor within as many yields as there are slots before it in cyclic
  order, and it is resumed with the stack pointer it was parked with.
\<close>

theorem scheduler_fair:
  assumes "sched_reach s" and "scheduling_enabled s" and "runnable s (int t)" and "int t \<noteq> current_task s"
    and "task_count s \<le> int (length es) + 1"
  shows "\<exists>k < length es. int k + 2 \<le> task_count s \<and>
    (case yield_trace es s ! k of (e, s') \<Rightarrow> current_task s' = int t \<and> e = irq_esp (ctx (tasks s ! t)))"
proof -
  let ?b = "slots_before s (int t)" and ?n = "task_count s"
  have inv: "sched_inv s" by (rule sched_reach_inv [OF assms(1)])
  with assms(2) have "runnable s (current_task s)" by (simp add: sched_inv_def)
  then have c: "0 \<le> current_task s" "current_task s < ?n" by (simp_all add: runnable_def)
  have "(current_task s + 1 + ?b) mod ?n = int t"
    using assms(3) by (simp add: slots_before_def runnable_def mod_add_right_eq)
  then have "?b \<noteq> ?n - 1" using assms(4) c by auto
  moreover have "?b < ?n" using c by (simp add: slots_before_def)
  ultimately have "?b + 2 \<le> ?n" by simp
  moreover from this assms(5) have "?b < int (length es)" by simp
  ultimately show ?thesis using yield_reaches [OF inv assms(2-4), of es] by fastforce
qed

theorem scheduler_fair_witness:
  "\<exists>s. sched_reach s \<and> runnable s 1 \<and> current_task s = 0 \<and>
    (case yield_trace [69632] s ! 0 of (e, s') \<Rightarrow> current_task s' = 1 \<and> e = 12256)"
proof -
  obtain s where s: "sched_reach s" "scheduling_enabled s" "current_task s = 0" "task_count s = 2"
    "runnable s 1" "irq_esp (ctx (tasks s ! 1)) = 12256" using sched_two by metis
  with scheduler_fair [OF s(1,2), of 1 "[69632]"] show ?thesis by auto
qed





end
