(* ===== verification/Monitor.thy ===== *)
theory Monitor
  imports Kernel_Prelude
begin

text \<open>
  The text console (\<^verbatim>\<open>src/lib/monitor.c\<close>): the VGA text buffer, the cursor and the copy of
  every character on the serial port. The buffer is a function from cell indices so that a
  write outside the 80 by 25 screen would be visible; the bytes sent to the cursor ports
  and to the serial port are recorded in order (\<^verbatim>\<open>serial_write_char\<close> first polls the line
  status register until the transmitter is ready).
\<close>

abbreviation COLUMNS :: nat where
  "COLUMNS \<equiv> 80"

abbreviation ROWS :: nat where
  "ROWS \<equiv> 25"

record monitor =
  video_memory :: "nat \<Rightarrow> u16"
  cursor_x :: u8
  cursor_y :: u8
  serial_enabled :: bool
  serial_out :: "u8 list"
  port_out :: "(u16 \<times> u8) list"

subsection \<open>The code\<close>

definition outb :: "u16 \<Rightarrow> u8 \<Rightarrow> monitor \<Rightarrow> monitor" where
  "outb port v s = s\<lparr>port_out := port_out s @ [(port, v)]\<rparr>"

definition serial_write_char :: "u8 \<Rightarrow> monitor \<Rightarrow> monitor" where
  "serial_write_char c s = s\<lparr>serial_out := serial_out s @ [c]\<rparr>"

text \<open>The other output routines of \<^verbatim>\<open>serial.c\<close>: the register setup and strings with line ends expanded.\<close>

definition serial_init :: "monitor \<Rightarrow> monitor" where
  "serial_init s =
     fold (\<lambda>(port, v). outb port v)
       [(0x3F9, 0x00), (0x3FB, 0x80), (0x3F8, 0x03), (0x3F9, 0x00), (0x3FB, 0x03), (0x3FA, 0xC7), (0x3FC, 0x0B)] s"

definition serial_enable_rx_interrupts :: "monitor \<Rightarrow> monitor" where
  "serial_enable_rx_interrupts s = outb 0x3FC 0x0B (outb 0x3F9 0x01 s)"

fun serial_write_loop :: "u8 list \<Rightarrow> monitor \<Rightarrow> monitor" where
  "serial_write_loop [] s = s"
| "serial_write_loop (c # cs) s =
     serial_write_loop cs (serial_write_char c (if c = 10 then serial_write_char 13 s else s))"

definition serial_write :: "u8 list option \<Rightarrow> monitor \<Rightarrow> monitor" where
  "serial_write str s = (case str of None \<Rightarrow> s | Some cs \<Rightarrow> serial_write_loop cs s)"

definition monitor_enable_serial :: "int \<Rightarrow> monitor \<Rightarrow> monitor" where
  "monitor_enable_serial enable s = s\<lparr>serial_enabled := (enable \<noteq> 0)\<rparr>"

text \<open>The cell under the cursor; the arithmetic is done in \<^verbatim>\<open>int\<close>.\<close>

definition location :: "monitor \<Rightarrow> nat" where
  "location s = unat (cursor_y s) * COLUMNS + unat (cursor_x s)"

definition update_cursor :: "monitor \<Rightarrow> monitor" where
  "update_cursor s =
     (let loc = (of_nat (location s) :: u16);
          s = outb 0x3D4 14 s;
          s = outb 0x3D5 (ucast (drop_bit 8 loc)) s;
          s = outb 0x3D4 15 s
      in outb 0x3D5 (ucast loc) s)"

fun copy_rows :: "nat \<Rightarrow> (nat \<Rightarrow> u16) \<Rightarrow> (nat \<Rightarrow> u16)" where
  "copy_rows 0 v = v"
| "copy_rows (Suc i) v = (let v = copy_rows i v in v(i := v (i + COLUMNS)))"

fun blank_row :: "nat \<Rightarrow> (nat \<Rightarrow> u16) \<Rightarrow> (nat \<Rightarrow> u16)" where
  "blank_row 0 v = v"
| "blank_row (Suc k) v = (blank_row k v)((ROWS - 1) * COLUMNS + k := 0x20 OR push_bit 8 0x0F)"

definition scroll :: "monitor \<Rightarrow> monitor" where
  "scroll s =
     (if unat (cursor_y s) \<ge> ROWS then
        s\<lparr>video_memory := blank_row COLUMNS (copy_rows ((ROWS - 1) * COLUMNS) (video_memory s)),
          cursor_y := of_nat (ROWS - 1)\<rparr>
      else s)"

definition put_cell :: "u16 \<Rightarrow> monitor \<Rightarrow> monitor" where
  "put_cell v s = s\<lparr>video_memory := (video_memory s)(location s := v)\<rparr>"

definition attribute :: u16 where
  "attribute = push_bit 12 0 OR push_bit 8 15"

text \<open>
  \<open>None\<close> as a result means that the call does not return: with a cursor beyond column 251
  the tab loop would wrap around for ever.
\<close>

partial_function (option) tab_loop :: "int \<Rightarrow> monitor \<Rightarrow> monitor option" where
  "tab_loop next_tab s =
     (if uint (cursor_x s) < next_tab then
        tab_loop next_tab ((put_cell (0x20 OR attribute) s)\<lparr>cursor_x := cursor_x s + 1\<rparr>)
      else Some s)"

definition put_tab :: "monitor \<Rightarrow> monitor option" where
  "put_tab s = tab_loop ((uint (cursor_x s) + 4) AND NOT (4 - 1)) s"

definition put_newline :: "monitor \<Rightarrow> monitor" where
  "put_newline s = s\<lparr>cursor_x := 0, cursor_y := cursor_y s + 1\<rparr>"

definition put_backspace :: "monitor \<Rightarrow> monitor" where
  "put_backspace s =
     (let s = (if cursor_x s > 0 then s\<lparr>cursor_x := cursor_x s - 1\<rparr>
               else if cursor_y s > 0 then s\<lparr>cursor_y := cursor_y s - 1, cursor_x := of_nat (COLUMNS - 1)\<rparr>
               else s)
      in put_cell (0x20 OR attribute) s)"

definition put_printable :: "u8 \<Rightarrow> monitor \<Rightarrow> monitor" where
  "put_printable c s = (put_cell (ucast c OR attribute) s)\<lparr>cursor_x := cursor_x s + 1\<rparr>"

definition wrap_line :: "monitor \<Rightarrow> monitor" where
  "wrap_line s = (if unat (cursor_x s) \<ge> COLUMNS then s\<lparr>cursor_x := 0, cursor_y := cursor_y s + 1\<rparr> else s)"

text \<open>The argument is a signed \<^verbatim>\<open>char\<close>: bytes from 128 on are negative and below \<^verbatim>\<open>' '\<close>.\<close>

definition monitor_put :: "u8 \<Rightarrow> monitor \<Rightarrow> monitor option" where
  "monitor_put c s =
     (let s = (if serial_enabled s then serial_write_char c s else s) in
      map_option (\<lambda>s. update_cursor (scroll (wrap_line s)))
        (if c = 10 then Some (put_newline s)
         else if c = 9 then put_tab s
         else if c = 8 then Some (put_backspace s)
         else if 32 \<le> sint c then Some (put_printable c s)
         else Some s))"

fun monitor_write :: "u8 list \<Rightarrow> monitor \<Rightarrow> monitor option" where
  "monitor_write [] s = Some s"
| "monitor_write (c # cs) s = Option.bind (monitor_put c s) (monitor_write cs)"

subsection \<open>The screen invariant\<close>

definition on_screen :: "monitor \<Rightarrow> bool" where
  "on_screen s \<longleftrightarrow> cursor_x s < 80 \<and> cursor_y s < 25"

text \<open>No cell outside the screen changes.\<close>

definition screen_only :: "monitor \<Rightarrow> monitor \<Rightarrow> bool" where
  "screen_only s s' \<longleftrightarrow> (\<forall>i \<ge> ROWS * COLUMNS. video_memory s' i = video_memory s i)"

lemma copy_rows_apply: "copy_rows n v i = (if i < n then v (i + COLUMNS) else v i)"
  by (induction n arbitrary: i) (auto simp: Let_def)

lemma blank_row_apply:
  "blank_row n v i = (if 1920 \<le> i \<and> i < 1920 + n then 0x0F20 else v i)"
  by (induction n) auto

text \<open>The screen after scrolling: every row moves up, the last one is blank.\<close>

lemma scroll_video:
  "25 \<le> unat (cursor_y s) \<Longrightarrow> video_memory (scroll s) i =
     (if i < 1920 then video_memory s (i + 80) else if i < 2000 then 0x0F20 else video_memory s i)"
  by (simp add: scroll_def blank_row_apply copy_rows_apply)

lemma update_cursor_frame [simp]:
  "video_memory (update_cursor s) = video_memory s" "cursor_x (update_cursor s) = cursor_x s"
  "cursor_y (update_cursor s) = cursor_y s" "serial_enabled (update_cursor s) = serial_enabled s"
  "serial_out (update_cursor s) = serial_out s"
  by (simp_all add: update_cursor_def outb_def Let_def)

lemma on_screen_unat: "on_screen s \<longleftrightarrow> unat (cursor_x s) < 80 \<and> unat (cursor_y s) < 25"
  by (simp add: on_screen_def word_less_nat_alt)

lemma location_less: "on_screen s \<Longrightarrow> location s < 2000"
  by (auto simp: on_screen_unat location_def)

lemma unat_u8_succ: "unat (x :: u8) < 255 \<Longrightarrow> unat (x + 1) = unat x + 1"
  by (simp add: unat_plus_no_wrap)

text \<open>The last steps of \<^verbatim>\<open>monitor_put\<close> bring the cursor back on the screen.\<close>

lemma finish_on_screen:
  assumes "unat (cursor_x s) \<le> 80" and "unat (cursor_y s) \<le> 25" and "unat (cursor_x s) < 80 \<or> unat (cursor_y s) < 25"
  shows "on_screen (update_cursor (scroll (wrap_line s)))"
  using assms by (auto simp: on_screen_unat scroll_def wrap_line_def unat_u8_succ)

lemma finish_screen_only: "screen_only s (update_cursor (scroll (wrap_line s)))"
  unfolding screen_only_def
  by (auto simp: wrap_line_def scroll_def blank_row_apply copy_rows_apply)

lemma uint_less_int: "uint (x :: u8) < int n \<longleftrightarrow> unat x < n"
  by (simp add: nat_less_iff [symmetric])

lemma tab_loop_spec:
  assumes "n \<le> 80" and "unat (cursor_y s) < 25"
  shows "\<exists>s'. tab_loop (int n) s = Some s' \<and> unat (cursor_x s') = max n (unat (cursor_x s)) \<and>
    cursor_y s' = cursor_y s \<and> screen_only s s' \<and> serial_out s' = serial_out s \<and> serial_enabled s' = serial_enabled s"
  using assms(2)
proof (induction "n - unat (cursor_x s)" arbitrary: s)
  case 0
  then show ?case by (subst tab_loop.simps) (simp add: screen_only_def max_def uint_less_int)
next
  case (Suc k)
  let ?s = "(put_cell (0x20 OR attribute) s)\<lparr>cursor_x := cursor_x s + 1\<rparr>"
  have x: "unat (cursor_x s) < n" using Suc.hyps(2) by simp
  with assms(1) have x': "unat (cursor_x s + 1) = unat (cursor_x s) + 1" by (simp add: unat_u8_succ)
  have "location s < 2000" using x assms(1) Suc.prems by (simp add: location_def)
  then have "screen_only s ?s" by (auto simp: screen_only_def put_cell_def)
  moreover have "k = n - unat (cursor_x ?s)" using Suc.hyps(2) x' by simp
  note IH = Suc.hyps(1) [OF this]
  ultimately show ?case
    using IH Suc.prems x x' by (subst tab_loop.simps) (auto simp: put_cell_def screen_only_def uint_less_int)
qed

lemma next_tab:
  assumes "x < 80"
  shows "(int x + 4) AND NOT (4 - 1) = int ((x + 4) div 4 * 4)"
proof -
  have "a AND NOT (mask n) = push_bit n (drop_bit n a)" for a :: int and n
    by (rule bit_eqI) (auto simp: bit_simps)
  from this [of "int x + 4" 2] have "(int x + 4) AND NOT (mask 2) = (int x + 4) div 4 * 4"
    by (simp add: push_bit_eq_mult drop_bit_eq_div)
  then show ?thesis by (simp add: mask_eq_exp_minus_1 zdiv_int)
qed

lemma screen_only_trans: "screen_only s s1 \<Longrightarrow> screen_only s1 s2 \<Longrightarrow> screen_only s s2"
  by (simp add: screen_only_def)

lemma put_cell_screen_only: "location s < 2000 \<Longrightarrow> screen_only s (put_cell v s)"
  by (auto simp: screen_only_def put_cell_def)

text \<open>The effect of one character before the cursor is brought back on the screen.\<close>

definition put_body :: "u8 \<Rightarrow> monitor \<Rightarrow> monitor option" where
  "put_body c s =
     (if c = 10 then Some (put_newline s) else if c = 9 then put_tab s
      else if c = 8 then Some (put_backspace s) else if 32 \<le> sint c then Some (put_printable c s)
      else Some s)"

lemma monitor_put_body:
  "monitor_put c s = map_option (\<lambda>s. update_cursor (scroll (wrap_line s)))
     (put_body c (if serial_enabled s then serial_write_char c s else s))"
  by (simp add: monitor_put_def put_body_def Let_def)

lemma put_backspace_spec:
  assumes "on_screen s"
  shows "on_screen (put_backspace s) \<and> screen_only s (put_backspace s) \<and>
    serial_out (put_backspace s) = serial_out s \<and> serial_enabled (put_backspace s) = serial_enabled s"
proof -
  let ?s = "if cursor_x s > 0 then s\<lparr>cursor_x := cursor_x s - 1\<rparr>
     else if cursor_y s > 0 then s\<lparr>cursor_y := cursor_y s - 1, cursor_x := of_nat (COLUMNS - 1)\<rparr> else s"
  have "on_screen ?s"
    using assms by (auto simp: on_screen_unat unat_minus_one word_neq_0_conv [symmetric])
  moreover have "put_backspace s = put_cell (0x20 OR attribute) ?s" by (simp add: put_backspace_def Let_def)
  ultimately show ?thesis
    using location_less [of ?s] by (auto simp: put_cell_def on_screen_def screen_only_def)
qed

lemma put_body_spec:
  assumes "on_screen s"
  obtains s' where "put_body c s = Some s'" and "unat (cursor_x s') \<le> 80" and "unat (cursor_y s') \<le> 25"
    and "unat (cursor_x s') < 80 \<or> unat (cursor_y s') < 25" and "screen_only s s'"
    and "serial_out s' = serial_out s" and "serial_enabled s' = serial_enabled s"
proof -
  have xy: "unat (cursor_x s) < 80" "unat (cursor_y s) < 25" using assms by (simp_all add: on_screen_unat)
  consider "c = 10" | "c = 9" | "c = 8" | "c \<noteq> 10" "c \<noteq> 9" "c \<noteq> 8" by blast
  then show thesis
  proof cases
    case 1
    with xy that show thesis by (simp add: put_body_def put_newline_def unat_u8_succ screen_only_def)
  next
    case 2
    let ?n = "(unat (cursor_x s) + 4) div 4 * 4"
    have "(unat (cursor_x s) + 4) div 4 \<le> 83 div 4" using xy(1) by (intro div_le_mono) simp
    then have n: "?n \<le> 80" by simp
    from tab_loop_spec [OF n xy(2)] xy 2 that show thesis
      by (auto simp: put_body_def put_tab_def next_tab [OF xy(1), simplified])
  next
    case 3
    with put_backspace_spec [OF assms] that show thesis by (auto simp: put_body_def on_screen_unat)
  next
    case 4
    then show thesis
      using that [of "put_printable c s"] that [of s] xy location_less [OF assms]
      by (cases "32 \<le> sint c") (auto simp: put_body_def put_printable_def put_cell_def unat_u8_succ screen_only_def)
  qed
qed

subsection \<open>Properties\<close>

lemma sint_below:
  assumes "(c :: u8) < 128"
  shows "sint c = uint c"
proof -
  have "uint c < 128" using assms by (simp add: word_less_iff_unsigned [where ?'a = int])
  moreover have "-128 \<le> uint c" using uint_ge_0 [of c] by linarith
  ultimately show ?thesis unfolding sint_uint by (intro signed_take_bit_int_eq_self) simp_all
qed

lemma monitor_put_spec:
  assumes "on_screen s"
  shows "\<exists>s'. monitor_put c s = Some s' \<and> on_screen s' \<and> screen_only s s' \<and>
    serial_enabled s' = serial_enabled s \<and> serial_out s' = serial_out s @ (if serial_enabled s then [c] else [])"
proof -
  let ?s = "if serial_enabled s then serial_write_char c s else s"
  have on: "on_screen ?s" and same: "screen_only s ?s"
    using assms by (simp_all add: on_screen_def serial_write_char_def screen_only_def)
  from put_body_spec [OF on, of c] obtain s1 where s1: "put_body c ?s = Some s1" "screen_only ?s s1"
    "serial_out s1 = serial_out ?s" "serial_enabled s1 = serial_enabled ?s"
    "on_screen (update_cursor (scroll (wrap_line s1)))" by (metis finish_on_screen)
  let ?f = "update_cursor (scroll (wrap_line s1))"
  have "serial_out ?f = serial_out s1" "serial_enabled ?f = serial_enabled s1"
    by (simp_all add: scroll_def wrap_line_def)
  moreover have "screen_only s ?f"
    using same s1(2) finish_screen_only screen_only_trans by blast
  ultimately show ?thesis using s1 by (simp add: monitor_put_body serial_write_char_def)
qed

lemma monitor_write_append: "monitor_write (xs @ ys) s = Option.bind (monitor_write xs s) (monitor_write ys)"
proof (induction xs arbitrary: s)
  case (Cons c xs)
  show ?case by (cases "monitor_put c s") (simp_all add: Cons.IH)
qed simp

lemma monitor_write_spec:
  assumes "on_screen s"
  shows "\<exists>s'. monitor_write cs s = Some s' \<and> on_screen s' \<and> screen_only s s' \<and>
    serial_enabled s' = serial_enabled s \<and> serial_out s' = serial_out s @ (if serial_enabled s then cs else [])"
  using assms
proof (induction cs arbitrary: s)
  case Nil
  then show ?case by (simp add: screen_only_def)
next
  case (Cons c cs)
  from monitor_put_spec [OF Cons.prems, of c] obtain s1 where
    s1: "monitor_put c s = Some s1" "on_screen s1" "screen_only s s1" "serial_enabled s1 = serial_enabled s"
      "serial_out s1 = serial_out s @ (if serial_enabled s then [c] else [])" by blast
  from Cons.IH [OF s1(2)] s1 show ?case by (auto intro: screen_only_trans)
qed

definition blank_monitor :: monitor where
  "blank_monitor = \<lparr>video_memory = \<lambda>_. 0, cursor_x = 79, cursor_y = 24, serial_enabled = True,
     serial_out = [], port_out = []\<rparr>"

lemma blank_monitor_on_screen: "on_screen blank_monitor"
  by (simp add: on_screen_def blank_monitor_def)



text \<open>
  A printable character appears in white on black under the cursor, which advances in
  reading order; in the last cell of the screen every row moves up, the last row becomes
  blank and the cursor goes to its start; no other cell changes.
\<close>

theorem monitor_put_printable:
  assumes "on_screen s" and "32 \<le> c" and "c < 128"
  shows "\<exists>s'. monitor_put c s = Some s' \<and>
    (if location s < 1999
     then location s' = location s + 1 \<and> video_memory s' = (video_memory s)(location s := ucast c OR 0x0F00)
     else location s' = 1920 \<and> (\<forall>i. video_memory s' i =
       (if i < 1920 then ((video_memory s)(1999 := ucast c OR 0x0F00)) (i + 80)
        else if i < 2000 then 0x0F20 else video_memory s i)))"
proof -
  let ?s = "if serial_enabled s then serial_write_char c s else s"
  have xy: "unat (cursor_x s) < 80" "unat (cursor_y s) < 25" using assms(1) by (simp_all add: on_screen_unat)
  have c: "32 \<le> sint c" "c \<noteq> 10" "c \<noteq> 9" "c \<noteq> 8"
    using assms(2,3) by (auto simp: sint_below word_le_def)
  let ?p = "put_printable c ?s"
  have at: "location ?s = location s" "video_memory ?s = video_memory s" "cursor_x ?s = cursor_x s" "cursor_y ?s = cursor_y s"
    by (simp_all add: location_def serial_write_char_def)
  have put: "monitor_put c s = Some (update_cursor (scroll (wrap_line ?p)))"
    using c by (simp add: monitor_put_body put_body_def)
  have p: "video_memory ?p = (video_memory s)(location s := ucast c OR 0x0F00)"
    "unat (cursor_x ?p) = unat (cursor_x s) + 1" "cursor_y ?p = cursor_y s"
    using xy at by (simp_all add: put_printable_def put_cell_def attribute_def unat_u8_succ)
  show ?thesis
  proof (cases "location s < 1999")
    case True
    with p put xy show ?thesis
      by (auto simp: wrap_line_def scroll_def location_def unat_u8_succ)
  next
    case False
    with xy have "unat (cursor_x s) = 79" "unat (cursor_y s) = 24" "location s = 1999"
      by (auto simp: location_def)
    with p put xy show ?thesis
      by (auto simp: wrap_line_def location_def unat_u8_succ scroll_def blank_row_apply copy_rows_apply)
  qed
qed

theorem monitor_put_printable_witness:
  "\<exists>s'. monitor_put 65 blank_monitor = Some s' \<and> location s' = 1920 \<and> video_memory s' 1919 = 0x0F41"
  using monitor_put_printable [OF blank_monitor_on_screen, of 65]
  by (auto simp: blank_monitor_def location_def)

end
