(* ===== verification/Kprintf.thy ===== *)
theory Kprintf
  imports Libc Monitor
begin

text \<open>
  Formatted output (\<^verbatim>\<open>src/lib/kprintf.c\<close>). The formatting routines are modelled by the
  sequence of bytes they pass to \<^verbatim>\<open>monitor_put\<close>, in order; \<^verbatim>\<open>kprintf\<close> writes that sequence
  to the console of \<^verbatim>\<open>monitor.c\<close>.
\<close>

subsection \<open>The code\<close>

definition put_padding :: "int \<Rightarrow> u8 \<Rightarrow> u8 list" where
  "put_padding count pad = replicate (nat count) pad"

lemma unat_half: "unat (drop_bit 1 (x :: u64)) = unat x div 2"
  by (simp add: drop_bit_eq_div unat_div_distrib)

lemma unat_exp: "k < 64 \<Longrightarrow> unat (2 ^ k :: u64) = 2 ^ k"
proof -
  assume "k < 64"
  then have "(2 :: nat) ^ k < 2 ^ 64" by (intro power_strict_increasing) simp_all
  then show ?thesis using unat_of_nat_small [of "2 ^ k", where ?'a = 64] by simp
qed

function divmod_up :: "u64 \<Rightarrow> u64 \<Rightarrow> u64 \<Rightarrow> u64 \<times> u64" where
  "divmod_up n denom current =
     (if push_bit 1 denom > denom \<and> push_bit 1 denom \<le> n
      then divmod_up n (push_bit 1 denom) (push_bit 1 current)
      else (denom, current))"
  by pat_completeness auto
termination
proof (relation "measure (\<lambda>(n, denom, current). 2 ^ 64 - unat denom)")
  fix n denom current :: u64
  assume "push_bit 1 denom > denom \<and> push_bit 1 denom \<le> n"
  moreover have "unat (push_bit 1 denom) < 2 ^ 64" using unsigned_less [of "push_bit 1 denom", where ?'a = nat] by simp
  ultimately show "((n, push_bit 1 denom, push_bit 1 current), n, denom, current)
      \<in> measure (\<lambda>(n, denom, current). 2 ^ 64 - unat denom)"
    by (simp only: in_measure split word_less_nat_alt) linarith
qed simp

declare divmod_up.simps [simp del]

function divmod_down :: "u64 \<Rightarrow> u64 \<Rightarrow> u64 \<Rightarrow> u64 \<Rightarrow> u64 \<times> u64" where
  "divmod_down n denom current q =
     (if current \<noteq> 0 then
        if n \<ge> denom
        then divmod_down (n - denom) (drop_bit 1 denom) (drop_bit 1 current) (q OR current)
        else divmod_down n (drop_bit 1 denom) (drop_bit 1 current) q
      else (n, q))"
  by pat_completeness auto
termination
  by (relation "measure (\<lambda>(n, denom, current, q). unat current)") (simp_all add: drop_bit_eq_div unat_div_distrib unat_gt_0)

declare divmod_down.simps [simp del]

text \<open>The quotient and the remainder stored through \<^verbatim>\<open>rem\<close>.\<close>

definition u64_divmod :: "u64 \<Rightarrow> u32 \<Rightarrow> u64 \<times> u32" where
  "u64_divmod n base =
     (if base = 0 then (0, 0)
      else let (denom, current) = divmod_up n (ucast base) 1;
               (n, q) = divmod_down n denom current 0
           in (q, ucast n))"

abbreviation bytes :: "string \<Rightarrow> u8 list" where
  "bytes s \<equiv> map of_char s"

definition digit_chars :: "bool \<Rightarrow> u8 list" where
  "digit_chars uppercase = (if uppercase then bytes ''0123456789ABCDEF'' else bytes ''0123456789abcdef'')"

function digit_loop :: "u64 \<Rightarrow> u32 \<Rightarrow> bool \<Rightarrow> u8 list \<Rightarrow> u8 list" where
  "digit_loop value base uppercase buf =
     (if value > 0 \<and> length buf < 32 then
        let (q, digit) = u64_divmod value base in
        digit_loop q base uppercase (buf @ [digit_chars uppercase ! unat digit])
      else buf)"
  by pat_completeness auto
termination by (relation "measure (\<lambda>(value, base, uppercase, buf). 32 - length buf)") auto

declare digit_loop.simps [simp del]

definition print_uint_base :: "u64 \<Rightarrow> u32 \<Rightarrow> int \<Rightarrow> u8 \<Rightarrow> bool \<Rightarrow> u8 list" where
  "print_uint_base value base width pad uppercase =
     (let buf = (if value = 0 then bytes ''0'' else digit_loop value base uppercase []);
          i = int (length buf)
      in (if width > i then put_padding (width - i) pad else []) @ rev buf)"

definition print_int_decimal :: "int \<Rightarrow> int \<Rightarrow> u8 \<Rightarrow> u8 list" where
  "print_int_decimal value width pad =
     (if value < 0
      then bytes ''-'' @ print_uint_base (word_of_int (- value)) 10 (if width > 0 then width - 1 else width) pad False
      else print_uint_base (word_of_int value) 10 width pad False)"

text \<open>The bytes of a string in memory up to its terminator, as \<^verbatim>\<open>monitor_write\<close> reads them.\<close>

partial_function (option) string_bytes :: "memory \<Rightarrow> u32 \<Rightarrow> u8 list option" where
  "string_bytes m a =
     (if load8 m a = 0 then Some []
      else Option.bind (string_bytes m (a + 1)) (\<lambda>bs. Some (load8 m a # bs)))"

definition print_string :: "memory \<Rightarrow> u32 \<Rightarrow> int \<Rightarrow> u8 \<Rightarrow> u8 list option" where
  "print_string m s width pad =
     (if s = 0
      then Some ((if width > 6 then put_padding (width - 6) pad else []) @ bytes ''(null)'')
      else Option.bind (strlen m s) (\<lambda>len.
           Option.bind (string_bytes m s) (\<lambda>bs.
           Some ((if width > sint len then put_padding (width - sint len) pad else []) @ bs))))"

text \<open>
  The arguments are the 32-bit words of the variable argument list; \<open>None\<close> stands for a
  missing argument or a string without terminator.
\<close>

definition va_arg32 :: "u32 list \<Rightarrow> (u32 \<times> u32 list) option" where
  "va_arg32 args = (case args of [] \<Rightarrow> None | a # as \<Rightarrow> Some (a, as))"

definition va_arg64 :: "u32 list \<Rightarrow> (u64 \<times> u32 list) option" where
  "va_arg64 args = (case args of lo # hi # as \<Rightarrow> Some (ucast lo OR push_bit 32 (ucast hi), as) | _ \<Rightarrow> None)"

definition convert :: "memory \<Rightarrow> u8 \<Rightarrow> int \<Rightarrow> u8 \<Rightarrow> u32 list \<Rightarrow> (u8 list \<times> u32 list) option" where
  "convert m c width pad args =
     (if c = of_char (CHR ''c'') then
        Option.bind (va_arg32 args) (\<lambda>(v, as). Some ([ucast v], as))
      else if c = of_char (CHR ''s'') then
        Option.bind (va_arg32 args) (\<lambda>(v, as). Option.bind (print_string m v width pad) (\<lambda>out. Some (out, as)))
      else if c = of_char (CHR ''d'') then
        Option.bind (va_arg32 args) (\<lambda>(v, as). Some (print_int_decimal (sint v) width pad, as))
      else if c = of_char (CHR ''u'') then
        Option.bind (va_arg32 args) (\<lambda>(v, as). Some (print_uint_base (ucast v) 10 width pad False, as))
      else if c = of_char (CHR ''x'') then
        Option.bind (va_arg32 args) (\<lambda>(v, as). Some (print_uint_base (ucast v) 16 width pad True, as))
      else if c = of_char (CHR ''X'') then
        Option.bind (va_arg32 args) (\<lambda>(v, as). Some (print_uint_base (ucast v) 16 width pad True, as))
      else if c = of_char (CHR ''p'') then
        Option.bind (va_arg32 args) (\<lambda>(v, as).
          Some (bytes ''0x'' @ print_uint_base (ucast v) 16 (if width \<noteq> 0 then width else 8)
                  (if width = 0 then of_char (CHR ''0'') else pad) True, as))
      else if c = of_char (CHR ''%'') then Some ([of_char (CHR ''%'')], args)
      else Some ([of_char (CHR ''%''), c], args))"

partial_function (option) width_loop :: "memory \<Rightarrow> u32 \<Rightarrow> u32 \<Rightarrow> int \<Rightarrow> (int \<times> u32) option" where
  "width_loop m fmt i width =
     (if load8 m (fmt + i) \<ge> of_char (CHR ''0'') \<and> load8 m (fmt + i) \<le> of_char (CHR ''9'')
      then width_loop m fmt (i + 1) (width * 10 + (uint (load8 m (fmt + i)) - 48))
      else Some (width, i))"

partial_function (option) kvprintf_loop :: "memory \<Rightarrow> u32 \<Rightarrow> u32 \<Rightarrow> u32 list \<Rightarrow> u8 list \<Rightarrow> u8 list option" where
  "kvprintf_loop m fmt i args out =
     (if load8 m (fmt + i) = 0 then Some out
      else if load8 m (fmt + i) \<noteq> of_char (CHR ''%'')
      then kvprintf_loop m fmt (i + 1) args (out @ [load8 m (fmt + i)])
      else if load8 m (fmt + (i + 1)) = 0 then Some out
      else
        let zero = (load8 m (fmt + (i + 1)) = of_char (CHR ''0''));
            pad = (if zero then of_char (CHR ''0'') else of_char (CHR '' ''));
            i = (if zero then i + 2 else i + 1)
        in Option.bind (width_loop m fmt i 0) (\<lambda>(width, i).
          if load8 m (fmt + i) = of_char (CHR ''l'') \<and> load8 m (fmt + (i + 1)) = of_char (CHR ''l'') then
            let i = i + 2 in
            if load8 m (fmt + i) = 0 then Some out
            else if load8 m (fmt + i) = of_char (CHR ''u'') then
              Option.bind (va_arg64 args) (\<lambda>(v, as).
                kvprintf_loop m fmt (i + 1) as (out @ print_uint_base v 10 width pad False))
            else kvprintf_loop m fmt (i + 1) args (out @ bytes ''%ll'' @ [load8 m (fmt + i)])
          else
            Option.bind (convert m (load8 m (fmt + i)) width pad args) (\<lambda>(txt, as).
              kvprintf_loop m fmt (i + 1) as (out @ txt))))"

definition kvprintf :: "memory \<Rightarrow> u32 \<Rightarrow> u32 list \<Rightarrow> u8 list option" where
  "kvprintf m fmt args = kvprintf_loop m fmt 0 args []"

definition kprintf :: "memory \<Rightarrow> u32 \<Rightarrow> u32 list \<Rightarrow> monitor \<Rightarrow> monitor option" where
  "kprintf m fmt args mon = Option.bind (kvprintf m fmt args) (\<lambda>out. monitor_write out mon)"

subsection \<open>The division is division\<close>

lemma or_exp:
  assumes "\<not> bit q k" and "k < 64"
  shows "unat (q OR 2 ^ k :: u64) = unat q + 2 ^ k"
proof -
  have "unat (q OR 2 ^ k :: u64) = unat q OR 2 ^ k"
    using assms(2) by (simp add: unsigned_or_eq unat_exp)
  also have "\<dots> = unat q + 2 ^ k"
    by (rule disjunctive_add_eq_or [symmetric])
      (use assms in \<open>simp add: and_exp_eq_0_iff_not_bit bit_unsigned_iff\<close>)
  finally show ?thesis .
qed

lemma divmod_down_spec:
  assumes "0 < b" and "k < 64" and "unat denom = b * 2 ^ k" and "unat n < 2 * unat denom"
    and "\<forall>j \<le> k. \<not> bit q j"
  shows "case divmod_down n denom (2 ^ k) q of (r, q') \<Rightarrow> unat r = unat n mod b \<and> unat q' = unat q + unat n div b"
  using assms(2-)
proof (induction k arbitrary: n denom q)
  case 0
  then have b: "unat denom = b" by simp
  have stop: "divmod_down x y 0 z = (x, z)" for x y z by (subst divmod_down.simps) simp
  have half: "drop_bit 1 (1 :: u64) = 0" by (simp add: drop_bit_Suc)
  show ?case
  proof (cases "denom \<le> n")
    case True
    then have ge: "b \<le> unat n" and sub: "unat (n - denom) = unat n - b"
      using b by (simp_all add: word_le_nat_alt unat_sub)
    have "unat n div b = 1" "unat n mod b = unat n - b"
      using ge 0 b assms(1) by (simp_all add: div_nat_eqI le_mod_geq)
    with True sub or_exp [of q 0] 0 show ?thesis by (subst divmod_down.simps) (simp add: stop half)
  next
    case False
    then have "unat n < b" using b by (simp add: word_le_nat_alt)
    with False show ?thesis by (subst divmod_down.simps) (simp add: stop half)
  qed
next
  case (Suc k)
  have cur: "(2 ^ Suc k :: u64) \<noteq> 0" "drop_bit 1 (2 ^ Suc k :: u64) = 2 ^ k"
    using Suc.prems(1) unat_exp [of "Suc k"] unat_exp [of k] unat_half [of "2 ^ Suc k"]
    by (auto simp: word_unat_eq_iff simp del: One_nat_def)
  have half: "unat (drop_bit 1 denom) = b * 2 ^ k" using Suc.prems(2) by (simp add: unat_half del: One_nat_def)
  show ?case
  proof (cases "denom \<le> n")
    case True
    then have ge: "b * 2 ^ Suc k \<le> unat n" and sub: "unat (n - denom) = unat n - b * 2 ^ Suc k"
      using Suc.prems(2) by (simp_all add: word_le_nat_alt unat_sub)
    have "unat (n - denom) < 2 * unat (drop_bit 1 denom)" using Suc.prems(2,3) sub half by simp
    moreover have "\<forall>j \<le> k. \<not> bit (q OR 2 ^ Suc k) j" using Suc.prems(4) by (auto simp: bit_simps)
    ultimately have IH: "case divmod_down (n - denom) (drop_bit 1 denom) (2 ^ k) (q OR 2 ^ Suc k) of
        (r, q') \<Rightarrow> unat r = unat (n - denom) mod b \<and> unat q' = unat (q OR 2 ^ Suc k) + unat (n - denom) div b"
      using Suc.IH [OF _ half] Suc.prems(1) by simp
    have "unat n = unat (n - denom) + b * 2 ^ Suc k" using sub ge by simp
    then have "unat n mod b = unat (n - denom) mod b" "unat n div b = unat (n - denom) div b + 2 ^ Suc k"
      using assms(1) by simp_all
    with IH True cur or_exp [of q "Suc k"] Suc.prems(1,4) show ?thesis
      by (subst divmod_down.simps) (simp split: prod.splits)
  next
    case False
    then have "unat n < 2 * unat (drop_bit 1 denom)" using Suc.prems(2) half by (simp add: word_le_nat_alt)
    with Suc.IH [OF _ half] Suc.prems(1,4) False cur show ?thesis
      by (subst divmod_down.simps) simp
  qed
qed

lemma unat_double_no_wrap:
  fixes d :: u64
  assumes "d < push_bit 1 d"
  shows "unat (push_bit 1 d) = 2 * unat d"
proof -
  have eq: "unat (push_bit 1 d) = (2 * unat d) mod 2 ^ 64"
    by (simp add: push_bit_eq_mult unat_word_ariths mult.commute)
  moreover have "unat d < 2 ^ 64" using unsigned_less [of d, where ?'a = nat] by simp
  moreover have "unat d < unat (push_bit 1 d)" using assms by (simp only: word_less_nat_alt)
  ultimately have "2 * unat d < 2 ^ 64" by (simp add: mod_if split: if_splits)
  with eq show ?thesis by simp
qed

lemma divmod_up_spec:
  assumes "0 < b" and "unat denom = b * 2 ^ j" and "current = 2 ^ j" and "j < 64"
  shows "\<exists>k d. divmod_up n denom current = (d, 2 ^ k) \<and> k < 64 \<and> unat d = b * 2 ^ k \<and>
    (unat n < 2 * unat d)"
  using assms(2-)
proof (induction n denom current arbitrary: j rule: divmod_up.induct)
  case (1 n denom current)
  show ?case
  proof (cases "push_bit 1 denom > denom \<and> push_bit 1 denom \<le> n")
    case True
    then have d: "unat (push_bit 1 denom) = b * 2 ^ Suc j"
      using unat_double_no_wrap [of denom] "1.prems"(1) by simp
    moreover have "unat (push_bit 1 denom) < 2 ^ 64" using unsigned_less [of "push_bit 1 denom", where ?'a = nat] by simp
    ultimately have "(2 :: nat) ^ Suc j < 2 ^ 64" using assms(1)
      by (metis Suc_leI less_le_trans mult_le_mono1 nat_mult_1 not_le One_nat_def)
    then have "Suc j < 64" by (rule power_less_imp_less_exp [rotated]) simp
    moreover have "push_bit 1 current = 2 ^ Suc j" using "1.prems"(2) by (simp add: push_bit_eq_mult mult.commute)
    ultimately show ?thesis
      using "1.IH" [OF True d] True by (subst divmod_up.simps) (simp del: One_nat_def power_Suc)
  next
    case False
    have "unat n < 2 * unat denom"
    proof (cases "denom < push_bit 1 denom")
      case True
      with False show ?thesis using unat_double_no_wrap [OF True] by (simp add: word_le_nat_alt del: One_nat_def)
    next
      case wrap: False
      have "2 ^ 64 \<le> 2 * unat denom"
      proof (rule ccontr)
        assume "\<not> 2 ^ 64 \<le> 2 * unat denom"
        then have "unat (push_bit 1 denom) = 2 * unat denom"
          by (simp add: push_bit_eq_mult unat_word_ariths mult.commute)
        with wrap have "unat denom = 0" by (simp add: word_less_nat_alt del: One_nat_def)
        with "1.prems"(1) assms(1) show False by simp
      qed
      moreover have "unat n < 2 ^ 64" using unsigned_less [of n, where ?'a = nat] by simp
      ultimately show ?thesis by linarith
    qed
    with False "1.prems" show ?thesis by (subst divmod_up.simps) (auto simp del: One_nat_def)
  qed
qed

lemma u64_divmod_spec:
  assumes "base \<noteq> 0"
  shows "case u64_divmod n base of (q, r) \<Rightarrow> unat q = unat n div unat base \<and> unat r = unat n mod unat base"
proof -
  have b: "0 < unat base" using assms by (simp add: unat_gt_0)
  have "unat base < 2 ^ 64" by (rule less_trans [OF unat_u32]) simp
  then have "unat (ucast base :: u64) = unat base * 2 ^ 0" by (simp add: unsigned_ucast_eq take_bit_nat_eq_self)
  from divmod_up_spec [OF b this, of 1 n] obtain k d where
    up: "divmod_up n (ucast base) 1 = (d, 2 ^ k)" "k < 64" "unat d = unat base * 2 ^ k" "unat n < 2 * unat d" by auto
  from divmod_down_spec [OF b up(2-4), of 0] obtain r q where
    down: "divmod_down n d (2 ^ k) 0 = (r, q)" "unat r = unat n mod unat base" "unat q = unat n div unat base"
    by (auto split: prod.splits)
  have "unat r < 2 ^ 32" using down(2) b by (simp add: less_trans [OF mod_less_divisor unat_u32])
  then have "unat (ucast r :: u32) = unat r" by (simp add: unsigned_ucast_eq take_bit_nat_eq_self)
  with assms up(1) down show ?thesis by (simp add: u64_divmod_def)
qed

subsection \<open>Printed numbers\<close>

text \<open>The digits of a number, most significant first, and the number they stand for.\<close>

function nat_digits :: "nat \<Rightarrow> nat \<Rightarrow> nat list" where
  "nat_digits b n = (if n < b \<or> b < 2 then [n] else nat_digits b (n div b) @ [n mod b])"
  by pat_completeness auto
termination by (relation "measure snd") (auto simp: not_less intro!: div_less_dividend)

declare nat_digits.simps [simp del]

definition digits_value :: "nat \<Rightarrow> nat list \<Rightarrow> nat" where
  "digits_value b ds = foldl (\<lambda>v d. v * b + d) 0 ds"

lemma digits_value_nat_digits: "digits_value b (nat_digits b n) = n"
proof (induction b n rule: nat_digits.induct)
  case (1 b n)
  then show ?case by (subst nat_digits.simps) (auto simp: digits_value_def)
qed

lemma nat_digits_less: "2 \<le> b \<Longrightarrow> d \<in> set (nat_digits b n) \<Longrightarrow> d < b"
proof (induction b n rule: nat_digits.induct)
  case (1 b n)
  then show ?case by (subst (asm) (2) nat_digits.simps) (auto split: if_splits)
qed

lemma nat_digits_hd: "2 \<le> b \<Longrightarrow> 0 < n \<Longrightarrow> nat_digits b n \<noteq> [] \<and> hd (nat_digits b n) \<noteq> 0"
proof (induction b n rule: nat_digits.induct)
  case (1 b n)
  then show ?case by (subst (1 2) nat_digits.simps) (auto simp: not_less div_greater_zero_iff)
qed

lemma nat_digits_length: "2 \<le> b \<Longrightarrow> n < b ^ k \<Longrightarrow> 0 < k \<Longrightarrow> length (nat_digits b n) \<le> k"
proof (induction b n arbitrary: k rule: nat_digits.induct)
  case (1 b n)
  show ?case
  proof (cases "n < b")
    case True
    with "1.prems" show ?thesis by (subst nat_digits.simps) simp
  next
    case False
    with "1.prems" obtain j where j: "k = Suc j" "0 < j" by (cases k rule: nat.exhaust; cases "k - 1") auto
    have "n div b < b ^ j" using "1.prems"(1,2) j by (simp add: less_mult_imp_div_less mult.commute)
    with "1.IH" [of j] False "1.prems"(1) j show ?thesis by (subst nat_digits.simps) simp
  qed
qed

lemma digit_loop_digits:
  assumes "2 \<le> unat base" and "0 < v" and "length buf + length (nat_digits (unat base) (unat v)) \<le> 32"
  shows "digit_loop v base up buf =
    buf @ map (\<lambda>d. digit_chars up ! d) (rev (nat_digits (unat base) (unat v)))"
  using assms(2,3)
proof (induction "unat v" arbitrary: v buf rule: less_induct)
  case less
  let ?b = "unat base"
  have "base \<noteq> 0" using assms(1) by auto
  then obtain q r where qr: "u64_divmod v base = (q, r)" "unat q = unat v div ?b" "unat r = unat v mod ?b"
    using u64_divmod_spec [of base v] by (auto split: prod.splits)
  let ?buf = "buf @ [digit_chars up ! unat r]"
  have v: "0 < unat v" using less.prems(1) by (simp add: word_less_nat_alt)
  have ne: "nat_digits ?b n \<noteq> []" for n by (subst nat_digits.simps) simp
  then have "length buf < 32" using less.prems(2) ne [of "unat v"] by (cases "nat_digits ?b (unat v)") auto
  then have step: "digit_loop v base up buf = digit_loop q base up ?buf"
    using less.prems(1) qr(1) by (subst digit_loop.simps) simp
  show ?case
  proof (cases "unat v < ?b")
    case True
    then have "q = 0" using qr(2) by (simp add: unsigned_eq_0_iff)
    then have "digit_loop q base up ?buf = ?buf" by (subst digit_loop.simps) simp
    moreover have "nat_digits ?b (unat v) = [unat r]" using True qr(3) by (subst nat_digits.simps) simp
    ultimately show ?thesis using step by simp
  next
    case False
    then have digits: "nat_digits ?b (unat v) = nat_digits ?b (unat q) @ [unat r]"
      using assms(1) qr by (subst nat_digits.simps) simp
    have "0 < q" using False assms(1) qr(2) by (simp add: word_less_nat_alt div_greater_zero_iff)
    moreover have "unat q < unat v" using v assms(1) qr(2) by simp
    ultimately have "digit_loop q base up ?buf = ?buf @ map ((!) (digit_chars up)) (rev (nat_digits ?b (unat q)))"
      using less.hyps [of q ?buf] less.prems(2) digits by simp
    with step digits show ?thesis by simp
  qed
qed

text \<open>The output for a number: its digits, padded on the left to the width.\<close>

lemma print_uint_base_digits:
  assumes "unat base = 10 \<or> unat base = 16"
  shows "print_uint_base v base width pad up =
    replicate (nat (width - int (length (nat_digits (unat base) (unat v))))) pad @
    map ((!) (digit_chars up)) (nat_digits (unat base) (unat v))"
proof -
  let ?b = "unat base" and ?ds = "nat_digits (unat base) (unat v)"
  have "unat v < 2 ^ 64" using unsigned_less [of v, where ?'a = nat] by simp
  then have "unat v < ?b ^ 20" using assms by (auto intro: less_trans)
  then have "length ?ds \<le> 20" using assms by (intro nat_digits_length) auto
  have "rev (if v = 0 then bytes ''0'' else digit_loop v base up []) = map ((!) (digit_chars up)) ?ds"
  proof (cases "v = 0")
    case True
    then have "?ds = [0]" using assms by (subst nat_digits.simps) auto
    with True show ?thesis by (simp add: digit_chars_def)
  next
    case False
    then have "0 < v" by (simp add: word_neq_0_conv)
    with False \<open>length ?ds \<le> 20\<close> assms show ?thesis
      by (subst digit_loop_digits) (auto simp: rev_map)
  qed
  moreover from arg_cong [OF this, of length]
  have "length (if v = 0 then bytes ''0'' else digit_loop v base up []) = length ?ds" by simp
  ultimately show ?thesis by (simp add: print_uint_base_def Let_def put_padding_def del: length_map)
qed

lemma replicate_2: "replicate 2 x = [x, x]"
  by (simp add: numeral_2_eq_2)

subsection \<open>Format strings\<close>

text \<open>
  A format as a sequence of literal bytes and directives (zero flag, width, conversion),
  its text, and its meaning: the literals with the converted arguments in between.
\<close>

datatype piece = Lit u8 | Conv bool nat u8

definition width_digits :: "nat \<Rightarrow> u8 list" where
  "width_digits w = (if w = 0 then [] else map (\<lambda>d. 48 + of_nat d) (nat_digits 10 w))"

definition is_digit :: "u8 \<Rightarrow> bool" where
  "is_digit c \<longleftrightarrow> 48 \<le> c \<and> c \<le> 57"

fun piece_ok :: "piece \<Rightarrow> bool" where
  "piece_ok (Lit c) \<longleftrightarrow> c \<noteq> 0 \<and> c \<noteq> 37"
| "piece_ok (Conv z w c) \<longleftrightarrow> c \<noteq> 0 \<and> \<not> is_digit c \<and> c \<noteq> 108"

fun piece_text :: "piece \<Rightarrow> u8 list" where
  "piece_text (Lit c) = [c]"
| "piece_text (Conv z w c) = 37 # (if z then [48] else []) @ width_digits w @ [c]"

fun render :: "memory \<Rightarrow> piece list \<Rightarrow> u32 list \<Rightarrow> u8 list option" where
  "render m [] args = Some []"
| "render m (Lit c # ps) args = map_option ((#) c) (render m ps args)"
| "render m (Conv z w c # ps) args =
     Option.bind (convert m c (int w) (if z then 48 else 32) args)
       (\<lambda>(t, as). map_option ((@) t) (render m ps as))"

lemma cstring_load: "cstring m a (x # xs) \<Longrightarrow> load8 m a = x \<and> x \<noteq> 0"
  by (auto simp: load8_def)

lemma cstring_append: "cstring m a (xs @ ys) \<Longrightarrow> cstring m (a + of_nat (length xs)) ys"
  by (induction xs arbitrary: a) (auto simp flip: add.assoc)

lemma width_loop_digits:
  assumes "cstring m (fmt + i) (map (\<lambda>d. 48 + of_nat d) ds @ c # xs)" and "\<forall>d \<in> set ds. d < 10" and "\<not> is_digit c"
  shows "width_loop m fmt i w = Some (foldl (\<lambda>v d. v * 10 + int d) w ds, i + of_nat (length ds))"
  using assms(1,2)
proof (induction ds arbitrary: i w)
  case Nil
  with assms(3) show ?case by (subst width_loop.simps) (auto simp: load8_def is_digit_def)
next
  case (Cons d ds)
  have d: "unat (48 + of_nat d :: u8) = 48 + d"
    using Cons.prems(2) unat_of_nat_small [of "48 + d", where ?'a = 8] by simp
  have c: "load8 m (fmt + i) = 48 + of_nat d" using cstring_load Cons.prems(1) by fastforce
  have "uint (load8 m (fmt + i)) = 48 + int d" unfolding c uint_nat d by simp
  moreover have "48 \<le> load8 m (fmt + i)" "load8 m (fmt + i) \<le> 57"
    unfolding c using Cons.prems(2) d by (simp_all add: word_le_nat_alt)
  moreover have "width_loop m fmt (i + 1) (w * 10 + int d) =
      Some (foldl (\<lambda>v d. v * 10 + int d) (w * 10 + int d) ds, i + 1 + of_nat (length ds))"
    using Cons.prems by (intro Cons.IH) (simp_all add: add.assoc)
  ultimately show ?case by (subst width_loop.simps) (simp add: algebra_simps)
qed

lemma foldl_int_digits: "foldl (\<lambda>v d. v * 10 + int d) (int w) ds = int (foldl (\<lambda>v d. v * 10 + d) w ds)"
proof (induction ds arbitrary: w)
  case (Cons d ds)
  have "int w * 10 + int d = int (w * 10 + d)" by simp
  then show ?case using Cons.IH [of "w * 10 + d"] by (simp only: foldl_Cons)
qed simp

lemma width_loop_width:
  assumes "cstring m (fmt + i) (width_digits w @ c # xs)" and "\<not> is_digit c"
  shows "width_loop m fmt i 0 = Some (int w, i + of_nat (length (width_digits w)))"
proof (cases "w = 0")
  case True
  with width_loop_digits [of m fmt i "[]" c xs 0] assms show ?thesis by (simp add: width_digits_def)
next
  case False
  let ?ds = "nat_digits 10 w"
  have "\<forall>d \<in> set ?ds. d < 10" using nat_digits_less [of 10] by auto
  with width_loop_digits [of m fmt i ?ds c xs 0] assms False
  have "width_loop m fmt i 0 = Some (foldl (\<lambda>v d. v * 10 + int d) (int 0) ?ds, i + of_nat (length ?ds))"
    by (simp add: width_digits_def)
  also have "foldl (\<lambda>v d. v * 10 + int d) (int 0) ?ds = int w"
    unfolding foldl_int_digits using digits_value_nat_digits [of 10 w] by (simp add: digits_value_def)
  finally show ?thesis using False by (simp add: width_digits_def)
qed

lemma width_digits_hd: "width_digits w = d # ds \<Longrightarrow> d \<noteq> 48 \<and> is_digit d"
proof -
  assume w: "width_digits w = d # ds"
  then have "w \<noteq> 0" by (auto simp: width_digits_def split: if_splits)
  with w obtain x xs where x: "nat_digits 10 w = x # xs" "d = 48 + of_nat x" by (auto simp: width_digits_def)
  have "x < 10" using nat_digits_less [of 10 x w] x by simp
  moreover have "x \<noteq> 0" using nat_digits_hd [of 10 w] x \<open>w \<noteq> 0\<close> by simp
  ultimately have "unat d = 48 + x" "1 \<le> x" "x < 10"
    using x(2) unat_of_nat_small [of "48 + x", where ?'a = 8] by simp_all
  then show ?thesis by (auto simp: is_digit_def word_le_nat_alt)
qed

text \<open>One directive: where its flag, width and conversion are found.\<close>

lemma kvprintf_loop_conv:
  assumes str: "cstring m (fmt + i) (piece_text (Conv z w c) @ xs)" and ok: "piece_ok (Conv z w c)"
  shows "kvprintf_loop m fmt i args out =
    Option.bind (convert m c (int w) (if z then 48 else 32) args)
      (\<lambda>(t, as). kvprintf_loop m fmt (i + of_nat (length (piece_text (Conv z w c)))) as (out @ t))"
proof -
  let ?j = "if z then i + 2 else i + 1" and ?ds = "width_digits w"
  let ?k = "?j + of_nat (length ?ds)"
  have c0: "load8 m (fmt + i) = 37" using cstring_load str by fastforce
  have at: "cstring m (fmt + ?j) (?ds @ c # xs)"
    using str by (auto simp: add.assoc)
  then have k: "cstring m (fmt + ?k) (c # xs)"
    using cstring_append [of m "fmt + ?j" ?ds "c # xs"] by (simp add: add.assoc)
  have c1: "load8 m (fmt + ?k) = c" using cstring_load [OF k] by simp
  have first: "load8 m (fmt + (i + 1)) \<noteq> 0" "load8 m (fmt + (i + 1)) = 48 \<longleftrightarrow> z"
  proof -
    show "load8 m (fmt + (i + 1)) \<noteq> 0" "load8 m (fmt + (i + 1)) = 48 \<longleftrightarrow> z"
      using str ok width_digits_hd [of w] by (cases z; cases ?ds; force simp: load8_def add.assoc is_digit_def)+
  qed
  have w: "width_loop m fmt ?j 0 = Some (int w, ?k)" using width_loop_width [OF at] ok by simp
  have len: "i + of_nat (length (piece_text (Conv z w c))) = ?k + 1" by (simp add: algebra_simps)
  have nz: "(37 :: u8) \<noteq> 0" by simp
  show ?thesis
    unfolding len using c0 c1 first w ok nz
    by (subst kvprintf_loop.simps) (cases z; simp add: Let_def)
qed

lemma append_append_fun: "(@) (xs @ ys) = (\<lambda>zs. xs @ ys @ zs)" "(@) [] = (\<lambda>zs. zs)"
  by auto

lemma kvprintf_loop_render:
  assumes "cstring m (fmt + i) (concat (map piece_text ps))" and "list_all piece_ok ps"
  shows "kvprintf_loop m fmt i args out = map_option ((@) out) (render m ps args)"
  using assms
proof (induction m ps args arbitrary: i out rule: render.induct)
  case (1 m args)
  then show ?case by (subst kvprintf_loop.simps) (simp add: load8_def)
next
  case (2 m c ps args)
  then have c: "load8 m (fmt + i) = c" "c \<noteq> 0" "c \<noteq> 37" by (auto simp: load8_def)
  have "kvprintf_loop m fmt (i + 1) args (out @ [c]) = map_option ((@) (out @ [c])) (render m ps args)"
    using "2.prems" by (intro "2.IH") (simp_all add: add.assoc)
  with c show ?case
    by (subst kvprintf_loop.simps) (simp add: option.map_comp comp_def append_append_fun)
next
  case (3 m z w c ps args)
  let ?p = "Conv z w c"
  have str: "cstring m (fmt + i) (piece_text ?p @ concat (map piece_text ps))" and ok: "piece_ok ?p" "list_all piece_ok ps"
    using "3.prems" by simp_all
  have rest: "cstring m (fmt + (i + of_nat (length (piece_text ?p)))) (concat (map piece_text ps))"
    using cstring_append [OF str] by (simp add: add.assoc)
  show ?case
  proof (cases "convert m c (int w) (if z then 48 else 32) args")
    case None
    then show ?thesis using kvprintf_loop_conv [OF str ok(1), of args out] by simp
  next
    case (Some r)
    obtain t as where r: "r = (t, as)" by (cases r)
    with "3.IH" [OF Some _ rest ok(2)] Some show ?thesis
      using kvprintf_loop_conv [OF str ok(1), of args out]
      by (simp add: option.map_comp comp_def append_append_fun)
  qed
qed

subsection \<open>Properties\<close>


definition format_demo :: memory where
  "format_demo = (\<lambda>_. 0)(100 := 120, 101 := 61, 102 := 37, 103 := 48, 104 := 52, 105 := 117)"


text \<open>
  A number printed in base 10 or 16 is padded on the left to the width with the pad
  character, and its digits, each below the base and without leading zero, stand for the
  number; the 32-byte buffer is never exhausted.
\<close>

theorem print_uint_round_trip:
  assumes "unat base = 10 \<or> unat base = 16"
  shows "\<exists>ds. print_uint_base v base width pad up =
      replicate (nat (width - int (length ds))) pad @ map ((!) (digit_chars up)) ds \<and>
    digits_value (unat base) ds = unat v \<and> (\<forall>d \<in> set ds. d < unat base) \<and>
    (v \<noteq> 0 \<longrightarrow> hd ds \<noteq> 0) \<and> ds \<noteq> [] \<and> length ds \<le> 20"
proof -
  let ?ds = "nat_digits (unat base) (unat v)"
  have "unat v < 2 ^ 64" using unsigned_less [of v, where ?'a = nat] by simp
  then have "unat v < unat base ^ 20" using assms by (auto intro: less_trans)
  then have "length ?ds \<le> 20" using assms by (intro nat_digits_length) auto
  moreover have "?ds \<noteq> []" by (subst nat_digits.simps) simp
  moreover have "v \<noteq> 0 \<longrightarrow> hd ?ds \<noteq> 0" using nat_digits_hd [of "unat base" "unat v"] assms by (auto simp: unat_gt_0)
  moreover have "\<forall>d \<in> set ?ds. d < unat base" using nat_digits_less [of "unat base"] assms by auto
  ultimately show ?thesis
    using print_uint_base_digits [OF assms] digits_value_nat_digits by blast
qed

theorem print_uint_round_trip_witness:
  "\<exists>ds. print_uint_base 255 16 4 48 True =
      replicate (nat (4 - int (length ds))) 48 @ map ((!) (digit_chars True)) ds \<and> digits_value 16 ds = 255"
  using print_uint_round_trip [of 16 255 4 48 True] by auto

text \<open>The shift-and-subtract division is division for every divisor but 0, for which it
  returns 0 and 0.\<close>

theorem u64_divmod_correct:
  "u64_divmod n 0 = (0, 0) \<and> (base \<noteq> 0 \<longrightarrow>
    unat (fst (u64_divmod n base)) = unat n div unat base \<and>
    unat (snd (u64_divmod n base)) = unat n mod unat base)"
  using u64_divmod_spec [of base n] by (auto simp: u64_divmod_def split: prod.splits)

theorem u64_divmod_correct_witness:
  "unat (fst (u64_divmod 1000 7)) = 142 \<and> unat (snd (u64_divmod 1000 7)) = 6"
  using u64_divmod_correct [of 1000 7] by simp

text \<open>
  A format that ends inside a directive is not detected: for \<^verbatim>\<open>"%5"\<close> the formatter
  prints the terminator as an unknown conversion and goes on reading after it.
\<close>

definition truncated_format :: memory where
  "truncated_format = (\<lambda>_. 0)(100 := 37, 101 := 53, 103 := 88)"

theorem kvprintf_overruns:
  "cstring truncated_format 100 (bytes ''%5'') \<and> kvprintf truncated_format 100 [] = Some [37, 0, 88]"
proof -
  have "width_loop truncated_format 100 1 0 = Some (5, 2)"
    by (subst width_loop.simps, subst width_loop.simps) (simp add: truncated_format_def load8_def)
  then show ?thesis
    unfolding kvprintf_def
    by (subst kvprintf_loop.simps, subst kvprintf_loop.simps, subst kvprintf_loop.simps)
      (simp add: truncated_format_def load8_def convert_def)
qed

end
