(* ===== verification/Keyboard.thy ===== *)
theory Keyboard
  imports Keyboard_Buffer Input_Queue
begin

text \<open>
  The keyboard driver (\<^verbatim>\<open>src/drivers/keyboard.c\<close>) and the receiving side of the serial
  driver (\<^verbatim>\<open>src/drivers/serial.c\<close>), which feeds the same two queues. A scancode or a
  received byte is an argument of the handler that reads it from its port; \<open>rx\<close> is the
  sequence of bytes waiting in the serial receiver. \<^verbatim>\<open>keyboard_readline\<close> takes the sequence
  of characters that its polling loop obtains from \<^verbatim>\<open>keyboard_getchar\<close> and returns the bytes
  it echoes to the console.
\<close>

record keyboard =
  kbd :: kbd_state
  input :: input_state
  shift_pressed :: bool
  caps_lock :: bool

subsection \<open>The code\<close>

definition kbdus :: "u8 list" where
  "kbdus = [0, 27, 49, 50, 51, 52, 53, 54, 55, 56, 57, 48, 45, 61, 8,
     9, 113, 119, 101, 114, 116, 121, 117, 105, 111, 112, 91, 93, 10,
     0, 97, 115, 100, 102, 103, 104, 106, 107, 108, 59, 39, 96, 0, 92,
     122, 120, 99, 118, 98, 110, 109, 44, 46, 47, 0, 42, 0, 32] @ replicate 70 0"

definition kbdus_shift :: "u8 list" where
  "kbdus_shift = [0, 27, 33, 64, 35, 36, 37, 94, 38, 42, 40, 41, 95, 43, 8,
     9, 81, 87, 69, 82, 84, 89, 85, 73, 79, 80, 123, 125, 10,
     0, 65, 83, 68, 70, 71, 72, 74, 75, 76, 58, 34, 126, 0, 124,
     90, 88, 67, 86, 66, 78, 77, 60, 62, 63, 0, 42, 0, 32] @ replicate 70 0"

text \<open>The character of a key press; the comparisons are between values below 128.\<close>

definition translate :: "bool \<Rightarrow> bool \<Rightarrow> u8 \<Rightarrow> u8" where
  "translate shift caps scancode =
     (let c = (if shift then kbdus_shift else kbdus) ! unat scancode in
      if 97 \<le> c \<and> c \<le> 122 then (if caps \<noteq> shift then c - 97 + 65 else c)
      else if 65 \<le> c \<and> c \<le> 90 then (if \<not> (caps \<noteq> shift) then c - 65 + 97 else c)
      else c)"

definition deliver :: "u8 \<Rightarrow> keyboard \<Rightarrow> keyboard" where
  "deliver c s = s\<lparr>kbd := kbd_buffer_push c (kbd s), input := input_push_key c (input s)\<rparr>"

definition keyboard_handler :: "u8 \<Rightarrow> keyboard \<Rightarrow> keyboard" where
  "keyboard_handler scancode s =
     (if scancode AND 0x80 \<noteq> 0 then
        let released = scancode AND 0x7F in
        if released = 0x2A \<or> released = 0x36 then s\<lparr>shift_pressed := False\<rparr> else s
      else if scancode = 0x2A \<or> scancode = 0x36 then s\<lparr>shift_pressed := True\<rparr>
      else if scancode = 0x3A then s\<lparr>caps_lock := \<not> caps_lock s\<rparr>
      else if scancode < 128 then
        let c = translate (shift_pressed s) (caps_lock s) scancode in
        if c \<noteq> 0 then deliver c s else s
      else s)"

text \<open>The serial interrupt drains the receiver.\<close>

fun serial_irq_handler :: "u8 list \<Rightarrow> keyboard \<Rightarrow> keyboard" where
  "serial_irq_handler [] s = s"
| "serial_irq_handler (c # rx) s = serial_irq_handler rx (if c \<noteq> 0 then deliver c s else s)"

definition serial_read_char :: "u8 list \<Rightarrow> int \<times> u8 list" where
  "serial_read_char rx = (case rx of [] \<Rightarrow> (-1, []) | c # rx \<Rightarrow> (uint c, rx))"

definition keyboard_init :: "keyboard \<Rightarrow> keyboard" where
  "keyboard_init s = s\<lparr>kbd := kbd_buffer_init (kbd s)\<rparr>"

definition keyboard_getchar :: "u8 list \<Rightarrow> keyboard \<Rightarrow> int \<times> u8 list \<times> keyboard" where
  "keyboard_getchar rx s =
     (let (c, k) = kbd_buffer_pop (kbd s); s = s\<lparr>kbd := k\<rparr> in
      if c \<ge> 0 then (c, rx, s)
      else let (c, rx) = serial_read_char rx in (c, rx, s))"

text \<open>
  The line so far, the echoed bytes and the characters not read yet; \<open>None\<close> while the loop
  waits for another character.
\<close>

fun readline_loop :: "int \<Rightarrow> int list \<Rightarrow> u8 list \<Rightarrow> u8 list \<Rightarrow> (u8 list \<times> u8 list \<times> int list) option" where
  "readline_loop sz [] line echo =
     (if int (length line) < sz - 1 then None else Some (line, echo, []))"
| "readline_loop sz (c # cs) line echo =
     (if int (length line) < sz - 1 then
        if c = 13 \<or> c = 10 then Some (line, echo @ [10], cs)
        else if c = 8 \<or> c = 0x7F then
          if line \<noteq> [] then readline_loop sz cs (butlast line) (echo @ [8, 32, 8])
          else readline_loop sz cs line echo
        else readline_loop sz cs (line @ [word_of_int c]) (echo @ [word_of_int c])
      else Some (line, echo, c # cs))"

text \<open>The result, the bytes stored in \<^verbatim>\<open>out\<close> (with the terminator), the echo and the rest.\<close>

definition keyboard_readline :: "int \<Rightarrow> int list \<Rightarrow> (int \<times> u8 list \<times> u8 list \<times> int list) option" where
  "keyboard_readline sz cs =
     (if sz \<le> 0 then Some (0, [], [], cs)
      else map_option (\<lambda>(line, echo, rest). (int (length line), line @ [0], echo, rest))
             (readline_loop sz cs [] []))"

subsection \<open>Properties\<close>

definition kbd_inv :: "keyboard \<Rightarrow> bool" where
  "kbd_inv s \<longleftrightarrow> kbd_wf (kbd s) \<and> input_wf (input s)"

lemma deliver_inv:
  assumes "kbd_inv s"
  shows "kbd_inv (deliver c s)"
    and "kbd_pending (kbd (deliver c s)) = kbd_pending (kbd s) @ (if length (kbd_pending (kbd s)) < 127 then [c] else [])"
    and "input_pending (input (deliver c s)) =
      input_pending (input s) @ (if length (input_pending (input s)) < 63 then [key_event c] else [])"
proof -
  have k: "kbd_offer c (kbd s) = (fst (kbd_offer c (kbd s)), kbd (deliver c s))"
    and i: "input_offer (key_event c) (input s) = (fst (input_offer (key_event c) (input s)), input (deliver c s))"
    by (simp_all add: kbd_offer_def input_offer_def deliver_def input_push_key_def)
  have wf: "kbd_wf (kbd s)" "input_wf (input s)" using assms by (simp_all add: kbd_inv_def)
  from kbd_fifo.push_ok [OF wf(1) k] input_fifo.push_ok [OF wf(2) i]
  show "kbd_inv (deliver c s)"
    and "kbd_pending (kbd (deliver c s)) = kbd_pending (kbd s) @ (if length (kbd_pending (kbd s)) < 127 then [c] else [])"
    and "input_pending (input (deliver c s)) =
      input_pending (input s) @ (if length (input_pending (input s)) < 63 then [key_event c] else [])"
    by (auto simp: kbd_inv_def)
qed

lemma keyboard_handler_inv [inv_intros]: "kbd_inv s \<Longrightarrow> kbd_inv (keyboard_handler scancode s)"
  using deliver_inv(1) [of s] by (auto simp: keyboard_handler_def Let_def) (auto simp: kbd_inv_def)

definition is_letter :: "u8 \<Rightarrow> bool" where
  "is_letter c \<longleftrightarrow> 97 \<le> c \<and> c \<le> 122"

text \<open>On the letter keys the two tables and the case rules agree.\<close>

lemma translate_letters:
  "list_all (\<lambda>n. list_all (\<lambda>sh. list_all (\<lambda>ca. is_letter (kbdus ! n) \<longrightarrow>
     translate sh ca (of_nat n) = (if sh \<noteq> ca then kbdus ! n - 32 else kbdus ! n)) [True, False])
     [True, False]) [0..<128]"
  by code_simp

lemma letter_codes:
  "list_all (\<lambda>n. is_letter (kbdus ! n) \<longrightarrow> n \<noteq> 42 \<and> n \<noteq> 54 \<and> n \<noteq> 58 \<and> kbdus ! n \<noteq> 32) [0..<128]"
  by code_simp

lemma press_codes: "list_all (\<lambda>n. (of_nat n :: u8) AND 0x80 = 0) [0..<128]"
  by code_simp

lemma keyboard_handler_letter:
  assumes "sc < 128" and "is_letter (kbdus ! unat sc)"
  shows "keyboard_handler sc s =
    deliver (if shift_pressed s \<noteq> caps_lock s then kbdus ! unat sc - 32 else kbdus ! unat sc) s"
proof -
  have n: "unat sc < 128" using assms(1) by (simp add: word_less_nat_alt)
  have tr: "translate sh ca sc = (if sh \<noteq> ca then kbdus ! unat sc - 32 else kbdus ! unat sc)" for sh ca
    using translate_letters assms(2) n unfolding list_all_iff by (cases sh; cases ca) auto
  have ne: "unat sc \<noteq> 42" "unat sc \<noteq> 54" "unat sc \<noteq> 58" "kbdus ! unat sc \<noteq> 32"
    using letter_codes assms(2) n unfolding list_all_iff by auto
  have hi: "sc AND 0x80 = 0" using press_codes n unfolding list_all_iff by (auto dest: bspec [of _ _ "unat sc"])
  have "sc \<noteq> 0x2A" "sc \<noteq> 0x36" "sc \<noteq> 0x3A" using ne by auto
  moreover have "is_letter c \<Longrightarrow> c \<noteq> 0 \<and> c - 32 \<noteq> 0" if "c \<noteq> 32" for c :: u8
    using that by (auto simp: is_letter_def)
  ultimately show ?thesis
    using hi assms tr ne(4) by (simp add: keyboard_handler_def Let_def)
qed

text \<open>Plain characters are echoed and collected in order.\<close>

definition plain_char :: "int \<Rightarrow> bool" where
  "plain_char c \<longleftrightarrow> 0 \<le> c \<and> c \<noteq> 8 \<and> c \<noteq> 10 \<and> c \<noteq> 13 \<and> c \<noteq> 127"

lemma readline_loop_plain:
  "list_all plain_char cs \<Longrightarrow> int (length line + length cs) \<le> sz - 1 \<Longrightarrow>
   readline_loop sz (cs @ ds) line echo =
     readline_loop sz ds (line @ map word_of_int cs) (echo @ map word_of_int cs)"
  by (induction cs arbitrary: line echo) (simp_all add: plain_char_def)

lemma readline_loop_bound:
  "readline_loop sz cs line echo = Some (line', echo', rest) \<Longrightarrow> int (length line) \<le> sz - 1 \<Longrightarrow>
   int (length line') \<le> sz - 1"
  by (induction sz cs line echo rule: readline_loop.induct) (auto split: if_splits)

definition keyboard_static :: keyboard where
  "keyboard_static = \<lparr>kbd = kbd_static, input = input_static, shift_pressed = True, caps_lock = False\<rparr>"

lemma keyboard_static_inv: "kbd_inv keyboard_static"
  using kbd_static_wf input_static_wf by (simp add: kbd_inv_def keyboard_static_def)

text \<open>
  A letter key puts its character, in upper case exactly when shift and caps lock
  differ, at the end of the character buffer and of the event queue, each unless it is full,
  and changes no modifier.
\<close>

theorem letter_key_case:
  assumes "kbd_inv s" and "sc < 128" and "is_letter (kbdus ! unat sc)"
  defines "c \<equiv> (if shift_pressed s \<noteq> caps_lock s then kbdus ! unat sc - 32 else kbdus ! unat sc)"
  shows "kbd_inv (keyboard_handler sc s) \<and>
    kbd_pending (kbd (keyboard_handler sc s)) =
      kbd_pending (kbd s) @ (if length (kbd_pending (kbd s)) < 127 then [c] else []) \<and>
    input_pending (input (keyboard_handler sc s)) =
      input_pending (input s) @ (if length (input_pending (input s)) < 63 then [key_event c] else []) \<and>
    shift_pressed (keyboard_handler sc s) = shift_pressed s \<and> caps_lock (keyboard_handler sc s) = caps_lock s"
  unfolding keyboard_handler_letter [OF assms(2,3)] c_def [symmetric]
  using deliver_inv [OF assms(1), of c] by (simp add: deliver_def)

theorem letter_key_case_witness:
  "kbd_pending (kbd (keyboard_handler 0x1E keyboard_static)) = [65]"
proof -
  have k: "kbdus ! 30 = 97" by (simp add: kbdus_def)
  have e: "kbd_pending (kbd keyboard_static) = []"
    by (simp add: kbd_pending_def keyboard_static_def kbd_static_def ring_list_def)
  from letter_key_case [OF keyboard_static_inv, where sc = "0x1E"] k e show ?thesis
    by (simp add: is_letter_def keyboard_static_def)
qed

text \<open>
  C36. \<^verbatim>\<open>keyboard_readline\<close> never stores more than \<^verbatim>\<open>max\<close> bytes, terminator included, and
  returns a typed line that fits exactly: its characters, the terminator, their echo with a
  newline, and the input after the newline untouched; a backspace takes back the last
  character.
\<close>

theorem readline_round_trip:
  assumes "0 < sz" and "list_all plain_char (cs @ ds)" and "plain_char c"
    and "int (length (cs @ ds)) + 3 \<le> sz"
  shows "keyboard_readline sz (cs @ c # 8 # ds @ 10 # rest) =
      Some (int (length (cs @ ds)), map word_of_int (cs @ ds) @ [0],
        map word_of_int cs @ [word_of_int c, 8, 32, 8] @ map word_of_int ds @ [10], rest) \<and>
    (\<forall>inp n out echo rest'. keyboard_readline sz inp = Some (n, out, echo, rest') \<longrightarrow> int (length out) \<le> sz)"
proof
  have c: "readline_loop sz (c # 8 # ds @ 10 # rest) (map word_of_int cs) (map word_of_int cs) =
      readline_loop sz (ds @ 10 # rest) (map word_of_int cs) (map word_of_int cs @ [word_of_int c, 8, 32, 8])"
    if "int (length cs) + 1 < sz - 1" using that assms(3) by (simp add: plain_char_def)
  show "keyboard_readline sz (cs @ c # 8 # ds @ 10 # rest) =
      Some (int (length (cs @ ds)), map word_of_int (cs @ ds) @ [0],
        map word_of_int cs @ [word_of_int c, 8, 32, 8] @ map word_of_int ds @ [10], rest)"
    using assms readline_loop_plain [of cs "[]" sz "c # 8 # ds @ 10 # rest" "[]"]
      readline_loop_plain [of ds "map word_of_int cs" sz "10 # rest" "map word_of_int cs @ [word_of_int c, 8, 32, 8]"] c
    by (simp add: keyboard_readline_def plain_char_def)
  show "\<forall>inp n out echo rest'. keyboard_readline sz inp = Some (n, out, echo, rest') \<longrightarrow> int (length out) \<le> sz"
    using readline_loop_bound [of sz _ "[]" "[]"] assms(1) by (force simp: keyboard_readline_def)
qed

theorem readline_round_trip_witness:
  "keyboard_readline 80 [108, 120, 8, 115, 10, 99] = Some (2, [108, 115, 0], [108, 120, 8, 32, 8, 115, 10], [99])"
  using readline_round_trip [of 80 "[108]" "[115]" 120 "[99]"] by (simp add: plain_char_def)

end
