(* ===== verification/Syscalls.thy ===== *)
theory Syscalls
  imports Ipc Kprintf Scheduler_Properties Keyboard
begin

text \<open>
  The system call layer (\<^verbatim>\<open>src/proc/syscall.c\<close>). The state combines the scheduler (whose heap
  holds the memory), the console and the message queue; \<open>chars\<close> is the sequence of
  characters that the polling loop of \<^verbatim>\<open>sys_read\<close> obtains from \<^verbatim>\<open>keyboard_getchar\<close>, and
  \<open>None\<close> as a result means that the call does not return.
\<close>

record registers =
  eax :: u32
  ebx :: u32
  ecx :: u32
  edx :: u32

record sys =
  scheduler :: sched
  console :: monitor
  queue :: ipc_state

abbreviation memory_of :: "sys \<Rightarrow> memory" where
  "memory_of s \<equiv> h_mem (heap (scheduler s))"

definition set_memory :: "memory \<Rightarrow> sys \<Rightarrow> sys" where
  "set_memory m s = s\<lparr>scheduler := (scheduler s)\<lparr>heap := (heap (scheduler s))\<lparr>h_mem := m\<rparr>\<rparr>\<rparr>"

subsection \<open>The code\<close>

definition user_ptr_ok :: "u32 \<Rightarrow> u32 \<Rightarrow> bool" where
  "user_ptr_ok ptr sz =
     (if ptr = 0 \<or> sz = 0 then False
      else let addr = ptr; end_addr = addr + sz in
        if end_addr < addr then False
        else if addr \<ge> 0xC0000000 \<or> end_addr \<ge> 0xC0000000 then False
        else True)"

function sys_read_loop :: "u32 \<Rightarrow> u32 \<Rightarrow> int list \<Rightarrow> u32 \<Rightarrow> memory \<Rightarrow> (u32 \<times> int list \<times> memory) option" where
  "sys_read_loop buf sz chars n m =
     (if n < sz then
        (case chars of
           [] \<Rightarrow> None
         | c # cs \<Rightarrow>
             let m = store8 m (buf + n) (word_of_int c); n = n + 1 in
             if c = 10 then Some (n, cs, m) else sys_read_loop buf sz cs n m)
      else Some (n, chars, m))"
  by pat_completeness auto
termination by (relation "measure (\<lambda>(buf, sz, chars, n, m). length chars)") auto

declare sys_read_loop.simps [simp del]

definition sys_read :: "u32 \<Rightarrow> u32 \<Rightarrow> u32 \<Rightarrow> int list \<Rightarrow> memory \<Rightarrow> (int \<times> int list \<times> memory) option" where
  "sys_read fd buf sz chars m =
     (if fd \<noteq> 0 \<or> \<not> user_ptr_ok buf sz then Some (-1, chars, m)
      else map_option (\<lambda>(n, cs, m). (sint n, cs, m)) (sys_read_loop buf sz chars 0 m))"

definition sys_write :: "u32 \<Rightarrow> u32 \<Rightarrow> u32 \<Rightarrow> memory \<Rightarrow> monitor \<Rightarrow> (int \<times> monitor) option" where
  "sys_write fd buf sz m mon =
     (if fd \<noteq> 1 \<and> fd \<noteq> 2 then Some (-1, mon)
      else if \<not> user_ptr_ok buf sz then Some (-1, mon)
      else map_option (\<lambda>mon. (sint sz, mon))
             (monitor_write (map (\<lambda>i. load8 m (buf + of_nat i)) [0..<unat sz]) mon))"

definition sys_open :: "u32 \<Rightarrow> int" where
  "sys_open path = (if \<not> user_ptr_ok path 1 then -1 else -1)"

text \<open>The text printed by \<^verbatim>\<open>kprintf("User exit: %d\n", code)\<close>, then the scheduler.\<close>

definition exit_message :: "int \<Rightarrow> u8 list" where
  "exit_message code = bytes ''User exit: '' @ print_int_decimal code 0 32 @ [10]"

definition sys_exit :: "int \<Rightarrow> u32 \<Rightarrow> sys \<Rightarrow> (u32 \<times> sys) option" where
  "sys_exit code esp s =
     Option.bind (monitor_write (exit_message code) (console s)) (\<lambda>mon.
     Option.bind (scheduler_exit code esp (scheduler s)) (\<lambda>(e, sch).
     Some (e, s\<lparr>console := mon, scheduler := sch\<rparr>)))"

definition unknown_message :: "u32 \<Rightarrow> u8 list" where
  "unknown_message num = bytes ''Unknown syscall: '' @ print_uint_base (ucast num) 10 0 32 False @ [10]"

text \<open>The result also names the stack pointer from which execution continues.\<close>

definition syscall_handler ::
  "registers \<Rightarrow> int list \<Rightarrow> u32 \<Rightarrow> sys \<Rightarrow> (registers \<times> int list \<times> u32 \<times> sys) option" where
  "syscall_handler regs chars esp s =
     (let num = eax regs; m = memory_of s in
      if num = 0 then
        map_option (\<lambda>(r, cs, m). (regs\<lparr>eax := word_of_int r\<rparr>, cs, esp, set_memory m s))
          (sys_read (ebx regs) (ecx regs) (edx regs) chars m)
      else if num = 1 then
        map_option (\<lambda>(r, mon). (regs\<lparr>eax := word_of_int r\<rparr>, chars, esp, s\<lparr>console := mon\<rparr>))
          (sys_write (ebx regs) (ecx regs) (edx regs) m (console s))
      else if num = 2 then
        Some (regs\<lparr>eax := word_of_int (sys_open (ebx regs))\<rparr>, chars, esp, s)
      else if num = 3 then
        map_option (\<lambda>(e, s). (regs\<lparr>eax := 0\<rparr>, chars, e, s)) (sys_exit (sint (ebx regs)) esp s)
      else if num = 4 then
        let (r, q) = ipc_send (ebx regs) (queue s) in
        Some (regs\<lparr>eax := word_of_int r\<rparr>, chars, esp, s\<lparr>queue := q\<rparr>)
      else if num = 5 then
        if \<not> user_ptr_ok (ebx regs) 4 then Some (regs\<lparr>eax := word_of_int (-1)\<rparr>, chars, esp, s)
        else
          let (r, msg, q) = ipc_recv True (queue s);
              s = s\<lparr>queue := q\<rparr>;
              s = (if r = 0 then set_memory (store32 m (ebx regs) (case msg of Some v \<Rightarrow> v | None \<Rightarrow> 0)) s else s)
          in Some (regs\<lparr>eax := word_of_int r\<rparr>, chars, esp, s)
      else
        map_option (\<lambda>mon. (regs\<lparr>eax := word_of_int (-1)\<rparr>, chars, esp, s\<lparr>console := mon\<rparr>))
          (monitor_write (unknown_message num) (console s)))"

subsection \<open>What a pointer check admits\<close>

lemma user_ptr_ok_iff:
  "user_ptr_ok ptr sz \<longleftrightarrow> ptr \<noteq> 0 \<and> sz \<noteq> 0 \<and> unat ptr + unat sz < 0xC0000000"
proof (cases "ptr = 0 \<or> sz = 0")
  case False
  show ?thesis
  proof (cases "unat ptr + unat sz < 2 ^ 32")
    case True
    then have "unat (ptr + sz) = unat ptr + unat sz" by (simp add: unat_plus_no_wrap)
    with False show ?thesis by (auto simp: user_ptr_ok_def Let_def word_less_nat_alt word_le_nat_alt)
  next
    case wrap: False
    have "ptr + sz < ptr" using wrap unat_plus_no_wrap no_olen_add_nat [of ptr sz] by (simp add: not_le)
    with wrap show ?thesis by (auto simp: user_ptr_ok_def Let_def)
  qed
qed (auto simp: user_ptr_ok_def)

lemma user_byte_below:
  assumes "user_ptr_ok buf sz" and "n < sz"
  shows "unat (buf + n) < 0xC0000000"
proof -
  have "unat buf + unat n < 0xC0000000" using assms by (simp add: user_ptr_ok_iff word_less_nat_alt)
  then show ?thesis by (simp add: unat_plus_no_wrap)
qed

abbreviation kernel_half :: "memory \<Rightarrow> memory \<Rightarrow> bool" where
  "kernel_half m m' \<equiv> \<forall>a \<ge> 0xC0000000. m' a = m a"

lemma store8_user: "user_ptr_ok buf sz \<Longrightarrow> n < sz \<Longrightarrow> kernel_half m (store8 m (buf + n) v)"
  using user_byte_below [of buf sz n] by (auto simp: store8_def word_le_nat_alt)

lemma sys_read_loop_kernel:
  "sys_read_loop buf sz chars n m = Some (n', cs, m') \<Longrightarrow> user_ptr_ok buf sz \<Longrightarrow> kernel_half m m'"
proof (induction buf sz chars n m rule: sys_read_loop.induct)
  case (1 buf sz chars n m)
  show ?case
  proof (cases "n < sz \<and> chars \<noteq> []")
    case True
    then obtain c ds where cs: "chars = c # ds" by (cases chars) auto
    note st = store8_user [OF "1.prems"(2), of n m "word_of_int c"]
    show ?thesis
    proof (cases "c = 10")
      case c: True
      with "1.prems"(1) True cs st show ?thesis by (subst (asm) sys_read_loop.simps) (auto simp: Let_def)
    next
      case False
      with "1.prems"(1) True cs
      have "sys_read_loop buf sz ds (n + 1) (store8 m (buf + n) (word_of_int c)) = Some (n', cs, m')"
        by (subst (asm) sys_read_loop.simps) (simp add: Let_def)
      from "1.IH" [OF _ cs refl refl False this] True "1.prems"(2) st show ?thesis by simp
    qed
  next
    case False
    with "1.prems"(1) show ?thesis by (subst (asm) sys_read_loop.simps) (auto split: if_splits list.splits)
  qed
qed

lemma scheduler_exit_heap: "scheduler_exit code esp s = Some r \<Longrightarrow> heap (snd r) = heap s"
  by (auto simp: scheduler_exit_def Let_def timer_interrupt_frame(3) split: if_splits)

text \<open>Every system call leaves the kernel half of memory alone.\<close>

lemma store32_user:
  assumes "user_ptr_ok p 4"
  shows "kernel_half m (store32 m p v)"
proof -
  have "unat (p + k) < 0xC0000000" if "k < 4" for k using user_byte_below [OF assms that] .
  from this [of 0] this [of 1] this [of 2] this [of 3] show ?thesis
    by (auto simp: store32_def word_le_nat_alt)
qed

lemma set_memory_of [simp]: "memory_of (set_memory m s) = m" "memory_of (s\<lparr>queue := q\<rparr>) = memory_of s"
  "memory_of (s\<lparr>console := c\<rparr>) = memory_of s"
  by (simp_all add: set_memory_def)

lemma syscall_kernel_half:
  assumes "syscall_handler regs chars esp s = Some (regs', chars', esp', s')"
  shows "kernel_half (memory_of s) (memory_of s')"
proof -
  consider "eax regs = 0" | "eax regs = 1" | "eax regs = 2" | "eax regs = 3" | "eax regs = 4" | "eax regs = 5"
    | "eax regs \<notin> {0, 1, 2, 3, 4, 5}" by blast
  then show ?thesis
  proof cases
    case 1
    with assms obtain r m where "sys_read (ebx regs) (ecx regs) (edx regs) chars (memory_of s) = Some (r, chars', m)"
      "s' = set_memory m s" by (auto simp: syscall_handler_def Let_def)
    then show ?thesis using sys_read_loop_kernel by (fastforce simp: sys_read_def split: if_splits)
  next
    case 4
    with assms obtain mon e sch where "scheduler_exit (sint (ebx regs)) esp (scheduler s) = Some (e, sch)"
      "s' = s\<lparr>console := mon, scheduler := sch\<rparr>"
      by (auto simp: syscall_handler_def Let_def sys_exit_def bind_eq_Some_conv)
    then show ?thesis using scheduler_exit_heap by force
  next
    case 6
    then show ?thesis using assms store32_user [of "ebx regs"]
      by (auto simp: syscall_handler_def Let_def split: if_splits prod.splits)
  qed (use assms in \<open>auto simp: syscall_handler_def Let_def split: prod.splits\<close>)
qed

subsection \<open>The invariants of the components\<close>

definition sys_inv :: "sys \<Rightarrow> bool" where
  "sys_inv s \<longleftrightarrow> sched_inv (scheduler s) \<and> 0xC0000000 \<le> heap_start (heap (scheduler s)) \<and>
     on_screen (console s) \<and> ipc_wf (queue s)"

text \<open>A heap in the kernel half does not see changes of the user half.\<close>

lemma heap_rel_kernel_half:
  assumes rel: "heap_rel h L" and lo: "0xC0000000 \<le> heap_start h" and m: "kernel_half (h_mem h) m"
  shows "heap_rel (h\<lparr>h_mem := m\<rparr>) L"
proof -
  obtain bs where inv: "heap_inv h bs" and L: "L = live bs" using rel by (auto simp: heap_rel_def)
  note I = heap_invD [OF inv]
  have "m (ad (b_addr b + k)) = h_mem h (ad (b_addr b + k))" if "b \<in> set bs" "k < 12" for b k
  proof -
    from tiles_mem [OF I(4) that(1)] that(2) I(8)
    have "unat (heap_start h) \<le> b_addr b + k" "b_addr b + k < 2 ^ 32" by linarith+
    with lo have "0xC0000000 \<le> ad (b_addr b + k)" by (simp add: word_le_nat_alt unat_ad)
    with m show ?thesis by blast
  qed
  then have "chain m bs" using chain_cong [of bs m "h_mem h"] I(5) by simp
  with inv L show ?thesis by (auto simp: heap_rel_def heap_inv_def)
qed

lemma sched_inv_memory:
  assumes inv: "sched_inv s" and lo: "0xC0000000 \<le> heap_start (heap s)" and m: "kernel_half (h_mem (heap s)) m"
  shows "sched_inv (s\<lparr>heap := (heap s)\<lparr>h_mem := m\<rparr>\<rparr>)"
proof -
  have "\<exists>L. heap_rel ((heap s)\<lparr>h_mem := m\<rparr>) L \<and> stacks_in s L"
    using inv heap_rel_kernel_half [OF _ lo m] by (auto simp: sched_inv_def sched_base_def)
  with inv show ?thesis
    unfolding sched_inv_def sched_base_def slots_ok_def pids_ok_def stacks_in_def runnable_def by simp
qed

lemma ipc_ops_wf: "ipc_wf q \<Longrightarrow> ipc_wf (snd (ipc_send v q)) \<and> ipc_wf (snd (snd (ipc_recv b q)))"
proof -
  assume wf: "ipc_wf q"
  have "ipc_wf (snd (ipc_push v q))" using ipc_fifo.push_ok [OF wf, of v] by (cases "ipc_push v q") simp
  moreover have "ipc_wf (snd (ipc_pop q))" using ipc_fifo.pop_ok [OF wf] by (cases "ipc_pop q") simp
  moreover have "snd (ipc_push v q) = snd (ipc_send v q)"
    by (simp add: ipc_push_def split: prod.splits)
  moreover have "snd (ipc_pop q) = snd (snd (ipc_recv True q))" by (simp add: ipc_pop_def split: prod.splits)
  ultimately show ?thesis using wf by (cases b) (simp_all add: ipc_recv_def)
qed

lemma monitor_write_on_screen: "on_screen c \<Longrightarrow> monitor_write cs c = Some c' \<Longrightarrow> on_screen c'"
  using monitor_write_spec [of c cs] by auto

lemma syscall_inv:
  assumes inv: "sys_inv s" and call: "syscall_handler regs chars esp s = Some (regs', chars', esp', s')"
  shows "sys_inv s'"
proof -
  note I = inv [unfolded sys_inv_def]
  note kh = syscall_kernel_half [OF call]
  have mem: "sys_inv (set_memory m t)" if "kernel_half (memory_of t) m" "sys_inv t" for m t
    using that sched_inv_memory [of "scheduler t" m] by (simp add: sys_inv_def set_memory_def)
  consider "eax regs = 0" | "eax regs = 3" | "eax regs = 4" | "eax regs = 5" | "eax regs \<notin> {0, 3, 4, 5}" by blast
  then show ?thesis
  proof cases
    case 1
    with call obtain m where "s' = set_memory m s" by (auto simp: syscall_handler_def Let_def)
    with mem [where t = s] kh inv show ?thesis by simp
  next
    case 2
    with call obtain mon e sch where ex: "scheduler_exit (sint (ebx regs)) esp (scheduler s) = Some (e, sch)"
      and s': "s' = s\<lparr>console := mon, scheduler := sch\<rparr>"
      and mon: "monitor_write (exit_message (sint (ebx regs))) (console s) = Some mon"
      by (auto simp: syscall_handler_def Let_def sys_exit_def bind_eq_Some_conv)
    have "sched_inv sch" using scheduler_exit_inv [of "scheduler s" "sint (ebx regs)" esp] I ex by simp
    then show ?thesis using I s' mon monitor_write_on_screen scheduler_exit_heap [OF ex] by (auto simp: sys_inv_def)
  next
    case 3
    then show ?thesis using I call ipc_ops_wf [of "queue s" "ebx regs"]
      by (auto simp: syscall_handler_def sys_inv_def Let_def split: prod.splits)
  next
    case 4
    let ?r = "ipc_recv True (queue s)"
    have q: "sys_inv (s\<lparr>queue := snd (snd ?r)\<rparr>)" using I ipc_ops_wf [of "queue s"] by (simp add: sys_inv_def)
    have "s' = s \<or> s' = s\<lparr>queue := snd (snd ?r)\<rparr> \<or> (\<exists>m. s' = set_memory m (s\<lparr>queue := snd (snd ?r)\<rparr>))"
      using call 4 by (auto simp: syscall_handler_def Let_def split: if_splits prod.splits)
    then show ?thesis using inv q mem kh by auto
  next
    case 5
    then show ?thesis using I call monitor_write_on_screen
      by (auto simp: syscall_handler_def sys_write_def sys_inv_def Let_def split: if_splits)
  qed
qed

lemma syscall_returns:
  assumes "sys_inv s" and "eax regs \<noteq> 0"
  shows "syscall_handler regs chars esp s \<noteq> None"
proof -
  have "on_screen (console s)" using assms(1) by (simp add: sys_inv_def)
  then have w: "\<exists>c'. monitor_write cs (console s) = Some c'" for cs using monitor_write_spec by blast
  have ex: "\<exists>e s'. scheduler_exit code e0 (scheduler s) = Some (e, s')" for code e0
    using scheduler_exit_inv [of "scheduler s"] assms(1) by (fastforce simp: sys_inv_def)
  show ?thesis
    using assms(2) w [of "exit_message (sint (ebx regs))"] w [of "unknown_message (eax regs)"]
      w [of "map (\<lambda>i. load8 (memory_of s) (ecx regs + of_nat i)) [0..<unat (edx regs)]"] ex [of "sint (ebx regs)" esp]
    by (auto simp: syscall_handler_def Let_def sys_write_def sys_exit_def split: prod.splits)
qed

subsection \<open>Properties\<close>

definition sys_boot :: sys where
  "sys_boot = \<lparr>scheduler = scheduler_init \<lparr>tasks = replicate 4 idle_task, task_count = 0, current_task = -1,
       active_tasks = 0, scheduling_enabled = False, need_resched = False, kernel_ctx = \<lparr>irq_esp = 0\<rparr>,
       next_pid = 1, ticks = 0, timer_ticks = 0,
       heap = heap_init 0xC1000000 0x100000 \<lparr>h_mem = \<lambda>_. 0, heap_start = 0, heap_end = 0, heap_head = 0\<rparr>\<rparr>,
     console = blank_monitor, queue = ipc_static\<rparr>"

lemma sys_boot_inv: "sys_inv sys_boot"
proof -
  let ?h = "heap_init 0xC1000000 0x100000 \<lparr>h_mem = \<lambda>_. 0, heap_start = 0, heap_end = 0, heap_head = 0\<rparr>"
  have "heap_run ?h {}" by (rule run_init) simp_all
  then have "sched_inv (scheduler sys_boot)"
    unfolding sys_boot_def by (simp only: sys.simps) (rule scheduler_init_inv; simp)
  moreover have "heap_start (heap (scheduler sys_boot)) = 0xC1000000"
    by (simp add: sys_boot_def scheduler_init_def heap_init_def)
  ultimately show ?thesis
    using blank_monitor_on_screen ipc_static_wf by (simp add: sys_inv_def) (simp add: sys_boot_def)
qed







end
