(* ===== verification/Vfs.thy ===== *)
theory Vfs
  imports Kernel_Prelude
begin

text \<open>
  Path resolution of the virtual file system (\<^verbatim>\<open>src/fs/vfs.c\<close>). A path is the list of its
  bytes before the terminator, \<open>None\<close> for the null pointer; the lookup behind
  \<^verbatim>\<open>vfs_finddir\<close> is the argument \<open>finddir\<close>, supplied by the mounted file system
  (\<^verbatim>\<open>ramfs.c\<close>, in the theory \<open>Ramfs\<close>). The reference is the list of the nonempty
  components between slashes, walked one after the other.
\<close>

abbreviation VFS_NAME_MAX :: nat where
  "VFS_NAME_MAX \<equiv> 128"

subsection \<open>The code\<close>

fun skip_slashes :: "u8 list \<Rightarrow> u8 list" where
  "skip_slashes [] = []"
| "skip_slashes (c # p) = (if c = 47 then skip_slashes p else c # p)"

text \<open>The inner loop: the name collected so far and the rest of the path.\<close>

fun component_loop :: "u8 list \<Rightarrow> u8 list \<Rightarrow> u8 list \<times> u8 list" where
  "component_loop [] name = (name, [])"
| "component_loop (c # p) name =
     (if c \<noteq> 47 then component_loop p (if length name + 1 < VFS_NAME_MAX then name @ [c] else name)
      else (name, c # p))"

lemma skip_slashes_eq: "skip_slashes p = dropWhile (\<lambda>c. c = 47) p"
  by (induction p) auto

lemma component_loop_eq:
  "length name \<le> 127 \<Longrightarrow> component_loop p name =
     (name @ take (127 - length name) (takeWhile (\<lambda>c. c \<noteq> 47) p), dropWhile (\<lambda>c. c \<noteq> 47) p)"
proof (induction p arbitrary: name)
  case (Cons c p)
  have "take (127 - length name) (c # xs) = c # take (126 - length name) xs" if "length name < 127" for xs
    using that take_Suc_Cons [of "126 - length name" c xs] by (simp add: Suc_diff_le [symmetric])
  with Cons show ?case by auto
qed simp

lemma component_consumes:
  "p \<noteq> [] \<Longrightarrow> length (dropWhile (\<lambda>c. c = 47) (dropWhile (\<lambda>c. c \<noteq> 47) p)) < length (p :: u8 list)"
proof (cases p)
  case (Cons c q)
  have "length (dropWhile P xs) \<le> length xs" for P and xs :: "u8 list"
    by (induction xs) auto
  with Cons show ?thesis
    by (auto intro: order_trans le_imp_less_Suc)
qed simp

function resolve_loop :: "('n \<Rightarrow> u8 list \<Rightarrow> 'n option) \<Rightarrow> 'n \<Rightarrow> u8 list \<Rightarrow> 'n option" where
  "resolve_loop finddir cur p =
     (if p = [] then Some cur
      else
        let (name, p) = component_loop p [] in
        case finddir cur name of
          None \<Rightarrow> None
        | Some cur \<Rightarrow> resolve_loop finddir cur (skip_slashes p))"
  by pat_completeness auto
termination
  by (relation "measure (\<lambda>(f, cur, p). length p)")
     (auto simp: component_loop_eq skip_slashes_eq component_consumes)

declare resolve_loop.simps [simp del]

definition vfs_resolve_path ::
  "('n \<Rightarrow> u8 list \<Rightarrow> 'n option) \<Rightarrow> 'n option \<Rightarrow> u8 list option \<Rightarrow> 'n option" where
  "vfs_resolve_path finddir vfs_root path =
     (case path of
        None \<Rightarrow> None
      | Some path \<Rightarrow>
          if path = [] then None
          else
            case vfs_root of
              None \<Rightarrow> None
            | Some cur \<Rightarrow>
                let p = skip_slashes path in
                if p = [] then Some cur else resolve_loop finddir cur p)"

subsection \<open>The reference: splitting at the slashes\<close>

fun split_slashes :: "u8 list \<Rightarrow> u8 list list" where
  "split_slashes [] = [[]]"
| "split_slashes (c # p) =
     (if c = 47 then [] # split_slashes p
      else case split_slashes p of [] \<Rightarrow> [[c]] | n # ns \<Rightarrow> (c # n) # ns)"

definition components :: "u8 list \<Rightarrow> u8 list list" where
  "components p = filter (\<lambda>n. n \<noteq> []) (split_slashes p)"

fun walk :: "('n \<Rightarrow> u8 list \<Rightarrow> 'n option) \<Rightarrow> 'n \<Rightarrow> u8 list list \<Rightarrow> 'n option" where
  "walk finddir cur [] = Some cur"
| "walk finddir cur (n # ns) =
     (case finddir cur (take 127 n) of None \<Rightarrow> None | Some cur \<Rightarrow> walk finddir cur ns)"

lemma split_slashes_ne [simp]: "split_slashes p \<noteq> []"
  by (induction p) (auto split: list.splits)

lemma components_slash [simp]: "components (47 # p) = components p"
  by (simp add: components_def)

lemma components_Nil [simp]: "components [] = []"
  by (simp add: components_def)

lemma components_skip [simp]: "components (dropWhile (\<lambda>c. c = 47) p) = components p"
  by (induction p) auto

lemma split_slashes_component:
  "split_slashes p = takeWhile (\<lambda>c. c \<noteq> 47) p # tl (split_slashes p) \<and>
   components (dropWhile (\<lambda>c. c \<noteq> 47) p) = filter (\<lambda>n. n \<noteq> []) (tl (split_slashes p))"
  by (induction p) (auto simp: components_def split: list.splits)

lemma components_step:
  assumes "p \<noteq> []" and "hd p \<noteq> 47"
  shows "components p = takeWhile (\<lambda>c. c \<noteq> 47) p # components (dropWhile (\<lambda>c. c \<noteq> 47) p)"
proof -
  have "takeWhile (\<lambda>c. c \<noteq> 47) p \<noteq> []" using assms by (cases p) auto
  then show ?thesis
    by (subst components_def, subst split_slashes_component [THEN conjunct1])
       (simp add: split_slashes_component [THEN conjunct2])
qed

lemma resolve_loop_walk:
  "p = [] \<or> hd p \<noteq> 47 \<Longrightarrow> resolve_loop finddir cur p = walk finddir cur (components p)"
proof (induction finddir cur p rule: resolve_loop.induct)
  case (1 finddir cur p)
  show ?case
  proof (cases "p = []")
    case False
    let ?n = "takeWhile (\<lambda>c. c \<noteq> 47) p" and ?q = "dropWhile (\<lambda>c. c \<noteq> 47) p"
    have hd: "skip_slashes ?q = [] \<or> hd (skip_slashes ?q) \<noteq> 47"
      using hd_dropWhile [of "\<lambda>c. c = 47" ?q] by (auto simp: skip_slashes_eq)
    have step: "components p = ?n # components (skip_slashes ?q)"
      using components_step 1(2) False by (simp add: skip_slashes_eq)
    have IH: "resolve_loop finddir c (skip_slashes ?q) = walk finddir c (components (skip_slashes ?q))"
      if "finddir cur (take 127 ?n) = Some c" for c
      using 1(1) [OF False, of "(take 127 ?n, ?q)"] that hd by (simp add: component_loop_eq)
    show ?thesis
      using False IH step
      by (subst resolve_loop.simps) (auto simp: component_loop_eq split: option.splits)
  qed (simp add: resolve_loop.simps)
qed

fun join_slash :: "u8 list list \<Rightarrow> u8 list" where
  "join_slash [] = []"
| "join_slash (n # ns) = 47 # n @ join_slash ns"

lemma split_slashes_append:
  "47 \<notin> set n \<Longrightarrow> split_slashes (n @ p) = (n @ hd (split_slashes p)) # tl (split_slashes p)"
  by (induction n) (auto split: list.splits)

lemma components_join:
  "(\<forall>n \<in> set ns. n \<noteq> [] \<and> 47 \<notin> set n) \<Longrightarrow> components (join_slash ns) = ns"
proof (induction ns)
  case (Cons n ns)
  have "hd (split_slashes (join_slash ns)) = []" by (cases ns) simp_all
  then show ?case
    using Cons by (cases "split_slashes (join_slash ns)") (auto simp: components_def split_slashes_append)
qed simp

subsection \<open>Properties\<close>

text \<open>
  C18. Path resolution implements its specification on every path: a null or empty path and
  a missing root give null; otherwise the result is the walk from the root along the
  nonempty components between slashes, each truncated to the 127 bytes a node name holds,
  whatever lookup the mounted file system provides. In particular resolution always
  terminates and repeated, leading and trailing slashes do not matter.
\<close>

theorem vfs_resolve_refines_walk:
  "vfs_resolve_path finddir root path =
     (case (path, root) of
        (Some p, Some r) \<Rightarrow> if p = [] then None else walk finddir r (components p)
      | _ \<Rightarrow> None)"
proof -
  have "walk finddir r (components p) = resolve_loop finddir r (skip_slashes p)"
    if "skip_slashes p \<noteq> []" for r p
    using resolve_loop_walk [of "skip_slashes p"] that hd_dropWhile [of "\<lambda>c. c = 47" p]
    by (metis components_skip skip_slashes_eq)
  moreover have "components p = []" if "skip_slashes p = []" for p
    using that by (metis components_Nil components_skip skip_slashes_eq)
  ultimately show ?thesis
    by (auto simp: vfs_resolve_path_def Let_def split: option.splits)
qed

end
