(* ===== verification/Heap_Region.thy ===== *)
theory Heap_Region
  imports Kernel_Heap
begin

text \<open>
  The kernel heap as an allocator with a region: \<^verbatim>\<open>kmalloc\<close> and \<^verbatim>\<open>kfree\<close> change no byte
  outside \<open>[heap_start, heap_end)\<close>, for the clients that also hold data elsewhere.
\<close>

lemma kmalloc_region:
  assumes inv: "heap_inv s bs" and km: "kmalloc n s = Some (a, s')"
  shows "heap_start s' = heap_start s \<and> heap_end s' = heap_end s \<and>
    same_beyond (unat (heap_start s)) (unat (heap_end s)) (h_mem s) (h_mem s')"
proof (cases "n = 0 \<or> first_fit (unat (align8 n)) bs = None")
  case True
  then have "s' = s" using km kmalloc_first_fit [OF inv, of n] by (cases "n = 0") (auto simp: kmalloc_def)
  then show ?thesis by simp
next
  case False
  then obtain p bs' where "first_fit (unat (align8 n)) bs = Some (p, bs')" by auto
  with False kmalloc_first_fit [OF inv, of n] km obtain m where m: "s' = s\<lparr>h_mem := m\<rparr>"
    "keeps (unat (heap_start s)) (unat (heap_end s)) bs (h_mem s) m" by auto
  then show ?thesis using keepsD [OF m(2)] by (simp add: same_beyond_def)
qed

interpretation heap_region: region_allocator kmalloc kfree h_mem "\<lambda>m s. s\<lparr>h_mem := m\<rparr>" heap_rel
  "\<lambda>s. unat (heap_start s)" "\<lambda>s. unat (heap_end s)"
proof
  fix s L p k assume "heap_rel s L" and "(p, k) \<in> L"
  then obtain bs where "heap_inv s bs" "(p, k) \<in> live bs" by (auto simp: heap_rel_def)
  from live_addr [OF heap_invD(4) [OF this(1)] this(2)]
  show "unat (heap_start s) \<le> p \<and> p + k \<le> unat (heap_end s)" by simp
next
  fix s L n a s' assume "heap_rel s L" and "kmalloc n s = Some (a, s')"
  with kmalloc_region show "unat (heap_start s') = unat (heap_start s) \<and> unat (heap_end s') = unat (heap_end s) \<and>
    same_beyond (unat (heap_start s)) (unat (heap_end s)) (h_mem s) (h_mem s')"
    by (auto simp: heap_rel_def)
next
  fix s L and a :: u32 and k s' assume "heap_rel s L" and "(unat a, k) \<in> L" and free: "kfree a s = Some s'"
  then obtain bs b where inv: "heap_inv s bs" and b: "b \<in> set bs" "\<not> b_free b" "unat a = b_addr b + 12"
    by (auto simp: heap_rel_def live_def)
  from b(3) have "a = ad (b_addr b + 12)" by (metis ad_unat)
  from kfree_merge [OF inv b(1,2) this] free
  show "unat (heap_start s') = unat (heap_start s) \<and> unat (heap_end s') = unat (heap_end s) \<and>
    same_beyond (unat (heap_start s)) (unat (heap_end s)) (h_mem s) (h_mem s')"
    by (metis option.inject)
next
  fix s L m assume "heap_rel s L"
    and m: "\<And>x. unat (heap_start s) \<le> x \<Longrightarrow> x < unat (heap_end s) \<Longrightarrow> m (ad x) = h_mem s (ad x)"
  then obtain bs where inv: "heap_inv s bs" "L = live bs" by (auto simp: heap_rel_def)
  have "m (ad (b_addr c + j)) = h_mem s (ad (b_addr c + j))" if "c \<in> set bs" "j < 12" for c j
    using tiles_mem [OF heap_invD(4) [OF inv(1)] that(1)] that(2) by (intro m) auto
  then have "chain m bs" using chain_cong [of bs m "h_mem s"] heap_invD(5) [OF inv(1)] by simp
  with inv show "heap_rel (s\<lparr>h_mem := m\<rparr>) L" by (auto simp: heap_rel_def heap_inv_def)
qed simp_all

end
