(* ===== verification/Ramfs.thy ===== *)
theory Ramfs
  imports Vfs Libc Heap_Region
begin

text \<open>
  The RAM file system (\<^verbatim>\<open>src/fs/ramfs.c\<close>) and the dispatch functions of
  \<^verbatim>\<open>src/fs/vfs.c\<close>. The static array \<^verbatim>\<open>nodes\<close> is a list of nine nodes and a pointer to a
  node is its index, \<open>None\<close> the null pointer. File contents live in the byte memory: in a
  block of the kernel heap, or in the static array \<^verbatim>\<open>hello_data\<close>, whose address is an
  argument of \<open>ramfs_init\<close>. A name is the list of the bytes before its terminator, so
  \<^verbatim>\<open>strcmp(a, b) == 0\<close> is equality (\<open>strcmp_order\<close>). A function pointer of a node is a
  Boolean, whether it is set: each is only ever set to the function of \<^verbatim>\<open>ramfs.c\<close> with its
  name. \<^verbatim>\<open>ramfs_write\<close> and \<^verbatim>\<open>ramfs_unlink\<close> call the heap and are partial with it.
\<close>

record vfs_node =
  name :: "u8 list"
  flags :: u32
  inode :: u32
  vfs_length :: u32
  impl :: "nat option"
  read_fn :: bool
  write_fn :: bool
  readdir_fn :: bool
  finddir_fn :: bool

record ramfs_node =
  vfs :: vfs_node
  parent :: "nat option"
  children :: "nat option list"
  child_count :: u32
  data :: u32
  node_size :: u32
  owns_data :: bool

record vfs_dirent =
  d_name :: "u8 list"
  ino :: u32

record ramfs =
  nodes :: "ramfs_node list"
  node_count :: u32
  ramfs_root :: "nat option"
  vfs_root :: "nat option"
  dirent_tmp :: vfs_dirent
  fs_heap :: heap_state

abbreviation (input) RAMFS_MAX_CHILDREN :: u32 where
  "RAMFS_MAX_CHILDREN \<equiv> 16"

abbreviation (input) RAMFS_MAX_FILES :: u32 where
  "RAMFS_MAX_FILES \<equiv> 8"

abbreviation (input) VFS_FILE :: u32 where
  "VFS_FILE \<equiv> 1"

abbreviation (input) VFS_DIR :: u32 where
  "VFS_DIR \<equiv> 2"

abbreviation fs_mem :: "ramfs \<Rightarrow> memory" where
  "fs_mem s \<equiv> h_mem (fs_heap s)"

definition set_fs_mem :: "memory \<Rightarrow> ramfs \<Rightarrow> ramfs" where
  "set_fs_mem m s = s\<lparr>fs_heap := (fs_heap s)\<lparr>h_mem := m\<rparr>\<rparr>"

definition upd_node :: "nat \<Rightarrow> (ramfs_node \<Rightarrow> ramfs_node) \<Rightarrow> ramfs \<Rightarrow> ramfs" where
  "upd_node i f s = s\<lparr>nodes := (nodes s)[i := f (nodes s ! i)]\<rparr>"

definition upd_vfs :: "nat \<Rightarrow> (vfs_node \<Rightarrow> vfs_node) \<Rightarrow> ramfs \<Rightarrow> ramfs" where
  "upd_vfs i f = upd_node i (\<lambda>n. n\<lparr>vfs := f (vfs n)\<rparr>)"

subsection \<open>The code\<close>

text \<open>The node after \<^verbatim>\<open>memset(node, 0, sizeof(*node))\<close>.\<close>

definition zero_node :: ramfs_node where
  "zero_node = \<lparr>vfs = \<lparr>name = [], flags = 0, inode = 0, vfs_length = 0, impl = None,
      read_fn = False, write_fn = False, readdir_fn = False, finddir_fn = False\<rparr>,
    parent = None, children = replicate 16 None, child_count = 0, data = 0, node_size = 0,
    owns_data = False\<rparr>"

definition ramfs_alloc_node :: "u8 list option \<Rightarrow> u32 \<Rightarrow> ramfs \<Rightarrow> nat option \<times> ramfs" where
  "ramfs_alloc_node nm fl s =
     (if node_count s \<ge> RAMFS_MAX_FILES + 1 then (None, s)
      else
        let i = unat (node_count s);
            node = zero_node;
            node = (case nm of
                None \<Rightarrow> node
              | Some nm \<Rightarrow>
                  let len = (if length nm \<ge> VFS_NAME_MAX then VFS_NAME_MAX - 1 else length nm) in
                  node\<lparr>vfs := (vfs node)\<lparr>name := take len nm\<rparr>\<rparr>);
            node = node\<lparr>vfs := (vfs node)\<lparr>flags := fl\<rparr>\<rparr>
        in (Some i, s\<lparr>nodes := (nodes s)[i := node], node_count := node_count s + 1\<rparr>))"

text \<open>
  The handlers receive the \<^verbatim>\<open>vfs_node\<close>, the first member of the node \<open>i\<close>, and follow its
  \<^verbatim>\<open>impl\<close> pointer.
\<close>

definition ramfs_read :: "nat \<Rightarrow> u32 \<Rightarrow> u32 \<Rightarrow> u32 \<Rightarrow> ramfs \<Rightarrow> u32 \<times> ramfs" where
  "ramfs_read i offset sz buffer s =
     (case impl (vfs (nodes s ! i)) of
        None \<Rightarrow> (0, s)
      | Some r \<Rightarrow>
          let node = nodes s ! r in
          if data node = 0 \<or> offset \<ge> node_size node then (0, s)
          else
            let sz = (if offset + sz > node_size node then node_size node - offset else sz) in
            (sz, set_fs_mem (memcpy (fs_mem s) buffer (data node + offset) sz) s))"

text \<open>The growing branch of \<^verbatim>\<open>ramfs_write\<close>; \<open>None\<close> in the first component is \<^verbatim>\<open>return 0\<close>.\<close>

definition ramfs_grow :: "nat \<Rightarrow> u32 \<Rightarrow> ramfs \<Rightarrow> (bool \<times> ramfs) option" where
  "ramfs_grow r new_size s =
     Option.bind (kmalloc new_size (fs_heap s)) (\<lambda>(new_data, h).
       let s = s\<lparr>fs_heap := h\<rparr>; node = nodes s ! r in
       if new_data = 0 then Some (False, s)
       else
         Option.bind
           (if data node \<noteq> 0 \<and> node_size node > 0 then
              let s = set_fs_mem (memcpy (fs_mem s) new_data (data node) (node_size node)) s in
              map_option (\<lambda>h. s\<lparr>fs_heap := h\<rparr>) (kfree (data node) (fs_heap s))
            else Some s)
           (\<lambda>s. Some (True, upd_node r (\<lambda>n. n\<lparr>data := new_data, node_size := new_size,
              vfs := (vfs n)\<lparr>vfs_length := new_size\<rparr>\<rparr>) s)))"

definition ramfs_write :: "nat \<Rightarrow> u32 \<Rightarrow> u32 \<Rightarrow> u32 \<Rightarrow> ramfs \<Rightarrow> (u32 \<times> ramfs) option" where
  "ramfs_write i offset sz buffer s =
     (case impl (vfs (nodes s ! i)) of
        None \<Rightarrow> Some (0, s)
      | Some r \<Rightarrow>
          let node = nodes s ! r;
              copy = (\<lambda>sz s. if data (nodes s ! r) = 0 then Some (0, s)
                else Some (sz, set_fs_mem (memcpy (fs_mem s) (data (nodes s ! r) + offset) buffer sz) s))
          in
          if offset + sz > node_size node then
            if \<not> owns_data node then
              if offset \<ge> node_size node then Some (0, s) else copy (node_size node - offset) s
            else
              Option.bind (ramfs_grow r (offset + sz) s)
                (\<lambda>(ok, s). if ok then copy sz s else Some (0, s))
          else copy sz s)"

definition ramfs_readdir :: "nat \<Rightarrow> u32 \<Rightarrow> ramfs \<Rightarrow> bool \<times> ramfs" where
  "ramfs_readdir i index s =
     (case impl (vfs (nodes s ! i)) of
        None \<Rightarrow> (False, s)
      | Some r \<Rightarrow>
          if index \<ge> child_count (nodes s ! r) then (False, s)
          else
            case children (nodes s ! r) ! unat index of
              None \<Rightarrow> (False, s)
            | Some c \<Rightarrow>
                (True, s\<lparr>dirent_tmp := \<lparr>d_name = take (VFS_NAME_MAX - 1) (name (vfs (nodes s ! c))),
                   ino = inode (vfs (nodes s ! c))\<rparr>\<rparr>))"

function finddir_loop :: "ramfs_node list \<Rightarrow> ramfs_node \<Rightarrow> u8 list \<Rightarrow> u32 \<Rightarrow> (u32 \<times> nat) option" where
  "finddir_loop ns r nm i =
     (if i < child_count r then
        case children r ! unat i of
          None \<Rightarrow> finddir_loop ns r nm (i + 1)
        | Some c \<Rightarrow> if name (vfs (ns ! c)) = nm then Some (i, c) else finddir_loop ns r nm (i + 1)
      else None)"
  by pat_completeness auto
termination
  by (relation "measure (\<lambda>(ns, r, nm, i). unat (child_count r) - unat i)") auto

declare finddir_loop.simps [simp del]

definition ramfs_finddir :: "nat \<Rightarrow> u8 list option \<Rightarrow> ramfs \<Rightarrow> nat option" where
  "ramfs_finddir i nm s =
     (case (impl (vfs (nodes s ! i)), nm) of
        (Some r, Some nm) \<Rightarrow> map_option snd (finddir_loop (nodes s) (nodes s ! r) nm 0)
      | _ \<Rightarrow> None)"

definition hello_name :: "u8 list" where
  "hello_name = map of_char ''hello.txt''"

definition vfs_set_root :: "nat option \<Rightarrow> ramfs \<Rightarrow> ramfs" where
  "vfs_set_root root s = s\<lparr>vfs_root := root\<rparr>"

definition add_child_entry :: "nat \<Rightarrow> nat \<Rightarrow> ramfs \<Rightarrow> ramfs" where
  "add_child_entry p c s =
     upd_node p (\<lambda>n. n\<lparr>children := (children n)[unat (child_count n) := Some c],
       child_count := child_count n + 1\<rparr>) s"

text \<open>
  Right after \<^verbatim>\<open>node_count = 0\<close> both allocations succeed; a null result would be dereferenced.
\<close>

definition ramfs_init :: "u32 \<Rightarrow> ramfs \<Rightarrow> ramfs option" where
  "ramfs_init hello_data s =
     (let s = s\<lparr>node_count := 0\<rparr>;
          (root, s) = ramfs_alloc_node (Some [47]) VFS_DIR s;
          s = s\<lparr>ramfs_root := root\<rparr>;
          (file, s) = ramfs_alloc_node (Some hello_name) VFS_FILE s
      in case (root, file) of
        (Some root, Some file) \<Rightarrow>
          let s = upd_node file (\<lambda>n. n\<lparr>data := hello_data, node_size := 18 - 1, owns_data := False\<rparr>) s;
              s = add_child_entry root file s;
              s = upd_node file (\<lambda>n. n\<lparr>parent := Some root\<rparr>) s;
              s = upd_vfs root (\<lambda>v. v\<lparr>readdir_fn := True, finddir_fn := True, impl := Some root\<rparr>) s;
              s = upd_vfs file (\<lambda>v. v\<lparr>read_fn := True, write_fn := True,
                    vfs_length := node_size (nodes s ! file), impl := Some file\<rparr>) s
          in Some (vfs_set_root (Some root) s)
      | _ \<Rightarrow> None)"

definition ramfs_add_child :: "nat option \<Rightarrow> nat option \<Rightarrow> ramfs \<Rightarrow> int \<times> ramfs" where
  "ramfs_add_child parent_node child s =
     (case (parent_node, child) of
        (Some p, Some c) \<Rightarrow>
          if child_count (nodes s ! p) \<ge> RAMFS_MAX_CHILDREN then (-1, s)
          else (0, upd_node c (\<lambda>n. n\<lparr>parent := Some p\<rparr>) (add_child_entry p c s))
      | _ \<Rightarrow> (-1, s))"

definition ramfs_mkdir :: "u8 list option \<Rightarrow> ramfs \<Rightarrow> int \<times> ramfs" where
  "ramfs_mkdir nm s =
     (case (ramfs_root s, nm) of
        (Some root, Some (c # cs)) \<Rightarrow>
          if ramfs_finddir root nm s \<noteq> None then (-1, s)
          else
            (case ramfs_alloc_node nm VFS_DIR s of
               (None, s) \<Rightarrow> (-1, s)
             | (Some node, s) \<Rightarrow>
                 let s = upd_vfs node (\<lambda>v. v\<lparr>readdir_fn := True, finddir_fn := True, impl := Some node\<rparr>) s
                 in ramfs_add_child (ramfs_root s) (Some node) s)
      | _ \<Rightarrow> (-1, s))"

definition ramfs_create :: "u8 list option \<Rightarrow> ramfs \<Rightarrow> int \<times> ramfs" where
  "ramfs_create nm s =
     (case (ramfs_root s, nm) of
        (Some root, Some (c # cs)) \<Rightarrow>
          if ramfs_finddir root nm s \<noteq> None then (-1, s)
          else
            (case ramfs_alloc_node nm VFS_FILE s of
               (None, s) \<Rightarrow> (-1, s)
             | (Some node, s) \<Rightarrow>
                 let s = upd_node node (\<lambda>n. n\<lparr>data := 0, node_size := 0, owns_data := True\<rparr>) s;
                     s = upd_vfs node (\<lambda>v. v\<lparr>read_fn := True, write_fn := True, vfs_length := 0,
                           impl := Some node\<rparr>) s
                 in ramfs_add_child (ramfs_root s) (Some node) s)
      | _ \<Rightarrow> (-1, s))"

function shift_children :: "u32 \<Rightarrow> u32 \<Rightarrow> nat option list \<Rightarrow> nat option list" where
  "shift_children count j cs =
     (if j + 1 < count then shift_children count (j + 1) (cs[unat j := cs ! unat (j + 1)]) else cs)"
  by pat_completeness auto
termination
  by (relation "measure (\<lambda>(count, j, cs). unat count - unat (j + 1))") (auto dest: count_up_measure simp: ac_simps)

declare shift_children.simps [simp del]

definition remove_child :: "u32 \<Rightarrow> ramfs_node \<Rightarrow> ramfs_node" where
  "remove_child i n =
     n\<lparr>children := (shift_children (child_count n) i (children n))[unat (child_count n - 1) := None],
       child_count := child_count n - 1\<rparr>"

definition ramfs_unlink :: "u8 list option \<Rightarrow> ramfs \<Rightarrow> (int \<times> ramfs) option" where
  "ramfs_unlink nm s =
     (case (ramfs_root s, nm) of
        (Some root, Some (c # cs)) \<Rightarrow>
          (case finddir_loop (nodes s) (nodes s ! root) (c # cs) 0 of
             None \<Rightarrow> Some (-1, s)
           | Some (i, child) \<Rightarrow>
               let node = nodes s ! child in
               if flags (vfs node) = VFS_DIR \<and> child_count node > 0 then Some (-1, s)
               else
                 map_option (\<lambda>s. (0, upd_node root (remove_child i) s))
                   (if owns_data node \<and> data node \<noteq> 0 then
                      map_option (\<lambda>h. upd_node child (\<lambda>n. n\<lparr>data := 0\<rparr>) (s\<lparr>fs_heap := h\<rparr>))
                        (kfree (data node) (fs_heap s))
                    else Some s))
      | _ \<Rightarrow> Some (-1, s))"

subsubsection \<open>The dispatch of \<^verbatim>\<open>vfs.c\<close>\<close>

definition vfs_init :: "ramfs \<Rightarrow> ramfs" where
  "vfs_init s = s\<lparr>vfs_root := None\<rparr>"

definition vfs_read :: "nat option \<Rightarrow> u32 \<Rightarrow> u32 \<Rightarrow> u32 \<Rightarrow> ramfs \<Rightarrow> u32 \<times> ramfs" where
  "vfs_read node offset sz buffer s =
     (case node of
        None \<Rightarrow> (0, s)
      | Some i \<Rightarrow> if \<not> read_fn (vfs (nodes s ! i)) then (0, s) else ramfs_read i offset sz buffer s)"

definition vfs_write :: "nat option \<Rightarrow> u32 \<Rightarrow> u32 \<Rightarrow> u32 \<Rightarrow> ramfs \<Rightarrow> (u32 \<times> ramfs) option" where
  "vfs_write node offset sz buffer s =
     (case node of
        None \<Rightarrow> Some (0, s)
      | Some i \<Rightarrow> if \<not> write_fn (vfs (nodes s ! i)) then Some (0, s) else ramfs_write i offset sz buffer s)"

definition vfs_readdir :: "nat option \<Rightarrow> u32 \<Rightarrow> ramfs \<Rightarrow> bool \<times> ramfs" where
  "vfs_readdir node index s =
     (case node of
        None \<Rightarrow> (False, s)
      | Some i \<Rightarrow> if \<not> readdir_fn (vfs (nodes s ! i)) then (False, s) else ramfs_readdir i index s)"

definition vfs_finddir :: "nat option \<Rightarrow> u8 list option \<Rightarrow> ramfs \<Rightarrow> nat option" where
  "vfs_finddir node nm s =
     (case node of
        None \<Rightarrow> None
      | Some i \<Rightarrow> if \<not> finddir_fn (vfs (nodes s ! i)) then None else ramfs_finddir i nm s)"

definition vfs_lookup :: "u8 list option \<Rightarrow> ramfs \<Rightarrow> nat option" where
  "vfs_lookup path s = vfs_resolve_path (\<lambda>i nm. vfs_finddir (Some i) (Some nm) s) (vfs_root s) path"

end
