(* ===== verification/Ramfs_Files.thy ===== *)
theory Ramfs_Files
  imports Ramfs
begin

text \<open>
  File contents in the RAM file system: the invariant that ties every node to its block of
  the heap or to static data, and what reading and writing do to the contents.
\<close>

subsection \<open>The invariant\<close>

definition outside_heap :: "heap_state \<Rightarrow> nat \<Rightarrow> nat \<Rightarrow> bool" where
  "outside_heap h a k \<longleftrightarrow> a + k \<le> 2 ^ 32 \<and> (a + k \<le> unat (heap_start h) \<or> unat (heap_end h) \<le> a)"

text \<open>The data of a node is a block in use that is large enough, or static data outside the heap.\<close>

definition data_ok :: "heap_state \<Rightarrow> (nat \<times> nat) set \<Rightarrow> ramfs_node \<Rightarrow> bool" where
  "data_ok h L n \<longleftrightarrow> data n \<noteq> 0 \<longrightarrow>
     (if owns_data n then \<exists>k. (unat (data n), k) \<in> L \<and> unat (node_size n) \<le> k
      else outside_heap h (unat (data n)) (unat (node_size n)))"

definition links_ok :: "nat \<Rightarrow> nat \<Rightarrow> ramfs_node \<Rightarrow> bool" where
  "links_ok count i n \<longleftrightarrow> impl (vfs n) = Some i \<and> length (children n) = 16 \<and> unat (child_count n) \<le> 16 \<and>
     (\<forall>j < unat (child_count n). \<exists>c. children n ! j = Some c \<and> 0 < c \<and> c < count) \<and>
     distinct (take (unat (child_count n)) (children n))"

definition owns_block :: "ramfs_node \<Rightarrow> bool" where
  "owns_block n \<longleftrightarrow> owns_data n \<and> data n \<noteq> 0"

definition ram_inv :: "ramfs \<Rightarrow> (nat \<times> nat) set \<Rightarrow> bool" where
  "ram_inv s L \<longleftrightarrow> length (nodes s) = 9 \<and> node_count s \<le> 9 \<and> 0 < node_count s \<and>
     ramfs_root s = Some 0 \<and> vfs_root s = Some 0 \<and> finddir_fn (vfs (nodes s ! 0)) \<and> heap_rel (fs_heap s) L \<and>
     (\<forall>i < unat (node_count s). links_ok (unat (node_count s)) i (nodes s ! i) \<and> data_ok (fs_heap s) L (nodes s ! i)) \<and>
     (\<forall>i < unat (node_count s). \<forall>j < unat (node_count s).
        owns_block (nodes s ! i) \<and> owns_block (nodes s ! j) \<and> data (nodes s ! i) = data (nodes s ! j) \<longrightarrow> i = j)"

lemma ram_invD:
  assumes "ram_inv s L"
  shows "length (nodes s) = 9" "node_count s \<le> 9" "0 < node_count s" "ramfs_root s = Some 0"
    "vfs_root s = Some 0" "finddir_fn (vfs (nodes s ! 0))" "heap_rel (fs_heap s) L"
    "i < unat (node_count s) \<Longrightarrow> links_ok (unat (node_count s)) i (nodes s ! i)"
    "i < unat (node_count s) \<Longrightarrow> data_ok (fs_heap s) L (nodes s ! i)"
    "i < unat (node_count s) \<Longrightarrow> j < unat (node_count s) \<Longrightarrow> owns_block (nodes s ! i) \<Longrightarrow>
       owns_block (nodes s ! j) \<Longrightarrow> data (nodes s ! i) = data (nodes s ! j) \<Longrightarrow> i = j"
    "i < unat (node_count s) \<Longrightarrow> i < 9" "0 < unat (node_count s)"
  using assms by (auto simp: ram_inv_def word_le_nat_alt word_less_nat_alt)

definition file_content :: "memory \<Rightarrow> ramfs_node \<Rightarrow> u8 list" where
  "file_content m n =
     (if data n = 0 then [] else map (\<lambda>j. m (ad (unat (data n) + j))) [0..<unat (node_size n)])"

abbreviation content :: "ramfs \<Rightarrow> nat \<Rightarrow> u8 list" where
  "content s i \<equiv> file_content (fs_mem s) (nodes s ! i)"

lemma upd_node_simps [simp]:
  "nodes (upd_node i f s) = (nodes s)[i := f (nodes s ! i)]"
  "node_count (upd_node i f s) = node_count s" "ramfs_root (upd_node i f s) = ramfs_root s"
  "vfs_root (upd_node i f s) = vfs_root s" "fs_heap (upd_node i f s) = fs_heap s"
  by (simp_all add: upd_node_def)

lemma set_fs_mem_simps [simp]:
  "nodes (set_fs_mem m s) = nodes s" "node_count (set_fs_mem m s) = node_count s"
  "ramfs_root (set_fs_mem m s) = ramfs_root s" "vfs_root (set_fs_mem m s) = vfs_root s"
  "fs_heap (set_fs_mem m s) = (fs_heap s)\<lparr>h_mem := m\<rparr>"
  by (simp_all add: set_fs_mem_def)

subsection \<open>What a heap operation keeps\<close>

definition heap_stable :: "heap_state \<Rightarrow> heap_state \<Rightarrow> (nat \<times> nat) set \<Rightarrow> bool" where
  "heap_stable h h' K \<longleftrightarrow> unat (heap_start h') = unat (heap_start h) \<and> unat (heap_end h') = unat (heap_end h) \<and>
     same_beyond (unat (heap_start h)) (unat (heap_end h)) (h_mem h) (h_mem h') \<and>
     same_payload K (h_mem h) (h_mem h')"

lemma stable_refl [simp]: "heap_stable h h K"
  by (simp add: heap_stable_def)

lemma stable_trans: "heap_stable h h1 K \<Longrightarrow> heap_stable h1 h2 K' \<Longrightarrow> K \<subseteq> K' \<Longrightarrow> heap_stable h h2 K"
  by (auto simp: heap_stable_def intro: same_beyond_trans same_payload_trans same_payload_subset)

lemma stable_subset: "heap_stable h h' K \<Longrightarrow> K' \<subseteq> K \<Longrightarrow> heap_stable h h' K'"
  by (auto simp: heap_stable_def intro: same_payload_subset)

lemma stable_outside: "heap_stable h h' K \<Longrightarrow> outside_heap h' = outside_heap h"
  by (simp add: heap_stable_def outside_heap_def fun_eq_iff)

lemma set_mem_outside [simp]: "outside_heap (h\<lparr>h_mem := m\<rparr>) = outside_heap h"
  by (simp add: outside_heap_def fun_eq_iff)

lemma set_mem_data_ok [simp]: "data_ok (h\<lparr>h_mem := m\<rparr>) L n = data_ok h L n"
  by (simp add: data_ok_def)

lemma stable_beyond:
  assumes "heap_stable h h' K" and "outside_heap h b n" and "x < n"
  shows "h_mem h' (ad (b + x)) = h_mem h (ad (b + x))"
proof (rule same_beyondD)
  show "same_beyond (unat (heap_start h)) (unat (heap_end h)) (h_mem h) (h_mem h')"
    using assms(1) by (simp add: heap_stable_def)
qed (use assms(2,3) in \<open>auto simp: outside_heap_def\<close>)

text \<open>The content of a node that keeps its data pointer survives, if its block does.\<close>

lemma stable_content:
  assumes st: "heap_stable h h' K" and ok: "data_ok h K n"
    and rel: "heap_rel h L" "K \<subseteq> L"
  shows "file_content (h_mem h') n = file_content (h_mem h) n"
proof -
  have "h_mem h' (ad (unat (data n) + j)) = h_mem h (ad (unat (data n) + j))"
    if d: "data n \<noteq> 0" and j: "j < unat (node_size n)" for j
  proof (cases "owns_data n")
    case True
    then obtain k where k: "(unat (data n), k) \<in> K" "unat (node_size n) \<le> k"
      using ok d by (auto simp: data_ok_def)
    with st j show ?thesis unfolding heap_stable_def same_payload_def by fastforce
  next
    case False
    then have "outside_heap h (unat (data n)) (unat (node_size n))" using ok d by (simp add: data_ok_def)
    with st j show ?thesis
      by (auto simp: heap_stable_def outside_heap_def elim!: same_beyondD)
  qed
  then show ?thesis by (simp add: file_content_def)
qed

text \<open>
  Replacing one node, together with a heap step that spares the blocks of the others, keeps
  the invariant and the other files.
\<close>

lemma other_data_ok:
  assumes inv: "ram_inv s L" and ij: "i < unat (node_count s)" "j < unat (node_count s)" "j \<noteq> i"
    and B: "\<forall>(p, k) \<in> B. owns_block (nodes s ! i) \<and> p = unat (data (nodes s ! i))"
  shows "data_ok (fs_heap s) (L - B) (nodes s ! j)"
proof (cases "owns_block (nodes s ! j)")
  case True
  with ram_invD(9) [OF inv ij(2)] obtain k where k: "(unat (data (nodes s ! j)), k) \<in> L"
    "unat (node_size (nodes s ! j)) \<le> k" by (auto simp: data_ok_def owns_block_def)
  have "(unat (data (nodes s ! j)), k) \<notin> B"
    using B ram_invD(10) [OF inv ij(2,1) True] ij(3) by (auto simp: word_unat_eq_iff)
  with True k show ?thesis by (auto simp: data_ok_def owns_block_def)
qed (use ram_invD(9) [OF inv ij(2)] in \<open>auto simp: data_ok_def owns_block_def\<close>)

lemma data_ok_stable:
  "data_ok h K n \<Longrightarrow> heap_stable h h' K \<Longrightarrow> K \<subseteq> L \<Longrightarrow> data_ok h' L n"
  unfolding data_ok_def by (auto simp: stable_outside) blast

lemma data_ok_live: "data_ok h L n \<Longrightarrow> owns_block n \<Longrightarrow> \<exists>k. (unat (data n), k) \<in> L \<and> unat (node_size n) \<le> k"
  by (simp add: data_ok_def owns_block_def)

lemma node_update_inv:
  assumes inv: "ram_inv s L" and i: "i < unat (node_count s)"
    and B: "\<forall>(p, k) \<in> B. owns_block (nodes s ! i) \<and> p = unat (data (nodes s ! i))"
    and st: "heap_stable (fs_heap s) h' (L - B)" and rel: "heap_rel h' L'" and sub: "L - B \<subseteq> L'"
    and n': "links_ok (unat (node_count s)) i (f (nodes s ! i))" "data_ok h' L' (f (nodes s ! i))"
      "finddir_fn (vfs (f (nodes s ! i))) = finddir_fn (vfs (nodes s ! i))"
    and fresh: "owns_block (f (nodes s ! i)) \<Longrightarrow>
      owns_block (nodes s ! i) \<and> data (f (nodes s ! i)) = data (nodes s ! i) \<or>
      (\<forall>k. (unat (data (f (nodes s ! i))), k) \<notin> L)"
  shows "ram_inv (upd_node i f (s\<lparr>fs_heap := h'\<rparr>)) L'"
    and "j < unat (node_count s) \<Longrightarrow> j \<noteq> i \<Longrightarrow> content (upd_node i f (s\<lparr>fs_heap := h'\<rparr>)) j = content s j"
proof -
  note I = ram_invD [OF inv]
  have other: "data_ok (fs_heap s) (L - B) (nodes s ! j)" if "j < unat (node_count s)" "j \<noteq> i" for j
    using other_data_ok [OF inv i _ _ B] that by blast
  show "content (upd_node i f (s\<lparr>fs_heap := h'\<rparr>)) j = content s j"
    if "j < unat (node_count s)" "j \<noteq> i"
    using stable_content [OF st other [OF that] I(7)] that by auto
  have ne: "data (nodes s ! j) \<noteq> data (f (nodes s ! i))"
    if "j < unat (node_count s)" "j \<noteq> i" "owns_block (nodes s ! j)" "owns_block (f (nodes s ! i))" for j
    using fresh [OF that(4)] I(10) [OF that(1) i that(3)] data_ok_live [OF I(9) [OF that(1)] that(3)] that(2) by metis
  show "ram_inv (upd_node i f (s\<lparr>fs_heap := h'\<rparr>)) L'"
    unfolding ram_inv_def
    using I(1-6,8,11) I(10) i rel n' ne data_ok_stable [OF other st sub]
    by (auto simp: nth_list_update split: if_splits) metis+
qed

lemma kmalloc_stable:
  assumes rel: "heap_rel h L" and n: "0 < unat n" "unat n \<le> 2 ^ 32 - 8"
  shows "kmalloc n h = Some (0, h) \<or>
    (\<exists>a h' k. kmalloc n h = Some (a, h') \<and> a \<noteq> 0 \<and> unat n \<le> k \<and> (\<forall>q. (unat a, q) \<notin> L) \<and>
       heap_rel h' (insert (unat a, k) L) \<and> heap_stable h h' L)"
proof (cases rule: heap.malloc_cases [OF rel n])
  case (2 p h' k)
  have "(unat p, q) \<notin> L" for q
    using heap.live_disjoint [OF 2(5), of "unat p" q "unat p" k] heap.live_range [OF 2(5), of "unat p" q]
      heap.live_range [OF 2(5), of "unat p" k] 2(4) by auto
  with 2 heap_region.malloc_region [OF rel 2(1)] show ?thesis by (auto simp: heap_stable_def)
qed simp

lemma kfree_stable:
  assumes rel: "heap_rel h L" and a: "(unat a, k) \<in> L"
  shows "\<exists>h'. kfree a h = Some h' \<and> heap_rel h' (L - {(unat a, k)}) \<and> heap_stable h h' (L - {(unat a, k)})"
proof -
  obtain h' where h': "kfree a h = Some h'" "heap_rel h' (L - {(unat a, k)})"
    "same_payload (L - {(unat a, k)}) (h_mem h) (h_mem h')"
    using heap.free_ok [OF rel a] by blast
  with heap_region.free_region [OF rel a h'(1)] show ?thesis by (auto simp: heap_stable_def)
qed

lemma write_stable:
  assumes rel: "heap_rel h L" and p: "(p, k) \<in> L" and m: "same_outside p k (h_mem h) m"
  shows "heap_rel (h\<lparr>h_mem := m\<rparr>) L \<and> heap_stable h (h\<lparr>h_mem := m\<rparr>) (L - {(p, k)})"
  using heap.write_ok [OF rel p m] heap.write_other [OF rel p m]
    heap_region.write_region [OF rel p m] by (simp add: heap_stable_def)

text \<open>Copying into a block, from a source that does not meet it.\<close>

lemma memcpy_block:
  assumes rel: "heap_rel h L" and blk: "(unat a, k) \<in> L" and fit: "unat off + unat n \<le> k"
    and src: "unat b + unat n \<le> 2 ^ 32" "unat b + unat n \<le> unat a \<or> unat a + k \<le> unat b"
  defines "m \<equiv> memcpy (h_mem h) (a + off) b n"
  shows "heap_rel (h\<lparr>h_mem := m\<rparr>) L" "heap_stable h (h\<lparr>h_mem := m\<rparr>) (L - {(unat a, k)})"
    "j < k \<Longrightarrow> m (ad (unat a + j)) =
       (if unat off \<le> j \<and> j < unat off + unat n then h_mem h (ad (unat b + (j - unat off)))
        else h_mem h (ad (unat a + j)))"
    "same_outside (unat a) k (h_mem h) m"
proof -
  have r: "unat a + k < 2 ^ 32" using heap.live_range [OF rel blk] by simp
  have dest: "a + off = ad (unat a + unat off)" by (simp add: ad_def)
  have m: "m (ad x) = (if unat a + unat off \<le> x \<and> x < unat a + unat off + unat n
      then h_mem h (ad (unat b + (x - (unat a + unat off)))) else h_mem h (ad x))" if "x < 2 ^ 32" for x
    unfolding m_def dest using memcpy_ad [of n "unat n" "unat b" "unat a + unat off" x "h_mem h"] fit r src that
    by auto
  show out: "same_outside (unat a) k (h_mem h) m"
    using m fit by (auto simp: same_outside_def)
  show "heap_rel (h\<lparr>h_mem := m\<rparr>) L" "heap_stable h (h\<lparr>h_mem := m\<rparr>) (L - {(unat a, k)})"
    using write_stable [OF rel blk out] by simp_all
  show "m (ad (unat a + j)) =
       (if unat off \<le> j \<and> j < unat off + unat n then h_mem h (ad (unat b + (j - unat off)))
        else h_mem h (ad (unat a + j)))" if "j < k"
    using m [of "unat a + j"] r that by simp
qed

subsection \<open>Growing a file\<close>

definition grown :: "u32 \<Rightarrow> u32 \<Rightarrow> ramfs_node \<Rightarrow> ramfs_node" where
  "grown a new_size n = n\<lparr>data := a, node_size := new_size, vfs := (vfs n)\<lparr>vfs_length := new_size\<rparr>\<rparr>"

text \<open>The block the file gives back, if it holds one with contents.\<close>

definition old_block :: "ramfs_node \<Rightarrow> nat \<Rightarrow> (nat \<times> nat) set" where
  "old_block n k = (if data n \<noteq> 0 \<and> node_size n > 0 then {(unat (data n), k)} else {})"

lemma copy_and_free:
  assumes rel: "heap_rel h (insert (unat a, k) L)" and new: "(unat a, k) \<notin> L" "unat sz \<le> k"
    and old: "(unat d, k0) \<in> L" "unat sz \<le> k0"
  shows "\<exists>h'. kfree d (h\<lparr>h_mem := memcpy (h_mem h) a d sz\<rparr>) = Some h' \<and>
    heap_rel h' (insert (unat a, k) (L - {(unat d, k0)})) \<and> heap_stable h h' (L - {(unat d, k0)}) \<and>
    (\<forall>j < unat sz. h_mem h' (ad (unat a + j)) = h_mem h (ad (unat d + j)))"
proof -
  define m where "m = memcpy (h_mem h) a d sz"
  have old1: "(unat d, k0) \<in> insert (unat a, k) L" using old by simp
  have "unat d + k0 \<le> unat a \<or> unat a + k \<le> unat d"
    using heap.live_disjoint [OF rel old1, of "unat a" k] old new by auto
  with heap.live_range [OF rel old1] old(2) new(2) have pre: "unat (0 :: u32) + unat sz \<le> k"
    "unat d + unat sz \<le> 2 ^ 32" "unat d + unat sz \<le> unat a \<or> unat a + k \<le> unat d"
    by auto
  note M = memcpy_block [OF rel insertI1 pre, simplified, folded m_def]
  obtain h' where h': "kfree d (h\<lparr>h_mem := m\<rparr>) = Some h'"
    "heap_rel h' (insert (unat a, k) L - {(unat d, k0)})"
    "heap_stable (h\<lparr>h_mem := m\<rparr>) h' (insert (unat a, k) L - {(unat d, k0)})"
    using kfree_stable [OF M(1) old1] by blast
  have eq: "insert (unat a, k) L - {(unat d, k0)} = insert (unat a, k) (L - {(unat d, k0)})"
    using new(1) old(1) by auto
  have "heap_stable h (h\<lparr>h_mem := m\<rparr>) (L - {(unat d, k0)})"
    using M(2) new(1) by (auto simp: heap_stable_def intro: same_payload_subset)
  then have "heap_stable h h' (L - {(unat d, k0)})"
    using h'(3) by (auto simp: eq elim: stable_trans)
  moreover have "h_mem h' (ad (unat a + j)) = h_mem h (ad (unat d + j))" if j: "j < unat sz" for j
  proof -
    have "h_mem h' (ad (unat a + j)) = m (ad (unat a + j))"
      using h'(3) j pre(1) unfolding heap_stable_def same_payload_def eq by fastforce
    with M(3) [of j] j pre(1) show ?thesis by simp
  qed
  ultimately show ?thesis using h'(1,2) by (auto simp: eq m_def)
qed

lemma ramfs_grow_cases:
  fixes s r
  defines "n \<equiv> nodes s ! r" and "h \<equiv> fs_heap s"
  assumes rel: "heap_rel h L" and new: "0 < unat new_size" "unat new_size \<le> 2 ^ 32 - 8"
    and blk: "data n \<noteq> 0 \<Longrightarrow> (unat (data n), k0) \<in> L \<and> unat (node_size n) \<le> k0"
    and bigger: "node_size n < new_size"
  shows "kmalloc new_size h = Some (0, h) \<and> ramfs_grow r new_size s = Some (False, s) \<or>
    (\<exists>a k h'. ramfs_grow r new_size s = Some (True, upd_node r (grown a new_size) (s\<lparr>fs_heap := h'\<rparr>)) \<and>
       a \<noteq> 0 \<and> unat new_size \<le> k \<and> (\<forall>q. (unat a, q) \<notin> L) \<and>
       heap_rel h' (insert (unat a, k) (L - old_block n k0)) \<and> heap_stable h h' (L - old_block n k0) \<and>
       (data n \<noteq> 0 \<longrightarrow> (\<forall>j < unat (node_size n). h_mem h' (ad (unat a + j)) = h_mem h (ad (unat (data n) + j)))))"
proof -
  consider "kmalloc new_size h = Some (0, h)"
    | a h1 k where "kmalloc new_size h = Some (a, h1)" "a \<noteq> 0" "unat new_size \<le> k" "\<forall>q. (unat a, q) \<notin> L"
        "heap_rel h1 (insert (unat a, k) L)" "heap_stable h h1 L"
    using kmalloc_stable [OF rel new] by blast
  then show ?thesis
  proof cases
    case 1
    then show ?thesis by (simp add: ramfs_grow_def h_def)
  next
    case 2
    show ?thesis
    proof (cases "data n \<noteq> 0 \<and> node_size n > 0")
      case False
      then have "old_block n k0 = {}" and "data n = 0 \<or> unat (node_size n) = 0"
        by (auto simp: old_block_def word_less_nat_alt)
      moreover have "ramfs_grow r new_size s = Some (True, upd_node r (grown a new_size) (s\<lparr>fs_heap := h1\<rparr>))"
        using 2(1,2) False by (auto simp: ramfs_grow_def h_def n_def grown_def [abs_def])
      ultimately show ?thesis using 2 by (intro disjI2 exI [of _ a] exI [of _ k] exI [of _ h1]) auto
    next
      case True
      then have old: "(unat (data n), k0) \<in> L" "unat (node_size n) \<le> k0"
        and ob: "old_block n k0 = {(unat (data n), k0)}" using blk by (auto simp: old_block_def)
      have fit: "unat (node_size n) \<le> k" using bigger 2(3) by (simp add: word_less_nat_alt)
      obtain h2 where h2: "kfree (data n) (h1\<lparr>h_mem := memcpy (h_mem h1) a (data n) (node_size n)\<rparr>) = Some h2"
        "heap_rel h2 (insert (unat a, k) (L - old_block n k0))" "heap_stable h1 h2 (L - old_block n k0)"
        "\<forall>j < unat (node_size n). h_mem h2 (ad (unat a + j)) = h_mem h1 (ad (unat (data n) + j))"
        using copy_and_free [OF 2(5) 2(4) [rule_format] fit old] unfolding ob by blast
      have "ramfs_grow r new_size s = Some (True, upd_node r (grown a new_size) (s\<lparr>fs_heap := h2\<rparr>))"
        using 2(1,2) True h2(1)
        by (simp add: ramfs_grow_def h_def n_def grown_def [abs_def] set_fs_mem_def upd_node_def Let_def)
      moreover have "heap_stable h h2 (L - old_block n k0)"
        using stable_trans [OF stable_subset [OF 2(6)] h2(3), of "L - old_block n k0"] by (simp add: Diff_subset)
      moreover have "h_mem h1 (ad (unat (data n) + j)) = h_mem h (ad (unat (data n) + j))"
        if "j < unat (node_size n)" for j
        using 2(6) old that unfolding heap_stable_def same_payload_def by fastforce
      ultimately show ?thesis
        using 2(2-4) h2(2,4) by (intro disjI2 exI [of _ a] exI [of _ k] exI [of _ h2]) simp
    qed
  qed
qed

subsection \<open>Writing and reading\<close>

text \<open>A file that was created and not unlinked; its contents lie in the heap.\<close>

definition open_file :: "ramfs \<Rightarrow> nat \<Rightarrow> bool" where
  "open_file s i \<longleftrightarrow> i < unat (node_count s) \<and> owns_data (nodes s ! i) \<and> read_fn (vfs (nodes s ! i)) \<and>
     write_fn (vfs (nodes s ! i)) \<and> (data (nodes s ! i) = 0 \<longrightarrow> node_size (nodes s ! i) = 0)"

text \<open>Replacing a part of a file, or appending to it.\<close>

definition splice :: "u8 list \<Rightarrow> nat \<Rightarrow> u8 list \<Rightarrow> u8 list" where
  "splice old off new = take off old @ new @ drop (off + length new) old"

definition buffer_bytes :: "memory \<Rightarrow> u32 \<Rightarrow> u32 \<Rightarrow> u8 list" where
  "buffer_bytes m b n = map (\<lambda>j. m (ad (unat b + j))) [0..<unat n]"

text \<open>The effect of a successful write: one file is spliced, the others and the invariant are kept.\<close>

definition written :: "ramfs \<Rightarrow> nat \<Rightarrow> nat \<Rightarrow> u8 list \<Rightarrow> ramfs \<Rightarrow> bool" where
  "written s i off new s' \<longleftrightarrow> (\<exists>L'. ram_inv s' L') \<and> node_count s' = node_count s \<and> open_file s' i \<and>
     (\<forall>j < unat (node_count s). j \<noteq> i \<longrightarrow> content s' j = content s j) \<and>
     content s' i = splice (content s i) off new"

lemma length_content:
  "open_file s i \<Longrightarrow> length (content s i) = unat (node_size (nodes s ! i))"
  by (auto simp: open_file_def file_content_def)

lemma open_impl: "ram_inv s L \<Longrightarrow> open_file s i \<Longrightarrow> impl (vfs (nodes s ! i)) = Some i"
  using ram_invD(8) by (auto simp: open_file_def links_ok_def)

lemma open_live:
  assumes "ram_inv s L" and "open_file s i" and "data (nodes s ! i) \<noteq> 0"
  shows "\<exists>k. (unat (data (nodes s ! i)), k) \<in> L \<and> unat (node_size (nodes s ! i)) \<le> k"
  using ram_invD(9) [OF assms(1)] assms by (auto simp: open_file_def data_ok_def)

lemma outside_block:
  assumes "heap_rel h L" and "(p, k) \<in> L" and "outside_heap h b n"
  shows "b + n \<le> 2 ^ 32 \<and> (b + n \<le> p \<or> p + k \<le> b)"
  using heap_region.live_region [OF assms(1,2)] assms(3) by (auto simp: outside_heap_def)

lemma splice_map:
  assumes "off \<le> length old" and "len = max (length old) (off + length new)"
    and "\<And>j. j < len \<Longrightarrow> f j = (if off \<le> j \<and> j < off + length new then new ! (j - off) else old ! j)"
  shows "map f [0..<len] = splice old off new"
proof (rule nth_equalityI)
  show "length (map f [0..<len]) = length (splice old off new)"
    using assms(1,2) by (auto simp: splice_def)
  fix j assume "j < length (map f [0..<len])"
  then show "map f [0..<len] ! j = splice old off new ! j"
    using assms by (auto simp: splice_def nth_append min_def max_def split: if_splits)
qed

text \<open>The common last step of a write: copying into a block that is large enough.\<close>

definition copy_in :: "nat \<Rightarrow> u32 \<Rightarrow> u32 \<Rightarrow> u32 \<Rightarrow> ramfs \<Rightarrow> ramfs" where
  "copy_in i off sz b s = set_fs_mem (memcpy (fs_mem s) (data (nodes s ! i) + off) b sz) s"

lemma copy_in_splice:
  assumes inv: "ram_inv s L" and i: "i < unat (node_count s)" and own: "owns_block (nodes s ! i)"
    and blk: "(unat (data (nodes s ! i)), k) \<in> L" "unat off + unat sz \<le> k"
    and size: "unat (node_size (nodes s ! i)) \<le> k"
    and out: "outside_heap (fs_heap s) (unat b) (unat sz)"
  shows "ram_inv (copy_in i off sz b s) L"
    and "j < unat (node_count s) \<Longrightarrow> j \<noteq> i \<Longrightarrow> content (copy_in i off sz b s) j = content s j"
    and "j < k \<Longrightarrow> fs_mem (copy_in i off sz b s) (ad (unat (data (nodes s ! i)) + j)) =
       (if unat off \<le> j \<and> j < unat off + unat sz then fs_mem s (ad (unat b + (j - unat off)))
        else fs_mem s (ad (unat (data (nodes s ! i)) + j)))"
proof -
  note I = ram_invD [OF inv]
  let ?h = "(fs_heap s)\<lparr>h_mem := memcpy (fs_mem s) (data (nodes s ! i) + off) b sz\<rparr>"
  note O = outside_block [OF I(7) blk(1) out]
  note M = memcpy_block [OF I(7) blk O [THEN conjunct1] O [THEN conjunct2]]
  have eq: "copy_in i off sz b s = upd_node i (\<lambda>n. n) (s\<lparr>fs_heap := ?h\<rparr>)"
    by (simp add: copy_in_def set_fs_mem_def upd_node_def)
  have B: "\<forall>(p, q) \<in> {(unat (data (nodes s ! i)), k)}. owns_block (nodes s ! i) \<and> p = unat (data (nodes s ! i))"
    using own by simp
  have d: "data_ok ?h L (nodes s ! i)"
    using own blk(1) size by (auto simp: data_ok_def owns_block_def)
  note U = node_update_inv [where f = "\<lambda>n. n", OF inv i B M(2) M(1) Diff_subset I(8) [OF i] d refl]
  show "ram_inv (copy_in i off sz b s) L" unfolding eq by (rule U(1)) (simp add: own)
  show "content (copy_in i off sz b s) j = content s j" if "j < unat (node_count s)" "j \<noteq> i"
    unfolding eq by (rule U(2)) (use own that in simp_all)
  show "fs_mem (copy_in i off sz b s) (ad (unat (data (nodes s ! i)) + j)) =
       (if unat off \<le> j \<and> j < unat off + unat sz then fs_mem s (ad (unat b + (j - unat off)))
        else fs_mem s (ad (unat (data (nodes s ! i)) + j)))" if "j < k"
    using M(3) [OF that] by (simp add: copy_in_def)
qed

lemma write_in_place:
  assumes inv: "ram_inv s L" and f: "open_file s i" and sz: "0 < unat sz"
    and fit: "unat off + unat sz \<le> unat (node_size (nodes s ! i))"
    and out: "outside_heap (fs_heap s) (unat b) (unat sz)"
  shows "\<exists>s'. ramfs_write i off sz b s = Some (sz, s') \<and> written s i (unat off) (buffer_bytes (fs_mem s) b sz) s'"
proof -
  let ?s = "copy_in i off sz b s" and ?n = "nodes s ! i"
  have "node_size ?n \<noteq> 0" using fit sz by auto
  then have d: "data ?n \<noteq> 0" and i: "i < unat (node_count s)" and own: "owns_block ?n"
    using f by (auto simp: open_file_def owns_block_def)
  obtain k where k: "(unat (data ?n), k) \<in> L" "unat (node_size ?n) \<le> k"
    using open_live [OF inv f d] by blast
  then have fitk: "unat off + unat sz \<le> k" using fit by linarith
  note C = copy_in_splice [OF inv i own k(1) fitk k(2) out]
  have "unat (off + sz) = unat off + unat sz"
    using le_less_trans [OF fit unat_u32] by (intro unat_plus_no_wrap) simp
  then have "ramfs_write i off sz b s = Some (sz, ?s)"
    using fit d open_impl [OF inv f] by (simp add: ramfs_write_def copy_in_def word_less_nat_alt Let_def)
  moreover have "content ?s i = map (\<lambda>j. fs_mem ?s (ad (unat (data ?n) + j))) [0..<unat (node_size ?n)]"
    using d by (simp add: file_content_def copy_in_def)
  moreover have "\<dots> = splice (content s i) (unat off) (buffer_bytes (fs_mem s) b sz)"
    using fit k(2) C(3) d length_content [OF f]
    by (intro splice_map) (auto simp: buffer_bytes_def file_content_def)
  moreover have "open_file ?s i" "node_count ?s = node_count s"
    using f by (simp_all add: open_file_def copy_in_def)
  ultimately show ?thesis using C(1,2) by (auto simp: written_def)
qed

lemma grown_inv:
  assumes inv: "ram_inv s L" and i: "i < unat (node_count s)" "owns_data (nodes s ! i)"
    and a: "unat new_size \<le> k" "\<forall>q. (unat a, q) \<notin> L"
    and h: "heap_rel h (insert (unat a, k) (L - old_block (nodes s ! i) k0))"
      "heap_stable (fs_heap s) h (L - old_block (nodes s ! i) k0)"
  shows "ram_inv (upd_node i (grown a new_size) (s\<lparr>fs_heap := h\<rparr>)) (insert (unat a, k) (L - old_block (nodes s ! i) k0))"
    and "j < unat (node_count s) \<Longrightarrow> j \<noteq> i \<Longrightarrow>
      content (upd_node i (grown a new_size) (s\<lparr>fs_heap := h\<rparr>)) j = content s j"
proof -
  let ?n = "nodes s ! i" and ?f = "grown a new_size"
  have B: "\<forall>(p, q) \<in> old_block ?n k0. owns_block ?n \<and> p = unat (data ?n)"
    using i(2) by (auto simp: old_block_def owns_block_def)
  have l: "links_ok (unat (node_count s)) i (?f ?n)"
    using ram_invD(8) [OF inv i(1)] by (simp add: grown_def links_ok_def)
  have d: "data_ok h (insert (unat a, k) (L - old_block ?n k0)) (?f ?n)"
    using a(1) i(2) by (auto simp: grown_def data_ok_def)
  have fd: "finddir_fn (vfs (?f ?n)) = finddir_fn (vfs ?n)" by (simp add: grown_def)
  have fr: "owns_block ?n \<and> data (?f ?n) = data ?n \<or> (\<forall>k. (unat (data (?f ?n)), k) \<notin> L)"
    using a(2) by (simp add: grown_def)
  note U = node_update_inv [where f = ?f, OF inv i(1) B h(2,1) subset_insertI l d fd]
  show "ram_inv (upd_node i ?f (s\<lparr>fs_heap := h\<rparr>)) (insert (unat a, k) (L - old_block ?n k0))"
    by (rule U(1)) (rule fr)
  show "content (upd_node i ?f (s\<lparr>fs_heap := h\<rparr>)) j = content s j" if "j < unat (node_count s)" "j \<noteq> i"
    by (rule U(2)) (use fr that in simp_all)
qed

lemma write_growing:
  assumes inv: "ram_inv s L" and f: "open_file s i" and sz: "0 < unat sz" "unat off + unat sz \<le> 2 ^ 32 - 8"
    and big: "unat (node_size (nodes s ! i)) < unat off + unat sz" and off: "unat off \<le> length (content s i)"
    and out: "outside_heap (fs_heap s) (unat b) (unat sz)"
  shows "kmalloc (off + sz) (fs_heap s) = Some (0, fs_heap s) \<and> ramfs_write i off sz b s = Some (0, s) \<or>
    (\<exists>s'. ramfs_write i off sz b s = Some (sz, s') \<and> written s i (unat off) (buffer_bytes (fs_mem s) b sz) s')"
proof -
  note I = ram_invD [OF inv]
  let ?n = "nodes s ! i"
  have i: "i < unat (node_count s)" "owns_data ?n" using f by (auto simp: open_file_def)
  have new: "unat (off + sz) = unat off + unat sz" using sz by (intro unat_plus_no_wrap) simp
  obtain k0 where k0: "data ?n \<noteq> 0 \<Longrightarrow> (unat (data ?n), k0) \<in> L \<and> unat (node_size ?n) \<le> k0"
    using open_live [OF inv f] by blast
  have bigger: "node_size ?n < off + sz" using big new by (simp add: word_less_nat_alt)
  have wr: "ramfs_write i off sz b s = Option.bind (ramfs_grow i (off + sz) s) (\<lambda>(ok, s).
      if ok then if data (nodes s ! i) = 0 then Some (0, s) else Some (sz, copy_in i off sz b s) else Some (0, s))"
    unfolding copy_in_def ramfs_write_def using bigger i(2) open_impl [OF inv f] by simp
  consider "kmalloc (off + sz) (fs_heap s) = Some (0, fs_heap s)" "ramfs_grow i (off + sz) s = Some (False, s)"
    | a k h where "ramfs_grow i (off + sz) s = Some (True, upd_node i (grown a (off + sz)) (s\<lparr>fs_heap := h\<rparr>))"
       "a \<noteq> 0" "unat (off + sz) \<le> k" "\<forall>q. (unat a, q) \<notin> L"
       "heap_rel h (insert (unat a, k) (L - old_block ?n k0))" "heap_stable (fs_heap s) h (L - old_block ?n k0)"
       "data ?n \<noteq> 0 \<Longrightarrow> \<forall>j < unat (node_size ?n). h_mem h (ad (unat a + j)) = h_mem (fs_heap s) (ad (unat (data ?n) + j))"
    using ramfs_grow_cases [OF I(7) _ _ k0 bigger] sz new by auto
  then show ?thesis
  proof cases
    case 1
    with wr show ?thesis by simp
  next
    case 2
    let ?s = "upd_node i (grown a (off + sz)) (s\<lparr>fs_heap := h\<rparr>)" and ?L = "insert (unat a, k) (L - old_block ?n k0)"
    note U = grown_inv [OF inv i 2(3-6)]
    have g: "nodes ?s ! i = grown a (off + sz) ?n" using I(1,11) i(1) by simp
    have pre: "i < unat (node_count ?s)" "owns_block (nodes ?s ! i)" "(unat (data (nodes ?s ! i)), k) \<in> ?L"
      "unat off + unat sz \<le> k" "unat (node_size (nodes ?s ! i)) \<le> k" "outside_heap (fs_heap ?s) (unat b) (unat sz)"
      using i 2(2,3) new out stable_outside [OF 2(6)] unfolding g by (auto simp: grown_def owns_block_def)
    note C = copy_in_splice [OF U(1) pre]
    have "content (copy_in i off sz b ?s) i =
        map (\<lambda>j. fs_mem (copy_in i off sz b ?s) (ad (unat a + j))) [0..<unat (off + sz)]"
      using 2(2) g by (simp add: file_content_def copy_in_def grown_def)
    also have "\<dots> = splice (content s i) (unat off) (buffer_bytes (fs_mem s) b sz)"
    proof (rule splice_map [OF off])
      show "unat (off + sz) = max (length (content s i)) (unat off + length (buffer_bytes (fs_mem s) b sz))"
        using new big length_content [OF f] by (simp add: buffer_bytes_def)
      fix j assume j: "j < unat (off + sz)"
      have src: "h_mem h (ad (unat b + (j - unat off))) = fs_mem s (ad (unat b + (j - unat off)))"
        if "unat off \<le> j"
        using stable_beyond [OF 2(6) out, of "j - unat off"] that j new by simp
      have old: "h_mem h (ad (unat a + j)) = content s i ! j" if "j < unat off"
      proof -
        have js: "j < unat (node_size ?n)" using that off length_content [OF f] by simp
        with f have "data ?n \<noteq> 0" by (auto simp: open_file_def)
        with 2(7) js show ?thesis by (simp add: file_content_def)
      qed
      show "fs_mem (copy_in i off sz b ?s) (ad (unat a + j)) =
        (if unat off \<le> j \<and> j < unat off + length (buffer_bytes (fs_mem s) b sz)
         then buffer_bytes (fs_mem s) b sz ! (j - unat off) else content s i ! j)"
        using C(3) [unfolded g, of j] j new 2(3) src old by (auto simp: grown_def buffer_bytes_def)
    qed
    finally show ?thesis
      using wr 2(1,2) g C(1,2) U(2) f by (intro disjI2) (auto simp: grown_def written_def open_file_def copy_in_def)
  qed
qed

text \<open>A buffer that meets neither the heap nor the static file contents.\<close>

definition buffer_ok :: "ramfs \<Rightarrow> u32 \<Rightarrow> u32 \<Rightarrow> bool" where
  "buffer_ok s b n \<longleftrightarrow> outside_heap (fs_heap s) (unat b) (unat n) \<and>
     (\<forall>j < unat (node_count s). data (nodes s ! j) \<noteq> 0 \<and> \<not> owns_data (nodes s ! j) \<longrightarrow>
        unat b + unat n \<le> unat (data (nodes s ! j)) \<or>
        unat (data (nodes s ! j)) + unat (node_size (nodes s ! j)) \<le> unat b)"

lemma outside_write_kept:
  assumes inv: "ram_inv s L" and b: "buffer_ok s b n"
    and m: "\<And>x. x < 2 ^ 32 \<Longrightarrow> x < unat b \<or> unat b + unat n \<le> x \<Longrightarrow> m (ad x) = fs_mem s (ad x)"
  shows "ram_inv (set_fs_mem m s) L" and "j < unat (node_count s) \<Longrightarrow> content (set_fs_mem m s) j = content s j"
proof -
  note I = ram_invD [OF inv]
  have rel: "heap_rel ((fs_heap s)\<lparr>h_mem := m\<rparr>) L"
  proof (rule heap_region.outside_ok [OF I(7)])
    fix x assume x: "unat (heap_start (fs_heap s)) \<le> x" "x < unat (heap_end (fs_heap s))"
    have "x < 2 ^ 32" using less_trans [OF x(2) unat_u32] by simp
    with x b show "m (ad x) = fs_mem s (ad x)" by (intro m) (auto simp: buffer_ok_def outside_heap_def)
  qed
  show "ram_inv (set_fs_mem m s) L"
    using inv rel by (simp add: ram_inv_def)
  show "content (set_fs_mem m s) j = content s j" if j: "j < unat (node_count s)"
  proof -
    let ?n = "nodes s ! j"
    have "m (ad (unat (data ?n) + x)) = fs_mem s (ad (unat (data ?n) + x))"
      if d: "data ?n \<noteq> 0" and x: "x < unat (node_size ?n)" for x
    proof (cases "owns_data ?n")
      case True
      then obtain k where k: "(unat (data ?n), k) \<in> L" "unat (node_size ?n) \<le> k"
        using I(9) [OF j] d by (auto simp: data_ok_def)
      have "outside_heap (fs_heap s) (unat b) (unat n)" using b by (simp add: buffer_ok_def)
      from outside_block [OF I(7) k(1) this] heap.live_range [OF I(7) k(1)] x k(2)
      show ?thesis by (intro m) auto
    next
      case False
      then have "outside_heap (fs_heap s) (unat (data ?n)) (unat (node_size ?n))"
        using I(9) [OF j] d by (simp add: data_ok_def)
      with b j d False x show ?thesis by (intro m) (auto simp: buffer_ok_def outside_heap_def)
    qed
    then show ?thesis by (simp add: file_content_def)
  qed
qed

lemma buffer_ok_mono: "buffer_ok s b n \<Longrightarrow> unat k \<le> unat n \<Longrightarrow> buffer_ok s b k"
  by (fastforce simp: buffer_ok_def outside_heap_def)

lemma data_apart:
  assumes inv: "ram_inv s L" and i: "i < unat (node_count s)" and d: "data (nodes s ! i) \<noteq> 0" and b: "buffer_ok s b n"
  shows "unat (data (nodes s ! i)) + unat (node_size (nodes s ! i)) \<le> 2 ^ 32"
    and "unat (data (nodes s ! i)) + unat (node_size (nodes s ! i)) \<le> unat b \<or> unat b + unat n \<le> unat (data (nodes s ! i))"
proof -
  let ?n = "nodes s ! i"
  have out: "outside_heap (fs_heap s) (unat b) (unat n)" using b by (simp add: buffer_ok_def)
  have "unat (data ?n) + unat (node_size ?n) \<le> 2 ^ 32 \<and>
    (unat (data ?n) + unat (node_size ?n) \<le> unat b \<or> unat b + unat n \<le> unat (data ?n))"
  proof (cases "owns_data ?n")
    case True
    then obtain k where k: "(unat (data ?n), k) \<in> L" "unat (node_size ?n) \<le> k"
      using ram_invD(9) [OF inv i] d by (auto simp: data_ok_def)
    from outside_block [OF ram_invD(7) [OF inv] k(1) out] heap.live_range [OF ram_invD(7) [OF inv] k(1)] k(2)
    show ?thesis by auto
  next
    case False
    then have "outside_heap (fs_heap s) (unat (data ?n)) (unat (node_size ?n))"
      using ram_invD(9) [OF inv i] d by (simp add: data_ok_def)
    with b i d False show ?thesis by (auto simp: buffer_ok_def outside_heap_def)
  qed
  then show "unat (data ?n) + unat (node_size ?n) \<le> 2 ^ 32"
    and "unat (data ?n) + unat (node_size ?n) \<le> unat b \<or> unat b + unat n \<le> unat (data ?n)" by blast+
qed

lemma read_slice:
  assumes inv: "ram_inv s L" and i: "i < unat (node_count s)" and b: "buffer_ok s b sz"
    and nowrap: "unat off < length (content s i) \<Longrightarrow> unat off + unat sz < 2 ^ 32"
  shows "\<exists>r m. ramfs_read i off sz b s = (r, set_fs_mem m s) \<and> ram_inv (set_fs_mem m s) L \<and>
    buffer_bytes m b r = take (unat sz) (drop (unat off) (content s i)) \<and>
    (\<forall>j < unat (node_count s). content (set_fs_mem m s) j = content s j)"
proof (cases "data (nodes s ! i) = 0 \<or> node_size (nodes s ! i) \<le> off")
  case True
  then have "drop (unat off) (content s i) = []" by (auto simp: file_content_def word_le_nat_alt)
  moreover have "impl (vfs (nodes s ! i)) = Some i" using ram_invD(8) [OF inv i] by (simp add: links_ok_def)
  moreover have "set_fs_mem (fs_mem s) s = s" by (simp add: set_fs_mem_def)
  ultimately show ?thesis using True inv
    by (intro exI [of _ 0] exI [of _ "fs_mem s"]) (simp add: ramfs_read_def buffer_bytes_def)
next
  case False
  let ?n = "nodes s ! i"
  have d: "data ?n \<noteq> 0" and len: "length (content s i) = unat (node_size ?n)" using False by (auto simp: file_content_def)
  define r where "r = (if off + sz > node_size ?n then node_size ?n - off else sz)"
  have lt: "unat off < unat (node_size ?n)" using False by (auto simp: word_le_nat_alt)
  have "unat (off + sz) = unat off + unat sz" using nowrap len lt by (intro unat_plus_no_wrap) simp
  moreover have "unat (node_size ?n - off) = unat (node_size ?n) - unat off"
    using False by (intro unat_sub) auto
  ultimately have r: "unat r = min (unat sz) (unat (node_size ?n) - unat off)"
    using False by (auto simp: r_def word_less_nat_alt word_le_nat_alt)
  have br: "buffer_ok s b r" using buffer_ok_mono [OF b] r by simp
  then have out: "outside_heap (fs_heap s) (unat b) (unat r)" by (simp add: buffer_ok_def)
  note O = data_apart [OF inv i d br]
  let ?m = "memcpy (fs_mem s) b (data ?n + off) r"
  have fit: "unat off + unat r \<le> unat (node_size ?n)" using r lt by linarith
  then have pre: "unat (data ?n) + unat off + unat r \<le> 2 ^ 32" "unat b + unat r \<le> 2 ^ 32"
    "unat (data ?n) + unat off + unat r \<le> unat b \<or> unat b + unat r \<le> unat (data ?n) + unat off"
    using O out by (auto simp: outside_heap_def)
  have src: "data ?n + off = ad (unat (data ?n) + unat off)" by (simp add: ad_def)
  have m: "?m (ad x) = (if unat b \<le> x \<and> x < unat b + unat r then fs_mem s (ad (unat (data ?n) + unat off + (x - unat b)))
      else fs_mem s (ad x))" if "x < 2 ^ 32" for x
    unfolding src using memcpy_ad [OF refl pre that, of "fs_mem s"] by simp
  have mout: "?m (ad x) = fs_mem s (ad x)" if "x < 2 ^ 32" "x < unat b \<or> unat b + unat r \<le> x" for x
    using m [OF that(1)] that(2) by auto
  have read: "ramfs_read i off sz b s = (r, set_fs_mem ?m s)"
    using False ram_invD(8) [OF inv i] by (auto simp: ramfs_read_def r_def Let_def links_ok_def)
  have "buffer_bytes ?m b r = take (unat sz) (drop (unat off) (content s i))"
    using m pre False r by (intro nth_equalityI) (auto simp: buffer_bytes_def file_content_def add.assoc min.commute)
  moreover have "ram_inv (set_fs_mem ?m s) L" "\<forall>j < unat (node_count s). content (set_fs_mem ?m s) j = content s j"
    using outside_write_kept [OF inv br mout] by auto
  ultimately show ?thesis using read by auto
qed

lemma splice_slice: "off \<le> length old \<Longrightarrow> take (length new) (drop off (splice old off new)) = new"
  by (simp add: splice_def)

lemma ramfs_write_cases:
  assumes "ram_inv s L" and "open_file s i" and "0 < unat sz" and "unat off + unat sz \<le> 2 ^ 32 - 8"
    and "unat off \<le> length (content s i)" and "outside_heap (fs_heap s) (unat b) (unat sz)"
  shows "kmalloc (off + sz) (fs_heap s) = Some (0, fs_heap s) \<and> ramfs_write i off sz b s = Some (0, s) \<or>
    (\<exists>s'. ramfs_write i off sz b s = Some (sz, s') \<and> written s i (unat off) (buffer_bytes (fs_mem s) b sz) s')"
proof (cases "unat off + unat sz \<le> unat (node_size (nodes s ! i))")
  case True
  from write_in_place [OF assms(1-3) True assms(6)] show ?thesis by blast
next
  case False
  then have "unat (node_size (nodes s ! i)) < unat off + unat sz" by simp
  from write_growing [OF assms(1-4) this assms(5,6)] show ?thesis .
qed

text \<open>Reading what was just written, into any buffer.\<close>

lemma read_written:
  assumes w: "written s i (unat off) new s'" and new: "length new = unat sz"
    and off: "unat off \<le> length (content s i)" "unat off + unat sz < 2 ^ 32" and b: "buffer_ok s' b sz"
  shows "\<exists>s''. ramfs_read i off sz b s' = (sz, s'') \<and> buffer_bytes (fs_mem s'') b sz = new \<and>
    (\<forall>j < unat (node_count s). content s'' j = content s' j)"
proof -
  obtain L' where inv: "ram_inv s' L'" and f: "open_file s' i" and cnt: "node_count s' = node_count s"
    and c: "content s' i = splice (content s i) (unat off) new" using w by (auto simp: written_def)
  obtain r s'' where r: "ramfs_read i off sz b s' = (r, s'')"
    "buffer_bytes (fs_mem s'') b r = take (unat sz) (drop (unat off) (content s' i))"
    "\<forall>j < unat (node_count s'). content s'' j = content s' j"
    using read_slice [OF inv _ b, of i off] f off(2) by (auto simp: open_file_def)
  have eq: "buffer_bytes (fs_mem s'') b r = new" using r(2) splice_slice [OF off(1), of new] by (simp add: c new)
  then have "unat r = unat sz" using new by (auto simp: buffer_bytes_def)
  then have "r = sz" by (simp add: word_unat_eq_iff)
  with r(1,3) eq cnt show ?thesis by auto
qed

end
