(* ===== verification/Ramfs_Directory.thy ===== *)
theory Ramfs_Directory
  imports Ramfs_Files
begin

text \<open>
  The root directory of the RAM file system: initialisation, lookup, creation and removal of
  entries, over the list of the children and of their names.
\<close>

definition kids :: "ramfs_node \<Rightarrow> nat list" where
  "kids n = map the (take (unat (child_count n)) (children n))"

definition dir_names :: "ramfs \<Rightarrow> u8 list list" where
  "dir_names s = map (\<lambda>c. name (vfs (nodes s ! c))) (kids (nodes s ! 0))"

lemma kids_nth:
  assumes "links_ok cnt i n" and "j < unat (child_count n)"
  shows "children n ! j = Some (kids n ! j)" "0 < kids n ! j" "kids n ! j < cnt"
proof -
  obtain c where "children n ! j = Some c" "0 < c" "c < cnt" and "unat (child_count n) \<le> 16" "length (children n) = 16"
    using assms by (auto simp: links_ok_def)
  with assms(2) show "children n ! j = Some (kids n ! j)" "0 < kids n ! j" "kids n ! j < cnt"
    by (simp_all add: kids_def)
qed

lemma length_kids: "links_ok cnt i n \<Longrightarrow> length (kids n) = unat (child_count n)"
  by (simp add: links_ok_def kids_def)

subsection \<open>Lookup\<close>

text \<open>The loop finds the first child with the name.\<close>

lemma finddir_loop_spec:
  assumes "links_ok cnt i0 r"
  shows "case finddir_loop ns r nm i of
      None \<Rightarrow> \<forall>l. unat i \<le> l \<and> l < unat (child_count r) \<longrightarrow> name (vfs (ns ! (kids r ! l))) \<noteq> nm
    | Some (j, c) \<Rightarrow> i \<le> j \<and> j < child_count r \<and> c = kids r ! unat j \<and> name (vfs (ns ! c)) = nm \<and>
        (\<forall>l. unat i \<le> l \<and> l < unat j \<longrightarrow> name (vfs (ns ! (kids r ! l))) \<noteq> nm)"
  using assms
proof (induction ns r nm i rule: finddir_loop.induct)
  case (1 ns r nm i)
  show ?case
  proof (cases "i < child_count r")
    case True
    then have lt: "unat i < unat (child_count r)" by (simp add: word_less_nat_alt)
    note K = kids_nth [OF 1(3) lt]
    have suc: "unat (i + 1) = Suc (unat i)" using unat_succ_less [OF True] .
    have le: "i + 1 \<le> j \<Longrightarrow> i \<le> j" for j using suc by (simp add: word_le_nat_alt)
    show ?thesis
    proof (cases "name (vfs (ns ! (kids r ! unat i))) = nm")
      case eq: True
      with K(1) True show ?thesis by (auto simp: finddir_loop.simps [of ns r nm i])
    next
      case False
      have step: "finddir_loop ns r nm i = finddir_loop ns r nm (i + 1)"
        using K(1) True False by (simp add: finddir_loop.simps [of ns r nm i])
      from 1(2) [OF True K(1) False 1(3)] show ?thesis
        unfolding step using le False
        by (auto simp: suc Suc_le_eq split: option.splits) (metis le_neq_implies_less)+
    qed
  qed (auto simp: finddir_loop.simps [of ns r nm i] word_less_nat_alt)
qed

lemma finddir_loop_none:
  assumes "links_ok cnt i0 r"
  shows "finddir_loop ns r nm 0 = None \<longleftrightarrow> nm \<notin> set (map (\<lambda>c. name (vfs (ns ! c))) (kids r))"
proof (cases "finddir_loop ns r nm 0")
  case None
  with finddir_loop_spec [OF assms, where ns = ns and nm = nm and i = 0] length_kids [OF assms] show ?thesis
    by (auto simp: in_set_conv_nth)
next
  case (Some p)
  with finddir_loop_spec [OF assms, where ns = ns and nm = nm and i = 0] length_kids [OF assms] show ?thesis
    by (auto simp: word_less_nat_alt split: prod.splits intro!: imageI nth_mem)
qed

lemma root_links: "ram_inv s L \<Longrightarrow> links_ok (unat (node_count s)) 0 (nodes s ! 0)"
  using ram_invD(8,12) by blast

lemma ramfs_finddir_root:
  assumes "ram_inv s L"
  shows "ramfs_finddir 0 (Some nm) s = None \<longleftrightarrow> nm \<notin> set (dir_names s)"
  using finddir_loop_none [OF root_links [OF assms], of "nodes s" nm] root_links [OF assms]
  by (auto simp: ramfs_finddir_def dir_names_def links_ok_def)

lemma components_root_entry:
  assumes "nm \<noteq> []" and "47 \<notin> set nm"
  shows "components (47 # nm) = [nm]"
  using components_join [of "[nm]"] assms by simp

lemma vfs_lookup_root:
  assumes inv: "ram_inv s L" and nm: "nm \<noteq> []" "47 \<notin> set nm" "length nm \<le> 127"
  shows "vfs_lookup (Some (47 # nm)) s = ramfs_finddir 0 (Some nm) s"
proof -
  have "resolve_loop f r nm = walk f r [nm]" for f and r :: nat
    using resolve_loop_walk [of nm f r] components_root_entry [OF nm(1,2)] nm by (cases nm) auto
  then show ?thesis
    using nm ram_invD(5,6) [OF inv] hd_in_set [OF nm(1)]
    by (cases nm) (auto simp: vfs_lookup_def vfs_resolve_path_def vfs_finddir_def split: option.splits)
qed

subsection \<open>Adding an entry\<close>

definition link_child :: "nat \<Rightarrow> ramfs_node \<Rightarrow> ramfs_node" where
  "link_child c n = n\<lparr>children := (children n)[unat (child_count n) := Some c], child_count := child_count n + 1\<rparr>"

text \<open>The state after a node was allocated in the next slot and linked below the root.\<close>

definition added :: "ramfs \<Rightarrow> ramfs_node \<Rightarrow> ramfs" where
  "added s n = s\<lparr>nodes := (nodes s)[unat (node_count s) := n, 0 := link_child (unat (node_count s)) (nodes s ! 0)],
     node_count := node_count s + 1\<rparr>"

definition new_file :: "u8 list \<Rightarrow> nat \<Rightarrow> ramfs_node" where
  "new_file nm i = zero_node\<lparr>vfs := \<lparr>name = take 127 nm, flags = VFS_FILE, inode = 0, vfs_length = 0, impl = Some i,
     read_fn = True, write_fn = True, readdir_fn = False, finddir_fn = False\<rparr>, parent := Some 0, owns_data := True\<rparr>"

definition new_dir :: "u8 list \<Rightarrow> nat \<Rightarrow> ramfs_node" where
  "new_dir nm i = zero_node\<lparr>vfs := \<lparr>name = take 127 nm, flags = VFS_DIR, inode = 0, vfs_length = 0, impl = Some i,
     read_fn = False, write_fn = False, readdir_fn = True, finddir_fn = True\<rparr>, parent := Some 0\<rparr>"

lemma few_children:
  assumes "links_ok cnt i n" and "cnt \<le> 9" and "0 < cnt"
  shows "unat (child_count n) \<le> 8" and "child_count n < 16"
proof -
  have d: "distinct (kids n)"
    using assms(1) kids_nth(1) [OF assms(1)] unfolding distinct_conv_nth links_ok_def length_kids [OF assms(1)]
    by (metis (no_types, lifting) length_take min.absorb2 nth_take)
  have "set (kids n) \<subseteq> {1..<cnt}"
    using kids_nth(2,3) [OF assms(1)] by (auto simp: in_set_conv_nth length_kids [OF assms(1)] Suc_le_eq)
  then have "length (kids n) \<le> card {1..<cnt}"
    using d by (metis card_mono distinct_card finite_atLeastLessThan)
  with assms show "unat (child_count n) \<le> 8" by (simp add: length_kids)
  then show "child_count n < 16" by (simp add: word_less_nat_alt)
qed

lemma take_if_length: "take (if 128 \<le> length xs then 127 else length xs) xs = take 127 xs"
  by auto

lemma ramfs_alloc_node_ok:
  assumes "node_count s < 9"
  shows "ramfs_alloc_node (Some nm) fl s =
    (Some (unat (node_count s)), s\<lparr>nodes := (nodes s)[unat (node_count s) :=
       zero_node\<lparr>vfs := (vfs zero_node)\<lparr>name := take 127 nm, flags := fl\<rparr>\<rparr>], node_count := node_count s + 1\<rparr>)"
  using assms by (auto simp: ramfs_alloc_node_def Let_def)

lemma ramfs_add_child_ok:
  assumes "0 < i" and "i < length (nodes s)" and "child_count (nodes s ! 0) < 16"
  shows "ramfs_add_child (Some 0) (Some i) s =
    (0, s\<lparr>nodes := (nodes s)[i := (nodes s ! i)\<lparr>parent := Some 0\<rparr>, 0 := link_child i (nodes s ! 0)]\<rparr>)"
  using assms
  by (auto simp: ramfs_add_child_def add_child_entry_def upd_node_def link_child_def list_update_swap)

lemma ramfs_create_ok:
  assumes inv: "ram_inv s L" and nm: "nm \<noteq> []" "nm \<notin> set (dir_names s)" and room: "node_count s < 9"
  shows "ramfs_create (Some nm) s = (0, added s (new_file nm (unat (node_count s))))"
    and "ramfs_mkdir (Some nm) s = (0, added s (new_dir nm (unat (node_count s))))"
proof -
  note I = ram_invD [OF inv]
  have f: "ramfs_finddir 0 (Some nm) s = None" using ramfs_finddir_root [OF inv] nm by simp
  have c: "child_count (nodes s ! 0) < 16"
    using few_children(2) [OF root_links [OF inv]] I(2,12) by (simp add: word_le_nat_alt)
  have r: "unat (node_count s) < 9" using room by (simp add: word_less_nat_alt)
  obtain x xs where x: "nm = x # xs" using nm by (cases nm) auto
  show "ramfs_create (Some nm) s = (0, added s (new_file nm (unat (node_count s))))"
    unfolding ramfs_create_def x using f c r I(1,4,12)
    by (simp add: ramfs_alloc_node_ok [OF room] ramfs_add_child_ok upd_vfs_def upd_node_def Let_def x)
       (simp add: added_def new_file_def zero_node_def)
  show "ramfs_mkdir (Some nm) s = (0, added s (new_dir nm (unat (node_count s))))"
    unfolding ramfs_mkdir_def x using f c r I(1,4,12)
    by (simp add: ramfs_alloc_node_ok [OF room] ramfs_add_child_ok upd_vfs_def upd_node_def Let_def x)
       (simp add: added_def new_dir_def zero_node_def)
qed

lemma links_ok_mono: "links_ok cnt i n \<Longrightarrow> cnt \<le> cnt' \<Longrightarrow> links_ok cnt' i n"
  unfolding links_ok_def by (meson order_less_le_trans)

lemma take_children:
  assumes "links_ok cnt i n" shows "take (unat (child_count n)) (children n) = map Some (kids n)"
  using assms kids_nth(1) [OF assms]
  by (intro nth_equalityI) (auto simp: length_kids [OF assms] links_ok_def)

lemma link_child_ok:
  assumes ok: "links_ok cnt 0 n" and c: "0 < cnt" "cnt < 9"
  shows "links_ok (Suc cnt) 0 (link_child cnt n)" and "kids (link_child cnt n) = kids n @ [cnt]"
proof -
  have cc: "unat (child_count n) \<le> 8" "child_count n < 16" using few_children [OF ok] c by simp_all
  then have suc: "unat (child_count n + 1) = Suc (unat (child_count n))" using unat_succ_less by blast
  have len: "length (children n) = 16" using ok by (simp add: links_ok_def)
  have tk: "take (unat (child_count n + 1)) (children (link_child cnt n)) = map Some (kids n @ [cnt])"
    using take_children [OF ok] cc(1) len suc by (simp add: link_child_def take_Suc_conv_app_nth)
  then show kids: "kids (link_child cnt n) = kids n @ [cnt]" by (simp add: kids_def link_child_def o_def)
  have "cnt \<notin> set (kids n)"
    using kids_nth(3) [OF ok] by (fastforce simp: in_set_conv_nth length_kids [OF ok])
  moreover have "distinct (map Some (kids n))" using ok take_children [OF ok] by (simp add: links_ok_def)
  ultimately have d: "distinct (map Some (kids n @ [cnt]))" by (auto simp: distinct_map)
  have "\<exists>c. children (link_child cnt n) ! j = Some c \<and> 0 < c \<and> c < Suc cnt" if "j < Suc (unat (child_count n))" for j
  proof -
    have "children (link_child cnt n) ! j = Some ((kids n @ [cnt]) ! j)"
      using tk that suc length_kids [OF ok] by (metis length_append_singleton nth_map nth_take)
    with that c kids_nth(2,3) [OF ok, of j] show ?thesis
      by (auto simp: nth_append length_kids [OF ok])
  qed
  with ok cc d tk suc len show "links_ok (Suc cnt) 0 (link_child cnt n)"
    by (simp add: links_ok_def link_child_def)
qed

lemma added_ok:
  assumes inv: "ram_inv s L" and room: "node_count s < 9"
    and n: "impl (vfs n) = Some (unat (node_count s))" "length (children n) = 16" "child_count n = 0" "data n = 0"
  shows "ram_inv (added s n) L" and "dir_names (added s n) = dir_names s @ [name (vfs n)]"
    and "nodes (added s n) ! unat (node_count s) = n"
    and "j < unat (node_count s) \<Longrightarrow> content (added s n) j = content s j"
proof -
  note I = ram_invD [OF inv]
  let ?c = "unat (node_count s)"
  have c: "0 < ?c" "?c < 9" using I(12) room by (simp_all add: word_less_nat_alt)
  have suc: "unat (node_count s + 1) = Suc ?c" using room by (rule unat_succ_less)
  note R = link_child_ok [OF root_links [OF inv] c]
  have root: "nodes (added s n) ! 0 = link_child ?c (nodes s ! 0)"
    and new: "nodes (added s n) ! ?c = n"
    and old: "j \<noteq> 0 \<Longrightarrow> j \<noteq> ?c \<Longrightarrow> nodes (added s n) ! j = nodes s ! j" for j
    using I(1) c by (auto simp: added_def)
  have same: "data (link_child k r) = data r" "owns_data (link_child k r) = owns_data r"
    "node_size (link_child k r) = node_size r" "vfs (link_child k r) = vfs r" for k r
    by (simp_all add: link_child_def)
  show "nodes (added s n) ! ?c = n" by (rule new)
  show "content (added s n) j = content s j" if "j < ?c"
    using that root old by (cases "j = 0") (auto simp: file_content_def same added_def)
  have nd: "nodes (added s n) ! k = (if k = 0 then link_child ?c (nodes s ! 0) else if k = ?c then n else nodes s ! k)" for k
    using root new old by simp
  have heap: "fs_heap (added s n) = fs_heap s" "node_count (added s n) = node_count s + 1"
    "length (nodes (added s n)) = 9" "ramfs_root (added s n) = Some 0" "vfs_root (added s n) = Some 0"
    using I(1,4,5) by (simp_all add: added_def)
  have links: "links_ok (Suc ?c) k (nodes (added s n) ! k)" if "k < Suc ?c" for k
  proof -
    have "links_ok (Suc ?c) ?c n" using n by (simp add: links_ok_def)
    moreover have "links_ok (Suc ?c) k (nodes s ! k)" if "k < ?c" using links_ok_mono [OF I(8) [OF that]] by simp
    ultimately show ?thesis using that R(1) by (auto simp: nd less_Suc_eq)
  qed
  have data: "data_ok (fs_heap s) L (nodes (added s n) ! k)" if "k < Suc ?c" for k
    using that I(9) [of k] I(9) [of 0] n(4) c by (auto simp: nd data_ok_def same)
  have ob: "k < ?c \<and> owns_block (nodes s ! k)" if "k < Suc ?c" "owns_block (nodes (added s n) ! k)" for k
    using that n(4) c(1) by (auto simp: nd owns_block_def same less_Suc_eq split: if_splits)
  have dt: "data (nodes (added s n) ! k) = data (nodes s ! k)" if "k < ?c" for k
    using that by (simp add: nd same)
  have uniq: "i = k" if "i < Suc ?c" "k < Suc ?c" "owns_block (nodes (added s n) ! i)" "owns_block (nodes (added s n) ! k)"
    "data (nodes (added s n) ! i) = data (nodes (added s n) ! k)" for i k
    using I(10) [of i k] ob [OF that(1,3)] ob [OF that(2,4)] that(5) dt by simp
  have "node_count s + 1 \<le> 9" "0 < node_count s + 1" "finddir_fn (vfs (nodes (added s n) ! 0))"
    using suc c I(6) by (simp_all add: word_le_nat_alt word_less_nat_alt nd same)
  then show "ram_inv (added s n) L"
    unfolding ram_inv_def heap suc using links data I(7) uniq by blast
  have "k \<noteq> 0 \<and> k \<noteq> ?c" if "k \<in> set (kids (nodes s ! 0))" for k
    using that kids_nth(2,3) [OF root_links [OF inv]]
    by (fastforce simp: in_set_conv_nth length_kids [OF root_links [OF inv]])
  then show "dir_names (added s n) = dir_names s @ [name (vfs n)]"
    using R(2) old new c by (auto simp: dir_names_def root)
qed

subsection \<open>Removing an entry\<close>

lemma shift_children_nth:
  assumes "j < count" and "unat count \<le> length cs"
  shows "length (shift_children count j cs) = length cs \<and>
    (\<forall>l < length cs. shift_children count j cs ! l =
       (if unat j \<le> l \<and> Suc l < unat count then cs ! Suc l else cs ! l))"
  using assms
proof (induction count j cs rule: shift_children.induct)
  case (1 count j cs)
  have suc: "unat (j + 1) = Suc (unat j)" using 1(2) by (rule unat_succ_less)
  show ?case
  proof (cases "j + 1 < count")
    case True
    then have lt: "Suc (unat j) < unat count" using suc by (simp add: word_less_nat_alt)
    have step: "shift_children count j cs = shift_children count (j + 1) (cs[unat j := cs ! Suc (unat j)])"
      using True suc by (simp add: shift_children.simps [of count j cs])
    from 1(1) [OF True True] 1(3) show ?thesis
      unfolding step suc using lt by (auto simp: nth_list_update le_Suc_eq Suc_le_eq)
  next
    case False
    then have "unat count \<le> Suc (unat j)" using suc by (simp add: word_less_nat_alt)
    with False show ?thesis by (auto simp: shift_children.simps [of count j cs])
  qed
qed

lemma remove_child_ok:
  assumes ok: "links_ok cnt 0 n" and j: "j < child_count n"
  shows "links_ok cnt 0 (remove_child j n)"
    and "kids (remove_child j n) = take (unat j) (kids n) @ drop (Suc (unat j)) (kids n)"
proof -
  let ?c = "unat (child_count n)"
  define k where "k = take (unat j) (kids n) @ drop (Suc (unat j)) (kids n)"
  have lt: "unat j < ?c" and len: "length (children n) = 16" "?c \<le> 16"
    using ok j by (auto simp: links_ok_def word_less_nat_alt)
  have m1: "unat (child_count n - 1) = ?c - 1" using lt by (subst unat_sub) (simp_all add: word_le_nat_alt)
  note S = shift_children_nth [OF j, of "children n"]
  have nth: "children (remove_child j n) ! l = Some (k ! l)" if "l < ?c - 1" for l
    using that S lt len kids_nth(1) [OF ok, of l] kids_nth(1) [OF ok, of "Suc l"] m1
    by (auto simp: k_def remove_child_def nth_append length_kids [OF ok])
  have lk: "length k = ?c - 1" using lt length_kids [OF ok] by (simp add: k_def)
  have lc: "length (children (remove_child j n)) = 16" using S len by (simp add: remove_child_def)
  have tk: "take (?c - 1) (children (remove_child j n)) = map Some k"
    using nth lc len lk by (intro nth_equalityI) auto
  have cc: "child_count (remove_child j n) = child_count n - 1" by (simp add: remove_child_def)
  show "kids (remove_child j n) = take (unat j) (kids n) @ drop (Suc (unat j)) (kids n)"
    unfolding k_def [symmetric] kids_def [of "remove_child j n"] cc m1 tk by (simp add: o_def)
  have d: "distinct (kids n)" using ok take_children [OF ok] by (simp add: links_ok_def distinct_map)
  have sub: "0 < c \<and> c < cnt" if "c \<in> set (kids n)" for c
    using that kids_nth(2,3) [OF ok] by (auto simp: in_set_conv_nth length_kids [OF ok])
  have "set k \<subseteq> set (kids n)" using set_take_subset [of "unat j" "kids n"] set_drop_subset [of "Suc (unat j)" "kids n"] by (auto simp: k_def)
  then have "\<exists>c. children (remove_child j n) ! l = Some c \<and> 0 < c \<and> c < cnt" if "l < ?c - 1" for l
    using nth [OF that] that lk sub [of "k ! l"] nth_mem [of l k] by (metis subsetD)
  moreover have "distinct (map Some k)"
    using d set_take_disj_set_drop_if_distinct [OF d, of "unat j" "Suc (unat j)"] by (auto simp: k_def distinct_map)
  ultimately show "links_ok cnt 0 (remove_child j n)"
    unfolding links_ok_def cc m1 using ok len lc tk by (simp add: links_ok_def remove_child_def)
qed

lemma remove1_first:
  "j < length xs \<Longrightarrow> xs ! j = a \<Longrightarrow> (\<And>l. l < j \<Longrightarrow> xs ! l \<noteq> a) \<Longrightarrow> remove1 a xs = take j xs @ drop (Suc j) xs"
proof (induction j arbitrary: xs)
  case 0
  then show ?case by (cases xs) auto
next
  case (Suc j)
  then obtain x ys where xs: "xs = x # ys" by (cases xs) auto
  have "x \<noteq> a" using Suc.prems(3) [of 0] xs by simp
  moreover have "remove1 a ys = take j ys @ drop (Suc j) ys"
    using Suc.prems xs Suc.IH [of ys] Suc.prems(3) [of "Suc l" for l] by fastforce
  ultimately show ?case by (simp add: xs)
qed

text \<open>Relinking the root, with the heap unchanged.\<close>

lemma relink_root:
  assumes inv: "ram_inv s L" and ok: "links_ok (unat (node_count s)) 0 (f (nodes s ! 0))"
    and f: "\<And>n. data (f n) = data n" "\<And>n. owns_data (f n) = owns_data n" "\<And>n. node_size (f n) = node_size n"
      "\<And>n. vfs (f n) = vfs n"
  shows "ram_inv (upd_node 0 f s) L" and "j < unat (node_count s) \<Longrightarrow> content (upd_node 0 f s) j = content s j"
proof -
  note I = ram_invD [OF inv]
  have h: "s\<lparr>fs_heap := fs_heap s\<rparr> = s" by simp
  have d: "data_ok (fs_heap s) L (f (nodes s ! 0))"
    using I(9) [OF I(12)] by (simp add: data_ok_def f)
  have B: "\<forall>(p, k) \<in> {}. owns_block (nodes s ! 0) \<and> p = unat (data (nodes s ! 0))" by simp
  note U = node_update_inv [where f = f and B = "{}" and h' = "fs_heap s" and L' = L,
      OF inv I(12) B stable_refl I(7) Diff_subset ok d, unfolded h]
  show "ram_inv (upd_node 0 f s) L" by (rule U(1)) (auto simp: f owns_block_def)
  show "content (upd_node 0 f s) j = content s j" if "j < unat (node_count s)"
  proof (cases "j = 0")
    case True
    with I(1) show ?thesis by (simp add: file_content_def f)
  qed (use U(2) [OF _ _ that] in \<open>auto simp: f owns_block_def\<close>)
qed

lemma drop_data:
  assumes inv: "ram_inv s L" and i: "i < unat (node_count s)" and own: "owns_block (nodes s ! i)"
  shows "\<exists>h k. kfree (data (nodes s ! i)) (fs_heap s) = Some h \<and> (unat (data (nodes s ! i)), k) \<in> L \<and>
    ram_inv (upd_node i (\<lambda>n. n\<lparr>data := 0\<rparr>) (s\<lparr>fs_heap := h\<rparr>)) (L - {(unat (data (nodes s ! i)), k)}) \<and>
    (\<forall>j < unat (node_count s). j \<noteq> i \<longrightarrow> content (upd_node i (\<lambda>n. n\<lparr>data := 0\<rparr>) (s\<lparr>fs_heap := h\<rparr>)) j = content s j)"
proof -
  note I = ram_invD [OF inv]
  obtain k where k: "(unat (data (nodes s ! i)), k) \<in> L"
    using data_ok_live [OF I(9) [OF i] own] by blast
  obtain h where h: "kfree (data (nodes s ! i)) (fs_heap s) = Some h"
    "heap_rel h (L - {(unat (data (nodes s ! i)), k)})" "heap_stable (fs_heap s) h (L - {(unat (data (nodes s ! i)), k)})"
    using kfree_stable [OF I(7) k] by blast
  have B: "\<forall>(p, q) \<in> {(unat (data (nodes s ! i)), k)}. owns_block (nodes s ! i) \<and> p = unat (data (nodes s ! i))"
    using own by simp
  have ok: "links_ok (unat (node_count s)) i ((nodes s ! i)\<lparr>data := 0\<rparr>)"
    using I(8) [OF i] by (simp add: links_ok_def)
  have d: "data_ok h (L - {(unat (data (nodes s ! i)), k)}) ((nodes s ! i)\<lparr>data := 0\<rparr>)" by (simp add: data_ok_def)
  note U = node_update_inv [where f = "\<lambda>n. n\<lparr>data := 0\<rparr>", OF inv i B h(3,2) subset_refl ok d]
  have "ram_inv (upd_node i (\<lambda>n. n\<lparr>data := 0\<rparr>) (s\<lparr>fs_heap := h\<rparr>)) (L - {(unat (data (nodes s ! i)), k)})"
    by (rule U(1)) (simp_all add: owns_block_def)
  moreover have "content (upd_node i (\<lambda>n. n\<lparr>data := 0\<rparr>) (s\<lparr>fs_heap := h\<rparr>)) j = content s j"
    if "j < unat (node_count s)" "j \<noteq> i" for j
    by (rule U(2)) (use that in \<open>simp_all add: owns_block_def\<close>)
  ultimately show ?thesis using h(1) k by blast
qed

text \<open>The state before the entry is unlinked: its block is given back.\<close>

lemma unlink_release:
  assumes inv: "ram_inv s L" and c: "0 < c" "c < unat (node_count s)"
  shows "\<exists>s1 L1. (if owns_data (nodes s ! c) \<and> data (nodes s ! c) \<noteq> 0 then
       map_option (\<lambda>h. upd_node c (\<lambda>n. n\<lparr>data := 0\<rparr>) (s\<lparr>fs_heap := h\<rparr>)) (kfree (data (nodes s ! c)) (fs_heap s))
     else Some s) = Some s1 \<and> ram_inv s1 L1 \<and>
    L1 = L - {(p, k). owns_block (nodes s ! c) \<and> p = unat (data (nodes s ! c))} \<and>
    node_count s1 = node_count s \<and> nodes s1 ! 0 = nodes s ! 0 \<and> (\<forall>i. vfs (nodes s1 ! i) = vfs (nodes s ! i)) \<and>
    (\<forall>i < unat (node_count s). i \<noteq> c \<longrightarrow> content s1 i = content s i)"
proof (cases "owns_block (nodes s ! c)")
  case True
  note I = ram_invD [OF inv]
  obtain h k where h: "kfree (data (nodes s ! c)) (fs_heap s) = Some h" "(unat (data (nodes s ! c)), k) \<in> L"
    "ram_inv (upd_node c (\<lambda>n. n\<lparr>data := 0\<rparr>) (s\<lparr>fs_heap := h\<rparr>)) (L - {(unat (data (nodes s ! c)), k)})"
    "\<forall>i < unat (node_count s). i \<noteq> c \<longrightarrow> content (upd_node c (\<lambda>n. n\<lparr>data := 0\<rparr>) (s\<lparr>fs_heap := h\<rparr>)) i = content s i"
    using drop_data [OF inv c(2) True] by blast
  have "q = k" if "(unat (data (nodes s ! c)), q) \<in> L" for q
    using heap.live_disjoint [OF I(7) that h(2)] heap.live_range [OF I(7) that] heap.live_range [OF I(7) h(2)] by auto
  then have "L - {(unat (data (nodes s ! c)), k)} =
      L - {(p, k). owns_block (nodes s ! c) \<and> p = unat (data (nodes s ! c))}"
    using True h(2) by blast
  moreover have "nodes (upd_node c (\<lambda>n. n\<lparr>data := 0\<rparr>) (s\<lparr>fs_heap := h\<rparr>)) ! 0 = nodes s ! 0"
    "\<forall>i. vfs (nodes (upd_node c (\<lambda>n. n\<lparr>data := 0\<rparr>) (s\<lparr>fs_heap := h\<rparr>)) ! i) = vfs (nodes s ! i)"
    using c I(1) I(11) [OF c(2)] by (simp_all add: nth_list_update)
  ultimately show ?thesis
    using h True
    by (intro exI [of _ "upd_node c (\<lambda>n. n\<lparr>data := 0\<rparr>) (s\<lparr>fs_heap := h\<rparr>)"]
          exI [of _ "L - {(unat (data (nodes s ! c)), k)}"]) (simp add: owns_block_def)
qed (use inv in \<open>auto simp: owns_block_def\<close>)

lemma ramfs_unlink_found:
  assumes inv: "ram_inv s L" and nm: "nm \<noteq> []"
    and found: "finddir_loop (nodes s) (nodes s ! 0) nm 0 = Some (j, c)"
    and leaf: "\<not> (flags (vfs (nodes s ! c)) = VFS_DIR \<and> child_count (nodes s ! c) > 0)"
  shows "\<exists>s'. ramfs_unlink (Some nm) s = Some (0, s') \<and>
    ram_inv s' (L - {(p, k). owns_block (nodes s ! c) \<and> p = unat (data (nodes s ! c))}) \<and>
    node_count s' = node_count s \<and> dir_names s' = remove1 nm (dir_names s) \<and>
    (\<forall>i < unat (node_count s). i \<noteq> c \<longrightarrow> content s' i = content s i)"
proof -
  note I = ram_invD [OF inv] and R = root_links [OF inv]
  from finddir_loop_spec [OF R, where ns = "nodes s" and nm = nm and i = 0] found
  have j: "j < child_count (nodes s ! 0)" "c = kids (nodes s ! 0) ! unat j" "name (vfs (nodes s ! c)) = nm"
    "\<And>l. l < unat j \<Longrightarrow> name (vfs (nodes s ! (kids (nodes s ! 0) ! l))) \<noteq> nm" by auto
  have jn: "unat j < unat (child_count (nodes s ! 0))" using j(1) by (simp add: word_less_nat_alt)
  have c: "0 < c" "c < unat (node_count s)" using kids_nth [OF R jn] j(2) by simp_all
  obtain s1 L1 where s1: "(if owns_data (nodes s ! c) \<and> data (nodes s ! c) \<noteq> 0 then
       map_option (\<lambda>h. upd_node c (\<lambda>n. n\<lparr>data := 0\<rparr>) (s\<lparr>fs_heap := h\<rparr>)) (kfree (data (nodes s ! c)) (fs_heap s))
     else Some s) = Some s1" "ram_inv s1 L1"
    "L1 = L - {(p, k). owns_block (nodes s ! c) \<and> p = unat (data (nodes s ! c))}"
    "node_count s1 = node_count s" "nodes s1 ! 0 = nodes s ! 0" "\<And>i. vfs (nodes s1 ! i) = vfs (nodes s ! i)"
    "\<forall>i < unat (node_count s). i \<noteq> c \<longrightarrow> content s1 i = content s i"
    using unlink_release [OF inv c] by blast
  let ?s = "upd_node 0 (remove_child j) s1"
  obtain x xs where x: "nm = x # xs" using nm by (cases nm) auto
  have un: "ramfs_unlink (Some nm) s = Some (0, ?s)"
    using found leaf s1(1) I(4) unfolding x ramfs_unlink_def by (auto simp: Let_def)
  note RC = remove_child_ok [OF R j(1)]
  have rl: "ram_inv ?s L1" "i < unat (node_count s1) \<Longrightarrow> content ?s i = content s1 i" for i
    using relink_root [OF s1(2), of "remove_child j"] RC(1) s1(4,5) by (auto simp: remove_child_def)
  have "nodes ?s ! 0 = remove_child j (nodes s ! 0)" "\<And>i. vfs (nodes ?s ! i) = vfs (nodes s ! i)"
    using s1(5,6) ram_invD(1) [OF s1(2)] by (auto simp: nth_list_update remove_child_def)
  then have "dir_names ?s = take (unat j) (dir_names s) @ drop (Suc (unat j)) (dir_names s)"
    by (simp add: dir_names_def RC(2) take_map drop_map)
  also have "\<dots> = remove1 nm (dir_names s)"
    using j(2,3,4) jn by (intro remove1_first [symmetric]) (simp_all add: dir_names_def length_kids [OF R])
  finally show ?thesis using un rl s1(3,4,7) by auto
qed

lemma ramfs_init_ok:
  assumes "length (nodes s) = 9" and "heap_rel (fs_heap s) L" and "outside_heap (fs_heap s) (unat hello) 17"
  shows "\<exists>s'. ramfs_init hello s = Some s' \<and> ram_inv s' L \<and> dir_names s' = [hello_name] \<and> fs_heap s' = fs_heap s \<and>
    node_count s' = 2 \<and> flags (vfs (nodes s' ! 0)) = VFS_DIR \<and> readdir_fn (vfs (nodes s' ! 0)) \<and> data (nodes s' ! 0) = 0 \<and>
    data (nodes s' ! 1) = hello \<and> node_size (nodes s' ! 1) = 17 \<and> read_fn (vfs (nodes s' ! 1))"
proof -
  obtain a b ns where ns: "nodes s = a # b # ns" "length ns = 7"
    using assms(1) by (auto simp: length_Suc_conv numeral_eq_Suc)
  define root where "root = zero_node\<lparr>vfs := \<lparr>name = [47], flags = VFS_DIR, inode = 0, vfs_length = 0, impl = Some 0,
     read_fn = False, write_fn = False, readdir_fn = True, finddir_fn = True\<rparr>, children := (replicate 16 None)[0 := Some 1],
     child_count := 1\<rparr>"
  define entry where "entry = zero_node\<lparr>vfs := \<lparr>name = hello_name, flags = VFS_FILE, inode = 0, vfs_length = 17, impl = Some 1,
     read_fn = True, write_fn = True, readdir_fn = False, finddir_fn = False\<rparr>, parent := Some 0, data := hello,
     node_size := 17\<rparr>"
  let ?s = "s\<lparr>nodes := root # entry # ns, node_count := 2, ramfs_root := Some 0, vfs_root := Some 0\<rparr>"
  have "ramfs_init hello s = Some ?s"
    by (simp add: ramfs_init_def ramfs_alloc_node_def upd_vfs_def upd_node_def add_child_entry_def vfs_set_root_def
      ns root_def entry_def zero_node_def hello_name_def Let_def word_le_nat_alt)
  moreover have "ram_inv ?s L"
  proof -
    have "distinct (take (Suc 0) xs)" for xs :: "nat option list" by (cases xs) auto
    then have "links_ok 2 0 root" "links_ok 2 1 entry" by (simp_all add: links_ok_def root_def entry_def zero_node_def)
    moreover have "data_ok (fs_heap s) L root" "data_ok (fs_heap s) L entry" "\<not> owns_block root" "\<not> owns_block entry"
      "finddir_fn (vfs root)" using assms(3) by (simp_all add: data_ok_def owns_block_def root_def entry_def zero_node_def)
    moreover have "i = 0 \<or> i = 1" if "i < 2" for i :: nat using that by auto
    ultimately show ?thesis using ns(2) assms(2) unfolding ram_inv_def by (fastforce simp: word_le_nat_alt)
  qed
  moreover have "dir_names ?s = [hello_name]"
    by (simp add: dir_names_def kids_def root_def entry_def zero_node_def numeral_eq_Suc)
  moreover have "flags (vfs root) = VFS_DIR \<and> readdir_fn (vfs root) \<and> data root = 0"
    "data entry = hello \<and> node_size entry = 17 \<and> read_fn (vfs entry)"
    by (simp_all add: root_def entry_def zero_node_def)
  ultimately show ?thesis by auto
qed

end
