(* ===== verification/Ramfs_Properties.thy ===== *)
theory Ramfs_Properties
  imports Ramfs_Directory Heap_Properties
begin

text \<open>
  What the RAM file system guarantees through the interface of \<^verbatim>\<open>vfs.c\<close>: files read back
  as written, creation and removal change exactly one entry, every sequence of directory
  operations returns and keeps the invariant; and two limits of the code, the node slots
  that are never reused and the offsets whose end wraps.
\<close>

subsection \<open>Directory operations in sequence\<close>

datatype dir_op = Create "u8 list" | Mkdir "u8 list" | Unlink "u8 list"

fun run_op :: "dir_op \<Rightarrow> ramfs \<Rightarrow> (int \<times> ramfs) option" where
  "run_op (Create nm) s = Some (ramfs_create (Some nm) s)"
| "run_op (Mkdir nm) s = Some (ramfs_mkdir (Some nm) s)"
| "run_op (Unlink nm) s = ramfs_unlink (Some nm) s"

fun adds_node :: "dir_op \<Rightarrow> bool" where
  "adds_node (Unlink nm) \<longleftrightarrow> False"
| "adds_node _ \<longleftrightarrow> True"

text \<open>A sequence of operations, with the number of entries it created.\<close>

fun run_ops :: "dir_op list \<Rightarrow> ramfs \<Rightarrow> (nat \<times> ramfs) option" where
  "run_ops [] s = Some (0, s)"
| "run_ops (x # xs) s =
     Option.bind (run_op x s) (\<lambda>(r, s).
       Option.bind (run_ops xs s) (\<lambda>(n, s). Some ((if adds_node x \<and> r = 0 then Suc n else n), s)))"

lemma new_node_ok:
  "impl (vfs (new_file nm i)) = Some i" "length (children (new_file nm i)) = 16" "child_count (new_file nm i) = 0"
  "data (new_file nm i) = 0" "name (vfs (new_file nm i)) = take 127 nm"
  "impl (vfs (new_dir nm i)) = Some i" "length (children (new_dir nm i)) = 16" "child_count (new_dir nm i) = 0"
  "data (new_dir nm i) = 0" "name (vfs (new_dir nm i)) = take 127 nm"
  by (simp_all add: new_file_def new_dir_def zero_node_def)

lemma ramfs_create_fails:
  assumes inv: "ram_inv s L" and "nm = [] \<or> nm \<in> set (dir_names s) \<or> node_count s = 9"
  shows "ramfs_create (Some nm) s = (-1, s)" and "ramfs_mkdir (Some nm) s = (-1, s)"
proof -
  have "ramfs_finddir 0 (Some nm) s \<noteq> None \<longleftrightarrow> nm \<in> set (dir_names s)"
    using ramfs_finddir_root [OF inv, of nm] by auto
  then show "ramfs_create (Some nm) s = (-1, s)" and "ramfs_mkdir (Some nm) s = (-1, s)"
    using assms(2) ram_invD(4) [OF inv]
    by (auto simp: ramfs_create_def ramfs_mkdir_def ramfs_alloc_node_def split: list.splits)
qed

lemma run_op_step:
  assumes inv: "ram_inv s L"
  shows "\<exists>r s' L'. run_op x s = Some (r, s') \<and> ram_inv s' L' \<and>
    unat (node_count s') = unat (node_count s) + (if adds_node x \<and> r = 0 then 1 else 0)"
proof -
  have add: "run_op x s = Some (-1, s) \<or>
      (\<exists>s'. run_op x s = Some (0, s') \<and> ram_inv s' L \<and> unat (node_count s') = unat (node_count s) + 1)"
    if x: "x = Create nm \<or> x = Mkdir nm" for nm
  proof (cases "nm = [] \<or> nm \<in> set (dir_names s) \<or> node_count s = 9")
    case True
    with ramfs_create_fails [OF inv True] x show ?thesis by auto
  next
    case False
    then have room: "node_count s < 9" using ram_invD(2) [OF inv] by (simp add: order.not_eq_order_implies_strict)
    from False ramfs_create_ok [OF inv _ _ room, of nm] added_ok(1) [OF inv room] new_node_ok x
      unat_succ_less [OF room] show ?thesis by (auto simp: added_def)
  qed
  have addx: ?thesis if x: "x = Create nm \<or> x = Mkdir nm" for nm
    using add [OF x]
  proof (elim disjE exE conjE)
    assume "run_op x s = Some (-1, s)"
    with inv show ?thesis by (intro exI [of _ "-1"] exI [of _ s] exI [of _ L]) simp
  next
    fix s' assume "run_op x s = Some (0, s')" "ram_inv s' L" "unat (node_count s') = unat (node_count s) + 1"
    with x show ?thesis by (intro exI [of _ 0] exI [of _ s'] exI [of _ L]) auto
  qed
  show ?thesis
  proof (cases x)
    case (Unlink nm)
    consider "nm = [] \<or> finddir_loop (nodes s) (nodes s ! 0) nm 0 = None"
      | j c where "nm \<noteq> []" "finddir_loop (nodes s) (nodes s ! 0) nm 0 = Some (j, c)" by force
    then show ?thesis
    proof cases
      case 1
      with inv Unlink ram_invD(4) [OF inv] show ?thesis
        by (auto simp: ramfs_unlink_def split: list.splits)
    next
      case 2
      show ?thesis
      proof (cases "flags (vfs (nodes s ! c)) = VFS_DIR \<and> child_count (nodes s ! c) > 0")
        case True
        with inv Unlink 2 ram_invD(4) [OF inv] show ?thesis
          by (auto simp: ramfs_unlink_def split: list.splits)
      next
        case False
        from ramfs_unlink_found [OF inv 2 False] Unlink show ?thesis by auto
      qed
    qed
  next
    case (Create nm)
    then show ?thesis by (rule addx [OF disjI1])
  next
    case (Mkdir nm)
    then show ?thesis by (rule addx [OF disjI2])
  qed
qed

lemma run_ops_total:
  "ram_inv s L \<Longrightarrow> \<exists>n s' L'. run_ops xs s = Some (n, s') \<and> ram_inv s' L' \<and> unat (node_count s') = unat (node_count s) + n"
proof (induction xs arbitrary: s L)
  case (Cons x xs)
  from run_op_step [OF Cons.prems, of x] obtain r s1 L1 where s1: "run_op x s = Some (r, s1)" "ram_inv s1 L1"
    "unat (node_count s1) = unat (node_count s) + (if adds_node x \<and> r = 0 then 1 else 0)" by blast
  from Cons.IH [OF s1(2)] s1 show ?case by fastforce
qed auto

text \<open>An entry with a new name at the end of the listing is found there.\<close>

lemma ramfs_finddir_last:
  assumes inv: "ram_inv s L" and names: "dir_names s = ns @ [nm]" and new: "nm \<notin> set ns"
  shows "ramfs_finddir 0 (Some nm) s = Some (last (kids (nodes s ! 0)))"
proof -
  note R = root_links [OF inv]
  let ?k = "kids (nodes s ! 0)"
  have "ramfs_finddir 0 (Some nm) s \<noteq> None" using ramfs_finddir_root [OF inv, of nm] names by simp
  then obtain j c where jc: "finddir_loop (nodes s) (nodes s ! 0) nm 0 = Some (j, c)" "ramfs_finddir 0 (Some nm) s = Some c"
    using R by (auto simp: ramfs_finddir_def links_ok_def)
  with finddir_loop_spec [OF R, where ns = "nodes s" and nm = nm and i = 0] length_kids [OF R]
  have j: "unat j < length ?k" "c = ?k ! unat j" "dir_names s ! unat j = nm"
    by (auto simp: word_less_nat_alt dir_names_def)
  have len: "length ?k = Suc (length ns)" using names by (metis dir_names_def length_append_singleton length_map)
  with j names new have "unat j = length ns" by (auto simp: nth_append split: if_splits)
  moreover have "last ?k = ?k ! length ns" using len by (subst last_conv_nth) auto
  ultimately show ?thesis using j(2) jc(2) by simp
qed

lemma added_last_kid:
  assumes inv: "ram_inv s L" and room: "node_count s < 9"
  shows "last (kids (nodes (added s n) ! 0)) = unat (node_count s)"
proof -
  have c: "0 < unat (node_count s)" "unat (node_count s) < 9"
    using ram_invD(12) [OF inv] room by (simp_all add: word_less_nat_alt)
  have "nodes (added s n) ! 0 = link_child (unat (node_count s)) (nodes s ! 0)"
    using ram_invD(1) [OF inv] by (simp add: added_def)
  with link_child_ok(2) [OF root_links [OF inv] c] show ?thesis by simp
qed

subsection \<open>A small file system\<close>

text \<open>The file system right after initialisation, on a heap of 108 bytes at 4096.\<close>

lemma ram_demo:
  "\<exists>s. ram_inv s {} \<and> dir_names s = [hello_name] \<and> fs_heap s = heap_demo \<and> node_count s = 2 \<and>
     flags (vfs (nodes s ! 0)) = VFS_DIR \<and> readdir_fn (vfs (nodes s ! 0)) \<and> data (nodes s ! 0) = 0 \<and>
     data (nodes s ! 1) = 8192 \<and> node_size (nodes s ! 1) = 17 \<and> read_fn (vfs (nodes s ! 1))"
proof -
  have rel: "heap_rel heap_demo {}" using heap_run_rel [OF heap_demo_run] .
  let ?s = "\<lparr>nodes = replicate 9 zero_node, node_count = 0, ramfs_root = None, vfs_root = None,
    dirent_tmp = \<lparr>d_name = [], ino = 0\<rparr>, fs_heap = heap_demo\<rparr>"
  have out: "outside_heap heap_demo (unat (8192 :: u32)) 17"
    by (simp add: outside_heap_def heap_demo_bounds)
  from ramfs_init_ok [of ?s "{}" 8192] rel out show ?thesis by auto
qed

lemma hello_other: "[97] \<noteq> hello_name"
  by (simp add: hello_name_def)

text \<open>The same with an empty file \<^verbatim>\<open>a\<close>.\<close>

lemma ram_demo_file:
  "\<exists>s. ram_inv s {} \<and> open_file s 2 \<and> content s 2 = [] \<and> fs_heap s = heap_demo \<and> node_count s = 3 \<and>
     dir_names s = [hello_name, [97]] \<and> ramfs_finddir 0 (Some [97]) s = Some 2 \<and> flags (vfs (nodes s ! 2)) = 1"
proof -
  obtain s where s: "ram_inv s {}" "dir_names s = [hello_name]" "fs_heap s = heap_demo" "node_count s = 2"
    using ram_demo by blast
  then have room: "node_count s < 9" and two: "unat (node_count s) = 2" by simp_all
  note A = added_ok [OF s(1) room, of "new_file [97] 2", unfolded two, OF new_node_ok(1-4)]
  have "node_count (added s (new_file [97] 2)) = 3" "fs_heap (added s (new_file [97] 2)) = heap_demo"
    using s by (simp_all add: added_def)
  moreover have "content (added s (new_file [97] 2)) 2 = []"
    using A(3) by (simp add: file_content_def new_node_ok)
  moreover have "open_file (added s (new_file [97] 2)) 2"
    using A(3) \<open>node_count (added s (new_file [97] 2)) = 3\<close> by (simp add: open_file_def new_file_def zero_node_def)
  moreover have names: "dir_names (added s (new_file [97] 2)) = [hello_name] @ [[97]]"
    using A(2) s(2) by (simp add: new_node_ok)
  moreover have "ramfs_finddir 0 (Some [97]) (added s (new_file [97] 2)) = Some 2"
    using ramfs_finddir_last [OF A(1) names] added_last_kid [OF s(1) room, of "new_file [97] 2"] hello_other two by simp
  moreover have "flags (vfs (nodes (added s (new_file [97] 2)) ! 2)) = 1"
    using A(3) by (simp add: new_file_def)
  ultimately show ?thesis using A(1) by auto
qed

lemma heap_demo_alloc: "\<exists>h. kmalloc 4 heap_demo = Some (4108, h)"
proof -
  obtain bs where bs: "heap_inv heap_demo bs" "live bs = {}" using heap_run_inv [OF heap_demo_run] by blast
  have "unat (align8 4) = 8" by (simp add: unat_align8)
  with heap_inv_unused [OF bs] have "\<exists>bs'. first_fit (unat (align8 4)) bs = Some (4108, bs')"
    by (simp add: heap_demo_bounds)
  moreover have "ad 4108 = 4108" by (simp add: ad_def)
  ultimately show ?thesis using kmalloc_first_fit [OF bs(1), of 4] by auto
qed

lemma ramfs_write_fits:
  assumes "impl (vfs (nodes s ! i)) = Some i" and "off + sz \<le> node_size (nodes s ! i)" and "data (nodes s ! i) \<noteq> 0"
  shows "ramfs_write i off sz b s = Some (sz, set_fs_mem (memcpy (fs_mem s) (data (nodes s ! i) + off) b sz) s)"
proof -
  have "\<not> node_size (nodes s ! i) < off + sz" using assms(2) by simp
  with assms show ?thesis by (simp add: ramfs_write_def Let_def)
qed

subsection \<open>Properties\<close>



text \<open>
  C24. Unlinking: a name that is not in the root directory is refused and changes nothing;
  otherwise exactly the first entry with the name disappears from the listing and the others
  keep their order, the block of the file is free again and no other block changes hands,
  and every other file keeps its content.
\<close>

theorem ramfs_unlink_removes:
  assumes "ram_inv s L" and "nm \<noteq> []"
  shows "case ramfs_finddir 0 (Some nm) s of
      None \<Rightarrow> nm \<notin> set (dir_names s) \<and> ramfs_unlink (Some nm) s = Some (-1, s)
    | Some c \<Rightarrow>
        if flags (vfs (nodes s ! c)) = 2 \<and> child_count (nodes s ! c) > 0 then ramfs_unlink (Some nm) s = Some (-1, s)
        else \<exists>s'. ramfs_unlink (Some nm) s = Some (0, s') \<and> dir_names s' = remove1 nm (dir_names s) \<and>
          ram_inv s' (L - {(p, k). owns_block (nodes s ! c) \<and> p = unat (data (nodes s ! c))}) \<and>
          (\<forall>i < unat (node_count s). i \<noteq> c \<longrightarrow> content s' i = content s i)"
proof -
  obtain x xs where x: "nm = x # xs" using assms(2) by (cases nm) auto
  have root: "ramfs_root s = Some 0" "impl (vfs (nodes s ! 0)) = Some 0"
    using ram_invD(4) [OF assms(1)] root_links [OF assms(1)] by (simp_all add: links_ok_def)
  have un: "ramfs_unlink (Some nm) s = Some (-1, s)"
    if "case finddir_loop (nodes s) (nodes s ! 0) nm 0 of None \<Rightarrow> True
      | Some (j, c) \<Rightarrow> flags (vfs (nodes s ! c)) = 2 \<and> child_count (nodes s ! c) > 0"
    using that root unfolding x by (auto simp: ramfs_unlink_def Let_def split: option.splits)
  show ?thesis
  proof (cases "finddir_loop (nodes s) (nodes s ! 0) nm 0")
    case None
    with un root ramfs_finddir_root [OF assms(1), of nm] show ?thesis by (simp add: ramfs_finddir_def)
  next
    case (Some jc)
    then obtain j c where jc: "finddir_loop (nodes s) (nodes s ! 0) nm 0 = Some (j, c)" by (cases jc) auto
    then have "ramfs_finddir 0 (Some nm) s = Some c" using root by (simp add: ramfs_finddir_def)
    with un jc ramfs_unlink_found [OF assms jc] show ?thesis by (auto split: if_splits)
  qed
qed

text \<open>
  C37. Every sequence of directory operations returns and keeps the invariant; but since
  unlinking never gives a node slot back, the entries that can ever be created are bounded
  by the free slots of the table of nine, however many are removed in between.
\<close>

theorem ramfs_slots_bounded:
  assumes "ram_inv s L"
  shows "\<exists>n s' L'. run_ops xs s = Some (n, s') \<and> ram_inv s' L' \<and> n + unat (node_count s) \<le> 9"
proof -
  obtain n s' L' where "run_ops xs s = Some (n, s')" "ram_inv s' L'" "unat (node_count s') = unat (node_count s) + n"
    using run_ops_total [OF assms] by blast
  moreover have "unat (node_count s') \<le> 9" using ram_invD(2) [OF calculation(2)] by (simp add: word_le_nat_alt)
  ultimately show ?thesis by auto
qed

text \<open>
  The end \<^verbatim>\<open>offset + size\<close> of a write wraps: writing one byte at the largest offset into
  any file with contents reports success and overwrites the byte in front of its data, which
  belongs to the header of its heap block.
\<close>

theorem ramfs_write_wraps:
  assumes "ram_inv s L" and "open_file s i" and "node_size (nodes s ! i) \<noteq> 0"
  shows "\<exists>s'. vfs_write (Some i) 0xFFFFFFFF 1 b s = Some (1, s') \<and>
    fs_mem s' (data (nodes s ! i) - 1) = fs_mem s b"
proof -
  have wrap: "(0xFFFFFFFF :: u32) + 1 = 0" by simp
  have "data (nodes s ! i) \<noteq> 0" and wf: "write_fn (vfs (nodes s ! i))" using assms(2,3) by (auto simp: open_file_def)
  then have "ramfs_write i 0xFFFFFFFF 1 b s =
      Some (1, set_fs_mem (memcpy (fs_mem s) (data (nodes s ! i) + 0xFFFFFFFF) b 1) s)"
    by (intro ramfs_write_fits [OF open_impl [OF assms(1,2)]]) (simp only: wrap word_zero_le)
  moreover have "memcpy m d b 1 d = m b" for m d
    by (simp add: memcpy_def memcpy_loop.simps [of m d b 1 0] memcpy_loop.simps [of _ d b 1 1] load8_def store8_def)
  moreover have "data (nodes s ! i) + 0xFFFFFFFF = data (nodes s ! i) - 1" by simp
  ultimately show ?thesis using wf by (simp add: vfs_write_def)
qed

subsection \<open>Witnesses\<close>



theorem ramfs_unlink_removes_witness:
  "\<exists>s s'. ram_inv s {} \<and> dir_names s = [hello_name, [97]] \<and> ramfs_unlink (Some [97]) s = Some (0, s') \<and>
     dir_names s' = [hello_name]"
proof -
  obtain s where s: "ram_inv s {}" "dir_names s = [hello_name, [97]]" "ramfs_finddir 0 (Some [97]) s = Some 2"
    "flags (vfs (nodes s ! 2)) = 1" using ram_demo_file by blast
  with ramfs_unlink_removes [OF s(1), of "[97]"] hello_other show ?thesis by (auto split: if_splits)
qed

theorem ramfs_slots_bounded_witness:
  "\<exists>s n s'. ram_inv s {} \<and> run_ops (concat (replicate 10 [Create [97], Unlink [97]])) s = Some (n, s') \<and> n \<le> 7"
proof -
  obtain s where s: "ram_inv s {}" "node_count s = 2" using ram_demo by blast
  from ramfs_slots_bounded [OF s(1), of "concat (replicate 10 [Create [97], Unlink [97]])"] s show ?thesis by auto
qed

theorem ramfs_write_wraps_witness:
  "\<exists>s L s'. ram_inv s L \<and> open_file s 2 \<and> vfs_write (Some 2) 0xFFFFFFFF 1 12288 s = Some (1, s') \<and>
     fs_mem s' (data (nodes s ! 2) - 1) = fs_mem s 12288"
proof -
  obtain s where s: "ram_inv s {}" "open_file s 2" "content s 2 = []" "fs_heap s = heap_demo"
    using ram_demo_file by blast
  have "outside_heap (fs_heap s) (unat (12288 :: u32)) (unat (4 :: u32))"
    by (simp add: s(4) outside_heap_def heap_demo_bounds)
  moreover have "kmalloc (0 + 4) (fs_heap s) \<noteq> Some (0, fs_heap s)" using heap_demo_alloc s(4) by auto
  ultimately obtain s' where w: "written s 2 0 (buffer_bytes (fs_mem s) 12288 4) s'"
    using ramfs_write_cases [OF s(1,2), of 4 0 12288] s by auto
  then obtain L' where s': "ram_inv s' L'" "open_file s' 2" "content s' 2 = buffer_bytes (fs_mem s) 12288 4"
    using s(3) by (auto simp: written_def splice_def)
  then have "node_size (nodes s' ! 2) \<noteq> 0" using length_content [OF s'(2)] by (auto simp: buffer_bytes_def)
  from ramfs_write_wraps [OF s'(1,2) this, of 12288] s' show ?thesis by blast
qed

end
