(* ===== verification/Storage.thy ===== *)
theory Storage
  imports Kernel_Prelude
begin

text \<open>
  Storage devices (\<^verbatim>\<open>src/fs/storage.c\<close>). A device carries its two function pointers, which
  may be null; the medium behind them is a value of the type \<open>'d\<close> that the write function
  returns updated. Both functions report how many sectors they moved. A device pointer is an
  index into the devices the drivers declare statically, \<open>None\<close> the null pointer.
\<close>

record 'd storage_device =
  sector_size :: u32
  sector_count :: u32
  dev_read :: "('d \<Rightarrow> u32 \<Rightarrow> u8 \<Rightarrow> int \<times> u8 list) option"
  dev_write :: "('d \<Rightarrow> u32 \<Rightarrow> u8 \<Rightarrow> u8 list \<Rightarrow> int \<times> 'd) option"

record 'd storage =
  devices :: "nat \<Rightarrow> 'd storage_device"
  default_dev :: "nat option"

definition storage_register :: "nat option \<Rightarrow> 'd storage \<Rightarrow> int \<times> 'd storage" where
  "storage_register dev s =
     (case dev of
        None \<Rightarrow> (-1, s)
      | Some i \<Rightarrow>
          if dev_read (devices s i) = None then (-1, s)
          else (0, if default_dev s = None then s\<lparr>default_dev := Some i\<rparr> else s))"

definition storage_get_default :: "'d storage \<Rightarrow> 'd storage_device option" where
  "storage_get_default s = map_option (devices s) (default_dev s)"

text \<open>The first device with a read function stays the default.\<close>

lemma register_first:
  "dev_read (devices s i) \<noteq> None \<Longrightarrow> default_dev s = None \<Longrightarrow>
   storage_get_default (snd (storage_register (Some i) s)) = Some (devices s i)"
  by (auto simp: storage_register_def storage_get_default_def)

lemma register_keeps_default:
  "default_dev s \<noteq> None \<Longrightarrow> snd (storage_register dev s) = s"
  by (auto simp: storage_register_def split: option.splits)

end
