(* ===== verification/Fat.thy ===== *)
theory Fat
  imports Storage
begin

text \<open>
  The FAT file system (\<^verbatim>\<open>src/fs/fat.c\<close>) over a storage device. A sector buffer is the list
  of its 512 bytes; the pointer \<^verbatim>\<open>fat.dev\<close> is the device it points to; \<open>fat_files\<close> holds the
  first \<^verbatim>\<open>fat_file_count\<close> elements of the static array; a name is the list of the bytes
  before its terminator; the bytes a read delivers are returned as a list. The loops over
  cluster chains follow data on the medium and are partial: \<open>None\<close> means that they never
  return, or that a division by zero stops them. Log messages are not modelled.
\<close>

record fat_file_info =
  fi_name :: "u8 list"
  fi_size :: u32
  first_cluster :: u32

record 'd fat_fs =
  dev :: "'d storage_device option"
  bytes_per_sector :: u32
  sectors_per_cluster :: u32
  reserved_sectors :: u32
  num_fats :: u32
  fat_size :: u32
  root_entries :: u32
  root_dir_sectors :: u32
  first_fat_sector :: u32
  first_data_sector :: u32
  root_dir_sector :: u32
  root_cluster :: u32
  fat_type :: u32
  total_clusters :: u32

record 'd fat_state =
  fat :: "'d fat_fs"
  fat_files :: "fat_file_info list"
  disk :: 'd

subsection \<open>Sectors\<close>

definition read_sector :: "'d storage_device option \<Rightarrow> u32 \<Rightarrow> 'd \<Rightarrow> u8 list option" where
  "read_sector dv lba d =
     (case Option.bind dv dev_read of
        None \<Rightarrow> None
      | Some f \<Rightarrow> case f d lba 1 of (r, buf) \<Rightarrow> if r = 1 then Some buf else None)"

definition write_sector :: "'d storage_device option \<Rightarrow> u32 \<Rightarrow> u8 list \<Rightarrow> 'd \<Rightarrow> bool \<times> 'd" where
  "write_sector dv lba buf d =
     (case Option.bind dv dev_write of
        None \<Rightarrow> (False, d)
      | Some f \<Rightarrow> case f d lba 1 buf of (r, d) \<Rightarrow> (r = 1, d))"

text \<open>Little-endian fields of a buffer.\<close>

definition get16 :: "u8 list \<Rightarrow> nat \<Rightarrow> u16" where
  "get16 b i = ucast (b ! i) OR push_bit 8 (ucast (b ! (i + 1)))"

definition get32 :: "u8 list \<Rightarrow> nat \<Rightarrow> u32" where
  "get32 b i = ucast (get16 b i) OR push_bit 16 (ucast (get16 b (i + 2)))"

definition put16 :: "nat \<Rightarrow> u16 \<Rightarrow> u8 list \<Rightarrow> u8 list" where
  "put16 i v b = b[i := ucast v, i + 1 := ucast (drop_bit 8 v)]"

definition put32 :: "nat \<Rightarrow> u32 \<Rightarrow> u8 list \<Rightarrow> u8 list" where
  "put32 i v b = put16 (i + 2) (ucast (drop_bit 16 v)) (put16 i (ucast v) b)"

subsection \<open>The allocation table\<close>

definition fat_cluster_to_lba :: "'d fat_fs \<Rightarrow> u32 \<Rightarrow> u32" where
  "fat_cluster_to_lba f cluster = first_data_sector f + (cluster - 2) * sectors_per_cluster f"

definition fat_read_fat_entry :: "'d fat_fs \<Rightarrow> u32 \<Rightarrow> 'd \<Rightarrow> u32" where
  "fat_read_fat_entry f cluster d =
     (if fat_type f = 16 then
        let offset = cluster * 2;
            sector_num = first_fat_sector f + offset div bytes_per_sector f;
            entry_offset = offset mod bytes_per_sector f
        in case read_sector (dev f) sector_num d of
             None \<Rightarrow> 0
           | Some sector \<Rightarrow> ucast (get16 sector (unat entry_offset))
      else
        let offset = cluster * 4;
            sector_num = first_fat_sector f + offset div bytes_per_sector f;
            entry_offset = offset mod bytes_per_sector f
        in case read_sector (dev f) sector_num d of
             None \<Rightarrow> 0
           | Some sector \<Rightarrow> get32 sector (unat entry_offset) AND 0x0FFFFFFF)"

definition fat_write_fat_entry :: "'d fat_fs \<Rightarrow> u32 \<Rightarrow> u32 \<Rightarrow> 'd \<Rightarrow> bool \<times> 'd" where
  "fat_write_fat_entry f cluster value d =
     (if fat_type f \<noteq> 16 then (False, d)
      else
        let offset = cluster * 2;
            sector_num = first_fat_sector f + offset div bytes_per_sector f;
            entry_offset = offset mod bytes_per_sector f
        in case read_sector (dev f) sector_num d of
             None \<Rightarrow> (False, d)
           | Some sector \<Rightarrow> write_sector (dev f) sector_num (put16 (unat entry_offset) (ucast value) sector) d)"

definition fat_read_cluster_sector :: "'d fat_fs \<Rightarrow> u32 \<Rightarrow> u32 \<Rightarrow> 'd \<Rightarrow> u8 list option" where
  "fat_read_cluster_sector f cluster sector_index d =
     (if sector_index \<ge> sectors_per_cluster f then None
      else read_sector (dev f) (fat_cluster_to_lba f cluster + sector_index) d)"

subsection \<open>The root directory\<close>

definition fat_add_file :: "u8 list \<Rightarrow> u32 \<Rightarrow> u32 \<Rightarrow> fat_file_info list \<Rightarrow> fat_file_info list" where
  "fat_add_file name sz cluster files =
     (if length files \<ge> 32 then files
      else files @ [\<lparr>fi_name = take 12 (takeWhile (\<lambda>c. c \<noteq> 0) name), fi_size = sz, first_cluster = cluster\<rparr>])"

text \<open>The name of a directory entry: both loops stop at the first blank.\<close>

definition entry_name :: "u8 list \<Rightarrow> u8 list" where
  "entry_name ent =
     (let base = takeWhile (\<lambda>c. c \<noteq> 32) (take 8 ent) in
      if ent ! 8 \<noteq> 32 then base @ [46] @ takeWhile (\<lambda>c. c \<noteq> 32) (take 3 (drop 8 ent)) else base)"

function parse_loop :: "u8 list \<Rightarrow> u32 \<Rightarrow> u32 \<Rightarrow> fat_file_info list \<Rightarrow> fat_file_info list" where
  "parse_loop sector n i files =
     (if i < n then
        let ent = drop (unat (i * 32)) sector in
        if ent ! 0 = 0 then files
        else if ent ! 0 = 0xE5 then parse_loop sector n (i + 1) files
        else if ent ! 11 = 0x0F then parse_loop sector n (i + 1) files
        else if ent ! 11 AND 0x08 \<noteq> 0 then parse_loop sector n (i + 1) files
        else
          let cl_lo = get16 ent 26; cl_hi = get16 ent 20;
              cluster = push_bit 16 (ucast cl_hi) OR ucast cl_lo
          in parse_loop sector n (i + 1) (fat_add_file (entry_name ent) (get32 ent 28) cluster files)
      else files)"
  by pat_completeness auto
termination
  by (relation "measure (\<lambda>(sector, n, i, files). unat n - unat i)") auto

declare parse_loop.simps [simp del]

definition fat_parse_root_dir :: "u8 list \<Rightarrow> u32 \<Rightarrow> fat_file_info list \<Rightarrow> fat_file_info list" where
  "fat_parse_root_dir sector entries_per_sector files = parse_loop sector entries_per_sector 0 files"

function scan_root16 :: "'d fat_fs \<Rightarrow> 'd \<Rightarrow> u32 \<Rightarrow> fat_file_info list \<Rightarrow> fat_file_info list" where
  "scan_root16 f d i files =
     (if i < root_dir_sectors f then
        case read_sector (dev f) (root_dir_sector f + i) d of
          None \<Rightarrow> files
        | Some dir_sector \<Rightarrow>
            scan_root16 f d (i + 1) (fat_parse_root_dir dir_sector (bytes_per_sector f div 32) files)
      else files)"
  by pat_completeness auto
termination
  by (relation "measure (\<lambda>(f, d, i, files). unat (root_dir_sectors f) - unat i)") auto

declare scan_root16.simps [simp del]

function scan_cluster :: "'d fat_fs \<Rightarrow> 'd \<Rightarrow> u32 \<Rightarrow> u32 \<Rightarrow> fat_file_info list \<Rightarrow> fat_file_info list" where
  "scan_cluster f d cluster s files =
     (if s < sectors_per_cluster f then
        case fat_read_cluster_sector f cluster s d of
          None \<Rightarrow> files
        | Some dir_sector \<Rightarrow>
            scan_cluster f d cluster (s + 1) (fat_parse_root_dir dir_sector (bytes_per_sector f div 32) files)
      else files)"
  by pat_completeness auto
termination
  by (relation "measure (\<lambda>(f, d, cluster, s, files). unat (sectors_per_cluster f) - unat s)") auto

declare scan_cluster.simps [simp del]

partial_function (option) scan_root32 ::
  "'d fat_fs \<Rightarrow> 'd \<Rightarrow> u32 \<Rightarrow> fat_file_info list \<Rightarrow> fat_file_info list option" where
  "scan_root32 f d cluster files =
     (if cluster \<ge> 2 \<and> cluster < 0x0FFFFFF8 then
        scan_root32 f d (fat_read_fat_entry f cluster d) (scan_cluster f d cluster 0 files)
      else Some files)"

definition fat_refresh_root_cache :: "'d fat_state \<Rightarrow> 'd fat_state option" where
  "fat_refresh_root_cache s =
     (let f = fat s; d = disk s in
      map_option (\<lambda>files. s\<lparr>fat_files := files\<rparr>)
        (if fat_type f = 16 then Some (scan_root16 f d 0 [])
         else if fat_type f = 32 then scan_root32 f d (root_cluster f) []
         else Some []))"

subsection \<open>Mounting\<close>

text \<open>
  The fields of the boot sector, at their offsets in \<^verbatim>\<open>struct fat_bpb\<close>. The divisions by
  \<^verbatim>\<open>bytes_per_sector\<close> and \<^verbatim>\<open>sectors_per_cluster\<close> fault when the field is 0.
\<close>

definition bpb_geometry :: "'d storage_device option \<Rightarrow> u8 list \<Rightarrow> 'd fat_fs option" where
  "bpb_geometry dv sector =
     (let bps = ucast (get16 sector 11); spc = ucast (sector ! 13); rsv = ucast (get16 sector 14);
          nfats = ucast (sector ! 16); rents = ucast (get16 sector 17);
          fsz16 = get16 sector 22;
          fsz = (if fsz16 \<noteq> 0 then ucast fsz16 else get32 sector 36);
          tot16 = get16 sector 19;
          total = (if tot16 \<noteq> 0 then ucast tot16 else get32 sector 32)
      in
      if bps = 0 then None
      else
        let rds = (rents * 32 + (bps - 1)) div bps;
            data_sectors = total - (rsv + nfats * fsz + rds)
        in
        if spc = 0 then None
        else Some \<lparr>dev = dv, bytes_per_sector = bps, sectors_per_cluster = spc, reserved_sectors = rsv,
          num_fats = nfats, fat_size = fsz, root_entries = rents, root_dir_sectors = rds, first_fat_sector = rsv,
          first_data_sector = rsv + nfats * fsz + rds, root_dir_sector = rsv + nfats * fsz,
          root_cluster = get32 sector 44, fat_type = 0, total_clusters = data_sectors div spc\<rparr>)"

definition fat_init :: "'d storage_device option \<Rightarrow> 'd fat_state \<Rightarrow> 'd fat_state option" where
  "fat_init dv s =
     (if Option.bind dv dev_read = None then Some s
      else
        case read_sector dv 0 (disk s) of
          None \<Rightarrow> Some s
        | Some sector \<Rightarrow>
            Option.bind (bpb_geometry dv sector) (\<lambda>f.
              if total_clusters f < 4085 then Some (s\<lparr>fat := f\<rparr>)
              else
                let f = f\<lparr>fat_type := (if total_clusters f < 65525 then 16 else 32)\<rparr> in
                fat_refresh_root_cache (s\<lparr>fat := f, fat_files := []\<rparr>)))"

subsection \<open>Listing and reading\<close>

definition fat_list_root :: "bool \<Rightarrow> u32 \<Rightarrow> 'd fat_state \<Rightarrow> int \<times> fat_file_info list" where
  "fat_list_root out_given sz s =
     (if \<not> out_given \<or> sz = 0 then (0, [])
      else
        let count = (if of_nat (length (fat_files s)) < sz then of_nat (length (fat_files s)) else sz)
        in (sint count, take (unat count) (fat_files s)))"

definition find_file :: "u8 list \<Rightarrow> fat_file_info list \<Rightarrow> fat_file_info option" where
  "find_file name files = find (\<lambda>fi. fi_name fi = name) files"

text \<open>The sectors of one cluster; \<open>out\<close> holds the bytes copied to the buffer so far.\<close>

function read_sectors_loop :: "'d fat_fs \<Rightarrow> 'd \<Rightarrow> u32 \<Rightarrow> u32 \<Rightarrow> u32 \<Rightarrow> u32 \<Rightarrow> u8 list \<Rightarrow> u32 \<times> u8 list" where
  "read_sectors_loop f d cluster to_read s n out =
     (if s < sectors_per_cluster f \<and> n < to_read then
        case fat_read_cluster_sector f cluster s d of
          None \<Rightarrow> (n, out)
        | Some sector_buf \<Rightarrow>
            let chunk = (if n + bytes_per_sector f > to_read then to_read - n else bytes_per_sector f) in
            read_sectors_loop f d cluster to_read (s + 1) (n + chunk) (out @ take (unat chunk) sector_buf)
      else (n, out))"
  by pat_completeness auto
termination
  by (relation "measure (\<lambda>(f, d, cluster, to_read, s, n, out). unat (sectors_per_cluster f) - unat s)") auto

declare read_sectors_loop.simps [simp del]

partial_function (option) read_chain_loop ::
  "'d fat_fs \<Rightarrow> 'd \<Rightarrow> u32 \<Rightarrow> u32 \<Rightarrow> u32 \<Rightarrow> u8 list \<Rightarrow> (u32 \<times> u8 list) option" where
  "read_chain_loop f d to_read cluster n out =
     (if cluster \<ge> 2 \<and> cluster < 0x0FFFFFF8 \<and> n < to_read then
        let (n, out) = read_sectors_loop f d cluster to_read 0 n out;
            cluster = fat_read_fat_entry f cluster d
        in if fat_type f = 16 \<and> cluster \<ge> 0xFFF8 then Some (n, out)
           else read_chain_loop f d to_read cluster n out
      else Some (n, out))"

definition fat_read_file :: "u8 list option \<Rightarrow> bool \<Rightarrow> u32 \<Rightarrow> 'd fat_state \<Rightarrow> (int \<times> u8 list) option" where
  "fat_read_file name buffer_given sz s =
     (case name of
        None \<Rightarrow> Some (-1, [])
      | Some name \<Rightarrow>
          if \<not> buffer_given \<or> sz = 0 then Some (-1, [])
          else
            case find_file name (fat_files s) of
              None \<Rightarrow> Some (-1, [])
            | Some fi \<Rightarrow>
                let to_read = (if fi_size fi > sz then sz else fi_size fi) in
                map_option (\<lambda>(n, out). (sint n, out))
                  (read_chain_loop (fat s) (disk s) to_read (first_cluster fi) 0 []))"

subsection \<open>Names and directory entries\<close>

definition upcase :: "u8 \<Rightarrow> u8" where
  "upcase c = (if c \<ge> 97 \<and> c \<le> 122 then c - 97 + 65 else c)"

text \<open>The first loop leaves the rest of the name, the second fills the extension.\<close>

fun base_loop :: "u8 list \<Rightarrow> nat \<Rightarrow> u8 list \<Rightarrow> u8 list \<times> u8 list" where
  "base_loop [] j out = ([], out)"
| "base_loop (c # name) j out =
     (if c \<noteq> 46 \<and> j < 8 then base_loop name (j + 1) (out[j := upcase c]) else (c # name, out))"

fun ext_loop :: "u8 list \<Rightarrow> nat \<Rightarrow> u8 list \<Rightarrow> u8 list" where
  "ext_loop [] k out = out"
| "ext_loop (c # name) k out = (if k < 3 then ext_loop name (k + 1) (out[8 + k := upcase c]) else out)"

definition fat_format_name :: "u8 list \<Rightarrow> u8 list option" where
  "fat_format_name name =
     (if name = [] then None
      else
        let out = replicate 11 32;
            (rest, out) = base_loop name 0 out;
            rest = (case rest of c # r \<Rightarrow> if c = 46 then r else rest | [] \<Rightarrow> [])
        in Some (ext_loop rest 0 out))"

text \<open>
  The entries of one sector: \<open>Inl\<close> an entry with the name, \<open>Inr\<close> the first free slot
  seen so far (\<open>None\<close> for \<^verbatim>\<open>0xFFFFFFFF\<close>).
\<close>

function find_entry_loop ::
  "u8 list \<Rightarrow> u8 list \<Rightarrow> u32 \<Rightarrow> u32 \<Rightarrow> u32 \<Rightarrow> (u32 \<times> u32) option \<Rightarrow> (u32 \<times> u32) + (u32 \<times> u32) option" where
  "find_entry_loop sector name lba n e free =
     (if e < n then
        let ent = drop (unat (e * 32)) sector in
        if ent ! 0 = 0 \<or> ent ! 0 = 0xE5 then
          let free = (case free of None \<Rightarrow> Some (lba, e * 32) | Some x \<Rightarrow> Some x) in
          if ent ! 0 = 0 then Inr free else find_entry_loop sector name lba n (e + 1) free
        else if ent ! 11 = 0x0F then find_entry_loop sector name lba n (e + 1) free
        else if take 11 ent = name then Inl (lba, e * 32)
        else find_entry_loop sector name lba n (e + 1) free
      else Inr free)"
  by pat_completeness auto
termination
  by (relation "measure (\<lambda>(sector, name, lba, n, e, free). unat n - unat e)") auto

declare find_entry_loop.simps [simp del]

function find_root_loop ::
  "'d fat_fs \<Rightarrow> 'd \<Rightarrow> u8 list \<Rightarrow> u32 \<Rightarrow> (u32 \<times> u32) option \<Rightarrow> (u32 \<times> u32) + (u32 \<times> u32) option" where
  "find_root_loop f d name i free =
     (if i < root_dir_sectors f then
        let lba = root_dir_sector f + i in
        case read_sector (dev f) lba d of
          None \<Rightarrow> Inr free
        | Some sector \<Rightarrow>
            (case find_entry_loop sector name lba (bytes_per_sector f div 32) 0 free of
               Inl pos \<Rightarrow> Inl pos
             | Inr free \<Rightarrow> find_root_loop f d name (i + 1) free)
      else Inr free)"
  by pat_completeness auto
termination
  by (relation "measure (\<lambda>(f, d, name, i, free). unat (root_dir_sectors f) - unat i)") auto

declare find_root_loop.simps [simp del]

text \<open>The result code with the sector and the offset it stores through its pointers.\<close>

definition fat_find_root_entry :: "'d fat_fs \<Rightarrow> 'd \<Rightarrow> u8 list \<Rightarrow> int \<times> u32 \<times> u32" where
  "fat_find_root_entry f d name =
     (case find_root_loop f d name 0 None of
        Inl (sector, offset) \<Rightarrow> (1, sector, offset)
      | Inr (Some (sector, offset)) \<Rightarrow> (0, sector, offset)
      | Inr None \<Rightarrow> (-1, 0, 0))"

subsection \<open>Clusters and writing\<close>

partial_function (option) fat_free_chain :: "'d fat_fs \<Rightarrow> u32 \<Rightarrow> 'd \<Rightarrow> 'd option" where
  "fat_free_chain f cluster d =
     (if cluster \<ge> 2 \<and> cluster < 0xFFF8 then
        fat_free_chain f (fat_read_fat_entry f cluster d) (snd (fat_write_fat_entry f cluster 0 d))
      else Some d)"

function free_run_loop :: "'d fat_fs \<Rightarrow> 'd \<Rightarrow> u32 \<Rightarrow> u32 \<Rightarrow> u32 \<Rightarrow> u32 \<Rightarrow> u32" where
  "free_run_loop f d count c run start =
     (if c < total_clusters f then
        if fat_read_fat_entry f c d = 0 then
          let start = (if run = 0 then c else start); run = run + 1 in
          if run \<ge> count then start else free_run_loop f d count (c + 1) run start
        else free_run_loop f d count (c + 1) 0 start
      else 0)"
  by pat_completeness auto
termination
  by (relation "measure (\<lambda>(f, d, count, c, run, start). unat (total_clusters f) - unat c)") auto

declare free_run_loop.simps [simp del]

definition fat_find_free_run :: "'d fat_fs \<Rightarrow> 'd \<Rightarrow> u32 \<Rightarrow> u32" where
  "fat_find_free_run f d count = free_run_loop f d count 2 0 2"

text \<open>The loops of a write return whether they ran to the end; \<open>False\<close> is \<^verbatim>\<open>return -1\<close>.\<close>

function link_loop :: "'d fat_fs \<Rightarrow> u32 \<Rightarrow> u32 \<Rightarrow> u32 \<Rightarrow> 'd \<Rightarrow> bool \<times> 'd" where
  "link_loop f first needed i d =
     (if i < needed then
        let cur = first + i; val = (if i + 1 = needed then 0xFFFF else cur + 1) in
        case fat_write_fat_entry f cur val d of
          (ok, d) \<Rightarrow> if \<not> ok then (False, d) else link_loop f first needed (i + 1) d
      else (True, d))"
  by pat_completeness auto
termination
  by (relation "measure (\<lambda>(f, first, needed, i, d). unat needed - unat i)") auto

declare link_loop.simps [simp del]

function write_sectors_loop :: "'d fat_fs \<Rightarrow> u32 \<Rightarrow> u32 \<Rightarrow> u32 \<Rightarrow> u8 list \<Rightarrow> 'd \<Rightarrow> bool \<times> u32 \<times> u8 list \<times> 'd" where
  "write_sectors_loop f cluster s remaining buffer d =
     (if s < sectors_per_cluster f then
        let lba = fat_cluster_to_lba f cluster + s; chunk = bytes_per_sector f in
        if remaining < chunk then
          (case write_sector (dev f) lba (take (unat remaining) buffer @ replicate (512 - unat remaining) 0) d of
             (ok, d) \<Rightarrow> (ok, if ok then 0 else remaining, buffer, d))
        else
          (case write_sector (dev f) lba (take 512 buffer) d of
             (ok, d) \<Rightarrow>
               if \<not> ok then (False, remaining, buffer, d)
               else if remaining - chunk = 0 then (True, 0, drop (unat chunk) buffer, d)
               else write_sectors_loop f cluster (s + 1) (remaining - chunk) (drop (unat chunk) buffer) d)
      else (True, remaining, buffer, d))"
  by pat_completeness auto
termination
  by (relation "measure (\<lambda>(f, cluster, s, remaining, buffer, d). unat (sectors_per_cluster f) - unat s)") auto

declare write_sectors_loop.simps [simp del]

partial_function (option) write_chain_loop :: "'d fat_fs \<Rightarrow> u32 \<Rightarrow> u32 \<Rightarrow> u8 list \<Rightarrow> 'd \<Rightarrow> (bool \<times> 'd) option" where
  "write_chain_loop f cluster remaining buffer d =
     (if remaining > 0 \<and> cluster \<ge> 2 \<and> cluster < 0xFFF8 then
        case write_sectors_loop f cluster 0 remaining buffer d of
          (ok, remaining, buffer, d) \<Rightarrow>
            if \<not> ok then Some (False, d)
            else write_chain_loop f (fat_read_fat_entry f cluster d) remaining buffer d
      else Some (True, d))"

definition fat_entry_bytes :: "u8 list \<Rightarrow> u32 \<Rightarrow> u32 \<Rightarrow> nat \<Rightarrow> u8 list \<Rightarrow> u8 list" where
  "fat_entry_bytes fat_name first_cl sz offset sector =
     put32 (offset + 28) sz
       (put16 (offset + 26) (ucast first_cl)
         (put16 (offset + 20) 0
           ((take offset sector @ fat_name @ drop (offset + 11) sector)[offset + 11 := 0x20])))"

text \<open>Storing the contents: the first cluster (0 for an empty file), or \<open>None\<close> for \<^verbatim>\<open>return -1\<close>.\<close>

definition store_contents :: "'d fat_fs \<Rightarrow> u8 list \<Rightarrow> u32 \<Rightarrow> 'd \<Rightarrow> (u32 option \<times> 'd) option" where
  "store_contents f buffer sz d =
     (let cluster_size = bytes_per_sector f * sectors_per_cluster f;
          clusters_needed = (sz + cluster_size - 1) div cluster_size
      in
      if sz > 0 then
        let first = fat_find_free_run f d clusters_needed in
        if first = 0 then Some (None, d)
        else
          case link_loop f first clusters_needed 0 d of
            (ok, d) \<Rightarrow>
              if \<not> ok then Some (None, d)
              else map_option (\<lambda>(ok, d). (if ok then Some first else None, d)) (write_chain_loop f first sz buffer d)
      else Some (Some 0, d))"

definition fat_write_file :: "u8 list option \<Rightarrow> u8 list option \<Rightarrow> u32 \<Rightarrow> 'd fat_state \<Rightarrow> (int \<times> 'd fat_state) option" where
  "fat_write_file name buffer sz s =
     (case (name, buffer) of
        (Some name, Some buffer) \<Rightarrow>
          let f = fat s in
          if Option.bind (dev f) dev_write = None then Some (-1, s)
          else if fat_type f \<noteq> 16 then Some (-1, s)
          else
            (case fat_format_name name of
               None \<Rightarrow> Some (-1, s)
             | Some fat_name \<Rightarrow>
                 case fat_find_root_entry f (disk s) fat_name of
                   (found, sector, offset) \<Rightarrow>
                     if found < 0 then Some (-1, s)
                     else
                       (case read_sector (dev f) sector (disk s) of
                          None \<Rightarrow> Some (-1, s)
                        | Some dir_sector \<Rightarrow>
                            let old_cluster = ucast (get16 dir_sector (unat offset + 26)) in
                            Option.bind
                              (if found = 1 \<and> old_cluster \<ge> 2 then fat_free_chain f old_cluster (disk s) else Some (disk s))
                              (\<lambda>d. Option.bind (store_contents f buffer sz d) (\<lambda>(first, d).
                                 case first of
                                   None \<Rightarrow> Some (-1, s\<lparr>disk := d\<rparr>)
                                 | Some first \<Rightarrow>
                                     (case write_sector (dev f) sector
                                             (fat_entry_bytes fat_name first sz (unat offset) dir_sector) d of
                                        (ok, d) \<Rightarrow>
                                          if \<not> ok then Some (-1, s\<lparr>disk := d\<rparr>)
                                          else map_option (\<lambda>s. (0, s)) (fat_refresh_root_cache (s\<lparr>disk := d\<rparr>)))))))
      | _ \<Rightarrow> Some (-1, s))"

end
