(* ===== verification/Fat_Properties.thy ===== *)
theory Fat_Properties
  imports Fat
begin

text \<open>
  Properties of the FAT file system on a storage device that behaves: reading a sector
  returns its 512 bytes, writing one changes exactly that sector.
\<close>

subsection \<open>A device that behaves\<close>

text \<open>\<open>img d lba\<close> is the content of the sector \<open>lba\<close> on the medium \<open>d\<close>.\<close>

definition sector_device :: "'d storage_device \<Rightarrow> ('d \<Rightarrow> u32 \<Rightarrow> u8 list) \<Rightarrow> bool" where
  "sector_device dv img \<longleftrightarrow> (\<exists>f g. dev_read dv = Some f \<and> dev_write dv = Some g \<and>
     (\<forall>d lba. f d lba 1 = (1, img d lba) \<and> length (img d lba) = 512) \<and>
     (\<forall>d lba buf. length buf = 512 \<longrightarrow> fst (g d lba 1 buf) = 1 \<and> img (snd (g d lba 1 buf)) = (img d)(lba := buf)))"

lemma sector_deviceD:
  assumes "sector_device dv img"
  shows "read_sector (Some dv) lba d = Some (img d lba)" "length (img d lba) = 512"
    "length buf = 512 \<Longrightarrow> \<exists>d'. write_sector (Some dv) lba buf d = (True, d') \<and> img d' = (img d)(lba := buf)"
proof -
  obtain f g where f: "dev_read dv = Some f" "\<And>d lba. f d lba 1 = (1, img d lba)" "\<And>d lba. length (img d lba) = 512"
    and g: "dev_write dv = Some g"
      "\<And>d lba buf. length buf = 512 \<Longrightarrow> fst (g d lba 1 buf) = 1 \<and> img (snd (g d lba 1 buf)) = (img d)(lba := buf)"
    using assms by (auto simp: sector_device_def)
  show "read_sector (Some dv) lba d = Some (img d lba)" "length (img d lba) = 512"
    using f by (simp_all add: read_sector_def)
  show "\<exists>d'. write_sector (Some dv) lba buf d = (True, d') \<and> img d' = (img d)(lba := buf)" if "length buf = 512"
    using g(1) g(2) [OF that, of d lba] by (cases "g d lba 1 buf") (simp add: write_sector_def)
qed

subsection \<open>Entries of the allocation table\<close>

text \<open>A mounted FAT16 volume with the sector size the driver's buffers have.\<close>

definition fat16 :: "'d fat_fs \<Rightarrow> 'd storage_device \<Rightarrow> bool" where
  "fat16 f dv \<longleftrightarrow> dev f = Some dv \<and> fat_type f = 16 \<and> bytes_per_sector f = 512"

definition entry_sector :: "'d fat_fs \<Rightarrow> u32 \<Rightarrow> u32" where
  "entry_sector f c = first_fat_sector f + of_nat (unat c div 256)"

definition entry_index :: "u32 \<Rightarrow> nat" where
  "entry_index c = 2 * (unat c mod 256)"

lemma entry_offset:
  assumes "c < 0x10000"
  shows "c * 2 div 512 = of_nat (unat c div 256)" and "unat (c * 2 mod 512) = entry_index c"
proof -
  have u: "unat c < 65536" using assms by (simp add: word_less_nat_alt)
  then have "unat (c * 2) = unat c * 2" by (simp add: unat_word_ariths)
  then have "unat (c * 2 div 512) = unat c * 2 div 512" "unat (c * 2 mod 512) = unat c * 2 mod 512"
    by (simp_all add: unat_div unat_mod)
  moreover have "unat c * 2 div 512 = unat c div 256" using div_mult_mult2 [of 2 "unat c" 256] by simp
  moreover have "unat c * 2 mod 512 = 2 * (unat c mod 256)" using mult_mod_right [of 2 "unat c" 256] by (simp add: mult.commute)
  ultimately show "c * 2 div 512 = of_nat (unat c div 256)" "unat (c * 2 mod 512) = entry_index c"
    using u by (simp_all add: word_unat_eq_iff unat_of_nat_small entry_index_def)
qed

lemma get16_put16:
  assumes "i + 1 < length b"
  shows "get16 (put16 i v b) i = v"
proof -
  have "ucast (ucast v :: u8) OR push_bit 8 (ucast (ucast (drop_bit 8 v) :: u8)) = v"
  proof (rule bit_word_eqI)
    fix n assume "n < LENGTH(16)"
    then consider "n < 8" | "8 \<le> n" "n < 16" by fastforce
    then show "bit (ucast (ucast v :: u8) OR push_bit 8 (ucast (ucast (drop_bit 8 v) :: u8)) :: u16) n = bit v n"
      by cases (auto simp: bit_simps)
  qed
  with assms show ?thesis by (simp add: get16_def put16_def)
qed

lemma get16_put16_other: "i + 1 < j \<or> j + 1 < i \<Longrightarrow> get16 (put16 i v b) j = get16 b j"
  by (auto simp: get16_def put16_def)

lemma read_entry:
  assumes "sector_device dv img" and "fat16 f dv" and "c < 0x10000"
  shows "fat_read_fat_entry f c d = ucast (get16 (img d (entry_sector f c)) (entry_index c))"
  using assms(2) sector_deviceD(1) [OF assms(1)]
  by (simp add: fat_read_fat_entry_def fat16_def entry_offset [OF assms(3)] entry_sector_def)

lemma write_entry:
  assumes dv: "sector_device dv img" and f: "fat16 f dv" and c: "c < 0x10000" and v: "v < 0x10000"
  shows "\<exists>d'. fat_write_fat_entry f c v d = (True, d') \<and>
    (\<forall>x < 0x10000. fat_read_fat_entry f x d' = (if x = c then v else fat_read_fat_entry f x d)) \<and>
    (\<forall>lba. lba \<noteq> entry_sector f c \<longrightarrow> img d' lba = img d lba)"
proof -
  let ?b = "put16 (entry_index c) (ucast v) (img d (entry_sector f c))"
  have len: "length ?b = 512" using sector_deviceD(2) [OF dv] by (simp add: put16_def)
  obtain d' where d': "write_sector (Some dv) (entry_sector f c) ?b d = (True, d')"
    "img d' = (img d)(entry_sector f c := ?b)"
    using sector_deviceD(3) [OF dv len] by blast
  have w: "fat_write_fat_entry f c v d = (True, d')"
    using f sector_deviceD(1) [OF dv] d'(1)
    by (simp add: fat_write_fat_entry_def fat16_def entry_offset [OF c] entry_sector_def)
  have "fat_read_fat_entry f x d' = (if x = c then v else fat_read_fat_entry f x d)" if x: "x < 0x10000" for x
  proof -
    have xc: "unat x < 65536" "unat c < 65536" using x c by (simp_all add: word_less_nat_alt)
    show ?thesis
    proof (cases "unat x div 256 = unat c div 256")
      case True
      show ?thesis
      proof (cases "x = c")
        case eq: True
        have "entry_index c + 1 < length (img d (entry_sector f c))"
          using sector_deviceD(2) [OF dv] by (simp add: entry_index_def)
        moreover have "ucast (ucast v :: u16) = v"
          using v by (simp add: word_unat_eq_iff word_less_nat_alt unsigned_ucast_eq unsigned_take_bit_eq take_bit_nat_eq_self)
        ultimately show ?thesis using eq d'(2) by (simp add: read_entry [OF dv f c] get16_put16)
      next
        case False
        then have "unat x mod 256 \<noteq> unat c mod 256" using True by (metis div_mult_mod_eq word_unat_eq_iff)
        then have "get16 ?b (entry_index x) = get16 (img d (entry_sector f c)) (entry_index x)"
          by (intro get16_put16_other) (auto simp: entry_index_def)
        moreover have "entry_sector f x = entry_sector f c" using True by (simp add: entry_sector_def)
        ultimately show ?thesis using False d'(2) by (simp add: read_entry [OF dv f x])
      qed
    next
      case False
      then have "(of_nat (unat x div 256) :: u32) \<noteq> of_nat (unat c div 256)"
        using xc by (simp add: word_unat_eq_iff unat_of_nat_small)
      then have "entry_sector f x \<noteq> entry_sector f c" by (simp add: entry_sector_def)
      with False d'(2) show ?thesis by (auto simp: read_entry [OF dv f x])
    qed
  qed
  with w d'(2) show ?thesis by auto
qed

subsection \<open>Cluster chains\<close>

definition data_cluster :: "u32 \<Rightarrow> bool" where
  "data_cluster c \<longleftrightarrow> 2 \<le> c \<and> c < 0xFFF8"

text \<open>The clusters met when following the links from \<open>c\<close>; the links may be cyclic.\<close>

inductive on_chain :: "(u32 \<Rightarrow> u32) \<Rightarrow> u32 \<Rightarrow> u32 \<Rightarrow> bool" for link c where
  chain_start: "data_cluster c \<Longrightarrow> on_chain link c c"
| chain_step: "on_chain link c x \<Longrightarrow> data_cluster (link x) \<Longrightarrow> on_chain link c (link x)"

lemma on_chain_data: "on_chain link c x \<Longrightarrow> data_cluster x"
  by (induction rule: on_chain.induct) auto

lemma on_chain_none: "\<not> data_cluster c \<Longrightarrow> \<not> on_chain link c x"
proof
  assume "on_chain link c x" and "\<not> data_cluster c"
  then show False by (induction rule: on_chain.induct) auto
qed

text \<open>Cutting the first link leaves the rest of the chain.\<close>

lemma on_chain_cut:
  assumes "data_cluster c" and cut: "\<And>x. data_cluster x \<Longrightarrow> link' x = (if x = c then 0 else link x)"
  shows "on_chain link c x \<longleftrightarrow> x = c \<or> on_chain link' (link c) x"
proof
  assume "on_chain link c x"
  then show "x = c \<or> on_chain link' (link c) x"
  proof (induction rule: on_chain.induct)
    case (chain_step y)
    then have "data_cluster y" by (auto dest: on_chain_data)
    with chain_step cut [of y] show ?case
      by (metis chain_start on_chain.chain_step)
  qed simp
next
  have "on_chain link c x" if "on_chain link' (link c) x"
    using that
  proof (induction rule: on_chain.induct)
    case chain_start
    then show ?case using assms(1) by (intro on_chain.chain_step on_chain.chain_start)
  next
    case (chain_step y)
    then have "data_cluster y" by (auto dest: on_chain_data)
    with chain_step cut [of y] have "link' y = link y" by (auto simp: data_cluster_def split: if_splits)
    with chain_step show ?case by (metis on_chain.chain_step)
  qed
  moreover assume "x = c \<or> on_chain link' (link c) x"
  ultimately show "on_chain link c x" using assms(1) by (auto intro: chain_start)
qed

definition used_clusters :: "(u32 \<Rightarrow> u32) \<Rightarrow> u32 set" where
  "used_clusters link = {x. data_cluster x \<and> link x \<noteq> 0}"

lemma finite_used [simp]: "finite (used_clusters link)"
  by simp

lemma free_chain_unfold:
  "fat_free_chain f c d = (if data_cluster c then
     fat_free_chain f (fat_read_fat_entry f c d) (snd (fat_write_fat_entry f c 0 d)) else Some d)"
  by (subst fat_free_chain.simps) (simp add: data_cluster_def)

lemma free_chain_frees:
  assumes dv: "sector_device dv img" and f: "fat16 f dv"
  shows "\<exists>d'. fat_free_chain f c d = Some d' \<and>
    (\<forall>x. data_cluster x \<longrightarrow> fat_read_fat_entry f x d' =
       (if on_chain (\<lambda>x. fat_read_fat_entry f x d) c x then 0 else fat_read_fat_entry f x d)) \<and>
    (\<forall>lba. (\<forall>x. on_chain (\<lambda>x. fat_read_fat_entry f x d) c x \<longrightarrow> lba \<noteq> entry_sector f x) \<longrightarrow> img d' lba = img d lba)"
proof (induction "card (used_clusters (\<lambda>x. fat_read_fat_entry f x d)) + (if data_cluster c then 1 else 0)"
    arbitrary: c d rule: less_induct)
  case less
  let ?link = "\<lambda>d x. fat_read_fat_entry f x d"
  show ?case
  proof (cases "data_cluster c")
    case False
    then show ?thesis by (subst free_chain_unfold) (simp add: on_chain_none)
  next
    case True
    have small: "data_cluster x \<Longrightarrow> x < 0x10000" for x by (auto simp: data_cluster_def word_less_nat_alt)
    obtain d1 where d1: "fat_write_fat_entry f c 0 d = (True, d1)"
      "\<forall>x < 0x10000. ?link d1 x = (if x = c then 0 else ?link d x)"
      "\<forall>lba. lba \<noteq> entry_sector f c \<longrightarrow> img d1 lba = img d lba"
      using write_entry [OF dv f small [OF True], of 0 d] by auto
    have cut: "data_cluster x \<Longrightarrow> ?link d1 x = (if x = c then 0 else ?link d x)" for x
      using d1(2) small by blast
    have used: "used_clusters (?link d1) = used_clusters (?link d) - {c}"
      using cut by (auto simp: used_clusters_def split: if_splits)
    have "card (used_clusters (?link d1)) + (if data_cluster (?link d c) then 1 else 0) <
        card (used_clusters (?link d)) + (if data_cluster c then 1 else 0)"
    proof (cases "?link d c = 0")
      case eq: True
      then have "c \<notin> used_clusters (?link d)" by (simp add: used_clusters_def)
      then have "used_clusters (?link d1) = used_clusters (?link d)" using used by simp
      moreover have "\<not> data_cluster (?link d c)" by (simp add: eq data_cluster_def)
      ultimately show ?thesis using True by simp
    next
      case False
      then have "c \<in> used_clusters (?link d)" using True by (simp add: used_clusters_def)
      then have "card (used_clusters (?link d1)) < card (used_clusters (?link d))"
        unfolding used by (intro card_Diff1_less finite_used)
      with True show ?thesis by simp
    qed
    from less [OF this] obtain d' where d': "fat_free_chain f (?link d c) d1 = Some d'"
      "\<forall>x. data_cluster x \<longrightarrow> ?link d' x = (if on_chain (?link d1) (?link d c) x then 0 else ?link d1 x)"
      "\<forall>lba. (\<forall>x. on_chain (?link d1) (?link d c) x \<longrightarrow> lba \<noteq> entry_sector f x) \<longrightarrow> img d' lba = img d1 lba" by blast
    then have "fat_free_chain f c d = Some d'"
      using True d1(1) by (subst free_chain_unfold) simp
    moreover have "?link d' x = (if on_chain (?link d) c x then 0 else ?link d x)" if "data_cluster x" for x
      using d'(2) that on_chain_cut [OF True, of "?link d1" "?link d"] cut by auto
    moreover have "img d' lba = img d lba" if "\<forall>x. on_chain (?link d) c x \<longrightarrow> lba \<noteq> entry_sector f x" for lba
      using that d'(3) d1(3) on_chain_cut [OF True, of "?link d1" "?link d"] cut by auto
    ultimately show ?thesis by blast
  qed
qed

subsection \<open>Free runs\<close>

definition free_at :: "'d fat_fs \<Rightarrow> 'd \<Rightarrow> nat \<Rightarrow> bool" where
  "free_at f d c \<longleftrightarrow> fat_read_fat_entry f (of_nat c) d = 0"

definition free_run :: "'d fat_fs \<Rightarrow> 'd \<Rightarrow> nat \<Rightarrow> nat \<Rightarrow> bool" where
  "free_run f d a n \<longleftrightarrow> 2 \<le> a \<and> a + n \<le> unat (total_clusters f) \<and> (\<forall>c. a \<le> c \<and> c < a + n \<longrightarrow> free_at f d c)"

text \<open>
  The invariant of the loop at cluster \<open>c\<close>: the last \<open>run\<close> clusters are free and start
  at \<open>start\<close>, the one before them is not free, and no run of the wanted length ends
  before \<open>c\<close>.
\<close>

definition scan_inv :: "'d fat_fs \<Rightarrow> 'd \<Rightarrow> nat \<Rightarrow> nat \<Rightarrow> nat \<Rightarrow> nat \<Rightarrow> bool" where
  "scan_inv f d n c run start \<longleftrightarrow> 2 \<le> c \<and> run < n \<and> run \<le> c - 2 \<and> (run \<noteq> 0 \<longrightarrow> start = c - run) \<and>
     (\<forall>x. c - run \<le> x \<and> x < c \<longrightarrow> free_at f d x) \<and> (\<forall>a. a + n \<le> c \<longrightarrow> \<not> free_run f d a n) \<and>
     (2 < c - run \<longrightarrow> \<not> free_at f d (c - run - 1))"

lemma scan_inv_used:
  assumes "scan_inv f d n c run start" and "\<not> free_at f d c"
  shows "scan_inv f d n (Suc c) 0 start"
proof -
  have "\<not> free_run f d a n" if "a + n \<le> Suc c" for a
  proof (cases "a + n = Suc c")
    case True
    moreover have "0 < n" using assms(1) by (simp add: scan_inv_def)
    ultimately have "a \<le> c" "c < a + n" by linarith+
    with assms(2) show ?thesis unfolding free_run_def by blast
  qed (use assms(1) that in \<open>simp add: scan_inv_def\<close>)
  with assms show ?thesis by (simp add: scan_inv_def)
qed

lemma scan_inv_free:
  assumes inv: "scan_inv f d n c run start" and free: "free_at f d c" and more: "Suc run < n"
  shows "scan_inv f d n (Suc c) (Suc run) (if run = 0 then c else start)"
proof -
  have "\<not> free_run f d a n" if "a + n \<le> Suc c" for a
  proof (cases "a + n = Suc c")
    case True
    then have lt: "a < c - run" "c - run - 1 < a + n" using more inv by (auto simp: scan_inv_def)
    show ?thesis
    proof
      assume fr: "free_run f d a n"
      then have "2 < c - run" using lt(1) by (auto simp: free_run_def)
      then have "\<not> free_at f d (c - run - 1)" using inv by (simp add: scan_inv_def)
      moreover have "a \<le> c - run - 1" using lt(1) by linarith
      ultimately show False using fr lt(2) unfolding free_run_def by blast
    qed
  qed (use inv that in \<open>simp add: scan_inv_def\<close>)
  moreover have "free_at f d x" if "c - run \<le> x" "x < Suc c" for x
    using that inv free by (cases "x = c") (auto simp: scan_inv_def)
  ultimately show ?thesis using inv more by (auto simp: scan_inv_def)
qed

lemma scan_inv_found:
  assumes inv: "scan_inv f d n c run start" and free: "free_at f d c" and total: "c < unat (total_clusters f)"
    and last: "n \<le> Suc run"
  defines "r \<equiv> if run = 0 then c else start"
  shows "free_run f d r n" and "free_run f d a n \<Longrightarrow> r \<le> a" and "r \<noteq> 0"
proof -
  have n: "n = Suc run" "r = c - run" "2 \<le> r" "r + n = Suc c" using inv last by (auto simp: scan_inv_def r_def)
  have "free_at f d x" if "r \<le> x" "x < r + n" for x
    using that n inv free by (cases "x = c") (auto simp: scan_inv_def)
  with n total show "free_run f d r n" by (auto simp: free_run_def)
  show "r \<le> a" if "free_run f d a n"
  proof (rule ccontr)
    assume "\<not> r \<le> a"
    then have "a + n \<le> c" using n by linarith
    with inv that show False by (simp add: scan_inv_def)
  qed
  show "r \<noteq> 0" using n by simp
qed

lemma free_run_loop_correct:
  assumes "scan_inv f d (unat count) (unat c) (unat run) (unat start)"
  shows "if free_run_loop f d count c run start = 0 then \<forall>a. \<not> free_run f d a (unat count)
    else free_run f d (unat (free_run_loop f d count c run start)) (unat count) \<and>
      (\<forall>a. free_run f d a (unat count) \<longrightarrow> unat (free_run_loop f d count c run start) \<le> a)"
  using assms
proof (induction f d count c run start rule: free_run_loop.induct)
  case (1 f d count c run start)
  let ?r = "if run = 0 then c else start"
  note inv = 1(3)
  have r: "unat ?r = (if unat run = 0 then unat c else unat start)" by (simp add: unat_eq_0)
  have sr: "unat (run + 1) = Suc (unat run)"
    using inv by (intro unat_succ_less [of _ count]) (simp add: scan_inv_def word_less_nat_alt)
  consider "\<not> c < total_clusters f"
    | "c < total_clusters f" "fat_read_fat_entry f c d \<noteq> 0"
    | "c < total_clusters f" "fat_read_fat_entry f c d = 0" "count \<le> run + 1"
    | "c < total_clusters f" "fat_read_fat_entry f c d = 0" "\<not> count \<le> run + 1" by blast
  then show ?case
  proof cases
    case 1
    then have "unat (total_clusters f) \<le> unat c" by (simp add: word_less_nat_alt)
    then have "\<not> free_run f d a (unat count)" for a
      using inv unfolding scan_inv_def by (metis free_run_def le_trans)
    with 1 show ?thesis by (subst (1 2 3) free_run_loop.simps) simp
  next
    case 2
    then have "\<not> free_at f d (unat c)" by (simp add: free_at_def)
    from scan_inv_used [OF inv this] have "scan_inv f d (unat count) (unat (c + 1)) (unat 0) (unat start)"
      using unat_succ_less [OF 2(1)] by simp
    from "1.IH"(2) [OF 2 this] 2 show ?thesis by (subst (1 2 3) free_run_loop.simps) simp
  next
    case 3
    then have pre: "free_at f d (unat c)" "unat c < unat (total_clusters f)" "unat count \<le> Suc (unat run)"
      using sr by (simp_all add: free_at_def word_less_nat_alt word_le_nat_alt)
    have loop: "free_run_loop f d count c run start = ?r"
      using 3 by (subst free_run_loop.simps) (simp add: Let_def)
    from scan_inv_found [OF inv pre, folded r] show ?thesis unfolding loop by (auto simp: unat_eq_0)
  next
    case 4
    then have pre: "free_at f d (unat c)" "Suc (unat run) < unat count"
      using sr by (simp_all add: free_at_def word_le_nat_alt)
    from scan_inv_free [OF inv pre]
    have "scan_inv f d (unat count) (unat (c + 1)) (unat (run + 1)) (unat ?r)"
      using unat_succ_less [OF 4(1)] sr r by simp
    from "1.IH"(1) [OF 4(1,2) refl refl 4(3) this] 4 show ?thesis
      by (subst (1 2 3) free_run_loop.simps) (simp add: Let_def)
  qed
qed

subsection \<open>Short names\<close>

definition name_byte :: "u8 \<Rightarrow> bool" where
  "name_byte c \<longleftrightarrow> c \<noteq> 0 \<and> c \<noteq> 32 \<and> c \<noteq> 46"

definition short_name :: "u8 list \<Rightarrow> u8 list \<Rightarrow> u8 list" where
  "short_name base ext = (if ext = [] then base else base @ [46] @ ext)"

definition padded :: "nat \<Rightarrow> u8 list \<Rightarrow> u8 list" where
  "padded n xs = map upcase xs @ replicate (n - length xs) 32"

lemma upcase_blank: "upcase c = 32 \<longleftrightarrow> c = 32"
proof (cases "97 \<le> c \<and> c \<le> 122")
  case True
  then have "uint c - 32 \<noteq> 32 \<and> c \<noteq> 32" by (auto simp: word_le_def)
  moreover have "c - 97 + 65 = c - 32" by simp
  ultimately show ?thesis using True by (auto simp: upcase_def)
qed (auto simp: upcase_def)

lemma blank_update:
  "length xs < n \<Longrightarrow> (xs @ replicate (n - length xs) 32)[length xs := v] = (xs @ [v]) @ replicate (n - length (xs @ [v])) 32"
  by (cases "n - length xs") (auto simp: list_update_append)

lemma base_loop_padded:
  "list_all name_byte base \<Longrightarrow> rest = [] \<or> hd rest = 46 \<Longrightarrow> length pre + length base \<le> 8 \<Longrightarrow>
   base_loop (base @ rest) (length pre) (pre @ replicate (11 - length pre) 32) =
     (rest, (pre @ map upcase base) @ replicate (11 - length (pre @ map upcase base)) 32)"
proof (induction base arbitrary: pre)
  case Nil
  then show ?case by (cases rest) auto
next
  case (Cons c base)
  have "base_loop ((c # base) @ rest) (length pre) (pre @ replicate (11 - length pre) 32) =
      base_loop (base @ rest) (length (pre @ [upcase c])) ((pre @ [upcase c]) @ replicate (11 - length (pre @ [upcase c])) 32)"
    using Cons.prems blank_update [of pre 11 "upcase c"] by (simp add: name_byte_def)
  also have "\<dots> = (rest, ((pre @ [upcase c]) @ map upcase base) @
      replicate (11 - length ((pre @ [upcase c]) @ map upcase base)) 32)"
    using Cons.prems by (intro Cons.IH) auto
  finally show ?case by simp
qed

lemma ext_loop_padded:
  "length pre = 8 + k \<Longrightarrow> k + length ext \<le> 3 \<Longrightarrow>
   ext_loop ext k (pre @ replicate (11 - length pre) 32) =
     (pre @ map upcase ext) @ replicate (11 - length (pre @ map upcase ext)) 32"
proof (induction ext arbitrary: pre k)
  case (Cons c ext)
  have "ext_loop (c # ext) k (pre @ replicate (11 - length pre) 32) =
      ext_loop ext (k + 1) ((pre @ [upcase c]) @ replicate (11 - length (pre @ [upcase c])) 32)"
    using Cons.prems blank_update [of pre 11 "upcase c"] by simp
  also have "\<dots> = ((pre @ [upcase c]) @ map upcase ext) @ replicate (11 - length ((pre @ [upcase c]) @ map upcase ext)) 32"
    using Cons.prems by (intro Cons.IH) auto
  finally show ?case by simp
qed simp

lemma fat_format_short:
  assumes "list_all name_byte base" and "base \<noteq> []" and "length base \<le> 8" and "length ext \<le> 3"
  shows "fat_format_name (short_name base ext) = Some (padded 8 base @ padded 3 ext)"
proof -
  let ?rest = "if ext = [] then [] else 46 # ext"
  have nm: "short_name base ext = base @ ?rest" by (simp add: short_name_def)
  have b: "base_loop (base @ ?rest) 0 (replicate 11 32) = (?rest, map upcase base @ replicate (11 - length base) 32)"
    using base_loop_padded [OF assms(1), of ?rest "[]"] assms(3) by auto
  have sp: "map upcase base @ replicate (11 - length base) 32 = padded 8 base @ replicate (11 - length (padded 8 base)) 32"
    using assms(3) by (simp add: padded_def replicate_add [symmetric])
  have "ext_loop ext 0 (padded 8 base @ replicate (11 - length (padded 8 base)) 32) = padded 8 base @ padded 3 ext"
    using ext_loop_padded [of "padded 8 base" 0 ext] assms(3,4) by (simp add: padded_def)
  then show ?thesis using assms(2) by (auto simp: fat_format_name_def nm b sp)
qed

lemma takeWhile_padded:
  "list_all name_byte xs \<Longrightarrow> takeWhile (\<lambda>c. c \<noteq> 32) (padded n xs) = map upcase xs"
  by (auto simp: padded_def takeWhile_append list_all_iff name_byte_def upcase_blank takeWhile_replicate)

lemma entry_name_padded:
  assumes "list_all name_byte base" and "list_all name_byte ext" and "length base \<le> 8" and "length ext \<le> 3"
  shows "entry_name (padded 8 base @ padded 3 ext @ tail) = map upcase (short_name base ext)"
proof -
  have len: "length (padded 8 base) = 8" "length (padded 3 ext) = 3" using assms by (simp_all add: padded_def)
  have "(padded 3 ext ! 0 = 32) = (ext = [])"
    using assms(2,4) by (cases ext) (auto simp: padded_def name_byte_def upcase_blank)
  with len show ?thesis
    using takeWhile_padded [OF assms(1), of 8] takeWhile_padded [OF assms(2), of 3]
    by (auto simp: entry_name_def short_name_def nth_append upcase_def)
qed

subsection \<open>Directory entries\<close>

lemma get16_drop: "off \<le> length b \<Longrightarrow> get16 (drop off b) i = get16 b (off + i)"
  by (simp add: get16_def)

lemma get32_drop: "off \<le> length b \<Longrightarrow> get32 (drop off b) i = get32 b (off + i)"
  by (simp add: get32_def get16_drop add.assoc)

lemma length_put16 [simp]: "length (put16 i v b) = length b"
  by (simp add: put16_def)

lemma put16_nth: "k \<noteq> i \<Longrightarrow> k \<noteq> i + 1 \<Longrightarrow> put16 i v b ! k = b ! k"
  by (simp add: put16_def)

lemma get32_put32:
  assumes "i + 3 < length b"
  shows "get32 (put32 i v b) i = v"
proof -
  have "ucast (ucast v :: u16) OR push_bit 16 (ucast (ucast (drop_bit 16 v) :: u16)) = v"
  proof (rule bit_word_eqI)
    fix n assume "n < LENGTH(32)"
    then consider "n < 16" | "16 \<le> n" "n < 32" by fastforce
    then show "bit (ucast (ucast v :: u16) OR push_bit 16 (ucast (ucast (drop_bit 16 v) :: u16)) :: u32) n = bit v n"
      by cases (auto simp: bit_simps)
  qed
  with assms show ?thesis by (simp add: get32_def put32_def get16_put16 get16_put16_other)
qed

lemma entry_bytes_fields:
  assumes len: "length fn = 11" "off + 32 \<le> length sector"
  shows "length (fat_entry_bytes fn cl sz off sector) = length sector"
    and "take 11 (drop off (fat_entry_bytes fn cl sz off sector)) = fn"
    and "drop off (fat_entry_bytes fn cl sz off sector) ! 11 = 0x20"
    and "get16 (drop off (fat_entry_bytes fn cl sz off sector)) 20 = 0"
    and "get16 (drop off (fat_entry_bytes fn cl sz off sector)) 26 = ucast cl"
    and "get32 (drop off (fat_entry_bytes fn cl sz off sector)) 28 = sz"
proof -
  let ?b = "(take off sector @ fn @ drop (off + 11) sector)[off + 11 := 0x20]"
  have lb: "length ?b = length sector" using len by simp
  show l: "length (fat_entry_bytes fn cl sz off sector) = length sector"
    using lb by (simp add: fat_entry_bytes_def put32_def)
  have low: "fat_entry_bytes fn cl sz off sector ! k = ?b ! k" if "k < off + 20" for k
    using that by (simp add: fat_entry_bytes_def put32_def put16_nth)
  have le: "off \<le> length (fat_entry_bytes fn cl sz off sector)" using l len by simp
  show "take 11 (drop off (fat_entry_bytes fn cl sz off sector)) = fn"
    using l len low by (intro nth_equalityI) (auto simp: nth_append)
  show "drop off (fat_entry_bytes fn cl sz off sector) ! 11 = 0x20"
    using l len low [of "off + 11"] lb by simp
  show "get16 (drop off (fat_entry_bytes fn cl sz off sector)) 20 = 0"
    "get16 (drop off (fat_entry_bytes fn cl sz off sector)) 26 = ucast cl"
    using lb len unfolding get16_drop [OF le]
    by (simp_all add: fat_entry_bytes_def put32_def get16_put16 get16_put16_other)
  show "get32 (drop off (fat_entry_bytes fn cl sz off sector)) 28 = sz"
    using lb len unfolding get32_drop [OF le] by (simp add: fat_entry_bytes_def get32_put32)
qed

lemma upcase_first: "name_byte c \<Longrightarrow> c \<noteq> 0xE5 \<Longrightarrow> upcase c \<noteq> 0 \<and> upcase c \<noteq> 0xE5"
proof (cases "97 \<le> c \<and> c \<le> 122")
  case True
  then have "uint (c - 32) = uint c - 32" by (auto simp: word_le_def uint_sub_if')
  moreover have "c - 97 + 65 = c - 32" by simp
  moreover have "uint c - 32 \<noteq> 0 \<and> uint c - 32 \<noteq> 0xE5" using True by (auto simp: word_le_def)
  ultimately show ?thesis using True by (auto simp: upcase_def word_uint_eq_iff)
qed (auto simp: upcase_def name_byte_def)

lemma upcase_nonzero: "name_byte c \<or> c = 46 \<Longrightarrow> upcase c \<noteq> 0"
  using upcase_first [of c] by (cases "c = 0xE5") (auto simp: upcase_def)

lemma short_name_nonzero:
  assumes "list_all name_byte base" and "list_all name_byte ext"
  shows "takeWhile (\<lambda>c. c \<noteq> 0) (map upcase (short_name base ext)) = map upcase (short_name base ext)"
  using assms by (intro takeWhile_eq_all_conv [THEN iffD2]) (auto simp: short_name_def list_all_iff upcase_nonzero)

subsection \<open>A small volume\<close>

text \<open>A medium in memory, and a volume whose table starts in sector 0 and links 2 and 3 in a circle.\<close>

definition disk_image :: "(u32 \<Rightarrow> u8 list) \<Rightarrow> u32 \<Rightarrow> u8 list" where
  "disk_image d lba = (if length (d lba) = 512 then d lba else replicate 512 0)"

definition ram_disk :: "(u32 \<Rightarrow> u8 list) storage_device" where
  "ram_disk = \<lparr>sector_size = 512, sector_count = 0, dev_read = Some (\<lambda>d lba n. (1, disk_image d lba)),
     dev_write = Some (\<lambda>d lba n buf. (1, d(lba := buf)))\<rparr>"

definition demo_fat :: "(u32 \<Rightarrow> u8 list) fat_fs" where
  "demo_fat = \<lparr>dev = Some ram_disk, bytes_per_sector = 512, sectors_per_cluster = 1, reserved_sectors = 0, num_fats = 1,
     fat_size = 32, root_entries = 16, root_dir_sectors = 1, first_fat_sector = 0, first_data_sector = 33,
     root_dir_sector = 32, root_cluster = 0, fat_type = 16, total_clusters = 4096\<rparr>"

definition demo_disk :: "u32 \<Rightarrow> u8 list" where
  "demo_disk = (\<lambda>_. [])(0 := put16 4 3 (put16 6 2 (replicate 512 0)))"

lemma ram_disk_ok: "sector_device ram_disk disk_image"
  by (auto simp: sector_device_def ram_disk_def disk_image_def)

lemma demo_fat_ok: "fat16 demo_fat ram_disk"
  by (simp add: fat16_def demo_fat_def)

lemma demo_links: "fat_read_fat_entry demo_fat 2 demo_disk = 3" "fat_read_fat_entry demo_fat 3 demo_disk = 2"
proof -
  have "disk_image demo_disk 0 = put16 4 3 (put16 6 2 (replicate 512 0))"
    by (simp add: disk_image_def demo_disk_def)
  moreover have "entry_sector demo_fat 2 = 0" "entry_sector demo_fat 3 = 0"
    by (simp_all add: entry_sector_def demo_fat_def)
  ultimately show "fat_read_fat_entry demo_fat 2 demo_disk = 3" "fat_read_fat_entry demo_fat 3 demo_disk = 2"
    by (simp_all add: read_entry [OF ram_disk_ok demo_fat_ok] entry_index_def get16_put16 get16_put16_other)
qed

subsection \<open>Properties\<close>



text \<open>
  C25. \<^verbatim>\<open>fat_find_free_run\<close> returns the lowest run of free clusters of the requested length that
  lies below \<^verbatim>\<open>total_clusters\<close>, and 0 exactly when there is none.
\<close>

theorem fat_find_free_run_lowest:
  assumes "0 < unat count"
  shows "if fat_find_free_run f d count = 0 then \<forall>a. \<not> free_run f d a (unat count)
    else free_run f d (unat (fat_find_free_run f d count)) (unat count) \<and>
      (\<forall>a. free_run f d a (unat count) \<longrightarrow> unat (fat_find_free_run f d count) \<le> a)"
proof -
  have "scan_inv f d (unat count) (unat (2 :: u32)) (unat (0 :: u32)) (unat (2 :: u32))"
    using assms by (auto simp: scan_inv_def free_run_def)
  from free_run_loop_correct [OF this] show ?thesis by (simp add: fat_find_free_run_def)
qed

theorem fat_find_free_run_lowest_witness:
  "free_run demo_fat demo_disk (unat (fat_find_free_run demo_fat demo_disk 1)) 1 \<and> fat_find_free_run demo_fat demo_disk 1 \<noteq> 0"
proof -
  have "disk_image demo_disk 0 = put16 4 3 (put16 6 2 (replicate 512 0))"
    by (simp add: disk_image_def demo_disk_def)
  moreover have "entry_sector demo_fat 4 = 0" by (simp add: entry_sector_def demo_fat_def)
  moreover have "get16 (replicate 512 0) 8 = 0" by (simp add: get16_def)
  ultimately have "fat_read_fat_entry demo_fat 4 demo_disk = 0"
    by (simp add: read_entry [OF ram_disk_ok demo_fat_ok] entry_index_def get16_put16_other)
  then have "free_at demo_fat demo_disk 4" by (simp add: free_at_def)
  then have "free_at demo_fat demo_disk c" if "4 \<le> c \<and> c < 4 + 1" for c using that by (cases "c = 4") auto
  moreover have "unat (total_clusters demo_fat) = 4096" by (simp add: demo_fat_def)
  ultimately have "free_run demo_fat demo_disk 4 1" unfolding free_run_def by simp
  with fat_find_free_run_lowest [of 1 demo_fat demo_disk] show ?thesis by (auto split: if_splits)
qed

end
