(* ===== verification/Fat_Files.thy ===== *)
theory Fat_Files
  imports Fat_Properties
begin

text \<open>
  Files on a FAT16 volume (\<^verbatim>\<open>src/fs/fat.c\<close>): the contents of a cluster chain as a list of
  bytes, what reading a chain delivers, and what storing contents changes.
\<close>

subsection \<open>The layout of a volume\<close>

text \<open>
  The table, the root directory and the data area lie behind each other and inside the
  address space of the device.
\<close>

definition volume :: "'d fat_fs \<Rightarrow> 'd storage_device \<Rightarrow> bool" where
  "volume f dv \<longleftrightarrow> fat16 f dv \<and> 0 < sectors_per_cluster f \<and> unat (sectors_per_cluster f) < 256 \<and>
     2 \<le> total_clusters f \<and> unat (total_clusters f) \<le> 65525 \<and>
     unat (first_fat_sector f) + (unat (total_clusters f) + 255) div 256 \<le> unat (root_dir_sector f) \<and>
     unat (root_dir_sector f) + unat (root_dir_sectors f) \<le> unat (first_data_sector f) \<and>
     unat (first_data_sector f) + (unat (total_clusters f) - 2) * unat (sectors_per_cluster f) \<le> 2 ^ 32"

definition valid :: "'d fat_fs \<Rightarrow> u32 \<Rightarrow> bool" where
  "valid f x \<longleftrightarrow> 2 \<le> x \<and> x < total_clusters f"

abbreviation lba_of :: "'d fat_fs \<Rightarrow> u32 \<Rightarrow> u32 \<Rightarrow> u32" where
  "lba_of f x s \<equiv> fat_cluster_to_lba f x + s"

lemma volumeD:
  assumes "volume f dv"
  shows "fat16 f dv" "bytes_per_sector f = 512" "fat_type f = 16" "dev f = Some dv"
    "0 < unat (sectors_per_cluster f)" "unat (sectors_per_cluster f) < 256"
  using assms by (simp_all add: volume_def fat16_def word_less_nat_alt)

lemma validD:
  assumes "volume f dv" and "valid f x"
  shows "x < 0x10000" "data_cluster x" "unat x < unat (total_clusters f)" "2 \<le> unat x"
  using assms by (auto simp: volume_def valid_def data_cluster_def word_less_nat_alt word_le_nat_alt)

lemma unat_lba:
  assumes vol: "volume f dv" and x: "valid f x" and s: "s < sectors_per_cluster f"
  shows "unat (lba_of f x s) =
    unat (first_data_sector f) + (unat x - 2) * unat (sectors_per_cluster f) + unat s"
    and "unat (lba_of f x s) < unat (first_data_sector f) + (unat (total_clusters f) - 2) * unat (sectors_per_cluster f)"
proof -
  let ?S = "unat (sectors_per_cluster f)" and ?FD = "unat (first_data_sector f)" and ?T = "unat (total_clusters f)"
  note X = validD [OF vol x]
  have us: "unat s < ?S" using s by (simp add: word_less_nat_alt)
  have "(unat x - 2) * ?S + unat s < (unat x - 2) * ?S + ?S" using us by simp
  also have "\<dots> = Suc (unat x - 2) * ?S" by simp
  also have "\<dots> \<le> (?T - 2) * ?S" using X(3,4) by (intro mult_le_mono1) simp
  finally have lt: "(unat x - 2) * ?S + unat s < (?T - 2) * ?S" .
  then have bound: "?FD + ((unat x - 2) * ?S + unat s) < 2 ^ 32" using vol by (simp add: volume_def)
  have x2: "unat (x - 2) = unat x - 2" using X(4) by (simp add: unat_sub word_le_nat_alt)
  have m: "unat ((x - 2) * sectors_per_cluster f) = (unat x - 2) * ?S"
    using bound x2 by (simp add: unat_word_ariths)
  have e: "lba_of f x s = first_data_sector f + ((x - 2) * sectors_per_cluster f + s)"
    by (simp add: fat_cluster_to_lba_def add.assoc)
  have r: "unat ((x - 2) * sectors_per_cluster f + s) = (unat x - 2) * ?S + unat s"
    using bound m by (subst unat_plus_no_wrap) simp_all
  show "unat (lba_of f x s) = ?FD + (unat x - 2) * ?S + unat s"
    unfolding e using bound r by (subst unat_plus_no_wrap) simp_all
  then show "unat (lba_of f x s) < ?FD + (?T - 2) * ?S" using lt by simp
qed

text \<open>Different sectors of data clusters are different, and none is in the table or the directory.\<close>

lemma lba_inject:
  assumes vol: "volume f dv" and x: "valid f x" "s < sectors_per_cluster f" and y: "valid f y" "t < sectors_per_cluster f"
  shows "lba_of f x s = lba_of f y t \<longleftrightarrow> x = y \<and> s = t"
proof
  let ?S = "unat (sectors_per_cluster f)"
  assume "lba_of f x s = lba_of f y t"
  then have eq: "(unat x - 2) * ?S + unat s = (unat y - 2) * ?S + unat t"
    using unat_lba(1) [OF vol x] unat_lba(1) [OF vol y] by simp
  have st: "unat s < ?S" "unat t < ?S" using x(2) y(2) by (simp_all add: word_less_nat_alt)
  have "((unat x - 2) * ?S + unat s) div ?S = unat x - 2" "((unat y - 2) * ?S + unat t) div ?S = unat y - 2"
    using st by simp_all
  then have "unat x - 2 = unat y - 2" using eq by simp
  moreover from this have "unat s = unat t" using eq by simp
  ultimately show "x = y \<and> s = t"
    using validD(4) [OF vol x(1)] validD(4) [OF vol y(1)] by (auto simp: word_unat_eq_iff)
qed simp

definition system_sector :: "'d fat_fs \<Rightarrow> u32 \<Rightarrow> bool" where
  "system_sector f lba \<longleftrightarrow> lba < first_data_sector f"

lemma lba_data: "volume f dv \<Longrightarrow> valid f x \<Longrightarrow> s < sectors_per_cluster f \<Longrightarrow> \<not> system_sector f (lba_of f x s)"
  using unat_lba(1) [of f dv x s] by (simp add: system_sector_def word_less_nat_alt)

lemma unat_entry_sector:
  assumes vol: "volume f dv" and x: "x < total_clusters f"
  shows "unat (entry_sector f x) = unat (first_fat_sector f) + unat x div 256"
    and "unat (entry_sector f x) < unat (root_dir_sector f)"
proof -
  let ?T = "unat (total_clusters f)"
  have "unat x < ?T" using x by (simp add: word_less_nat_alt)
  then have lt: "unat x div 256 < (?T + 255) div 256" by auto
  then have b: "unat (first_fat_sector f) + unat x div 256 < unat (root_dir_sector f)" using vol by (simp add: volume_def)
  have q: "unat (of_nat (unat x div 256) :: u32) = unat x div 256"
    by (rule unat_of_nat_small) (rule le_less_trans [OF div_le_dividend], simp)
  have "unat (first_fat_sector f) + unat x div 256 < 2 ^ 32" by (rule less_trans [OF b]) simp
  then show "unat (entry_sector f x) = unat (first_fat_sector f) + unat x div 256"
    unfolding entry_sector_def by (subst unat_plus_no_wrap) (simp_all add: q)
  with b show "unat (entry_sector f x) < unat (root_dir_sector f)" by simp
qed

lemma entry_sector_system:
  assumes "volume f dv" and "x < total_clusters f"
  shows "system_sector f (entry_sector f x)"
  using unat_entry_sector(2) [OF assms] assms(1) by (simp add: system_sector_def volume_def word_less_nat_alt)

lemma lba_not_entry:
  "volume f dv \<Longrightarrow> valid f x \<Longrightarrow> s < sectors_per_cluster f \<Longrightarrow> y < total_clusters f \<Longrightarrow> lba_of f x s \<noteq> entry_sector f y"
  using lba_data [of f dv x s] entry_sector_system [of f dv y] by auto

subsection \<open>Contents of clusters and chains\<close>

definition cluster_from :: "('d \<Rightarrow> u32 \<Rightarrow> u8 list) \<Rightarrow> 'd fat_fs \<Rightarrow> 'd \<Rightarrow> u32 \<Rightarrow> nat \<Rightarrow> u8 list" where
  "cluster_from img f d x s =
     concat (map (\<lambda>k. img d (lba_of f x (of_nat k))) [s..<unat (sectors_per_cluster f)])"

definition cluster_bytes :: "('d \<Rightarrow> u32 \<Rightarrow> u8 list) \<Rightarrow> 'd fat_fs \<Rightarrow> 'd \<Rightarrow> u32 \<Rightarrow> u8 list" where
  "cluster_bytes img f d x = cluster_from img f d x 0"

definition chain_bytes :: "('d \<Rightarrow> u32 \<Rightarrow> u8 list) \<Rightarrow> 'd fat_fs \<Rightarrow> 'd \<Rightarrow> u32 list \<Rightarrow> u8 list" where
  "chain_bytes img f d xs = concat (map (cluster_bytes img f d) xs)"

text \<open>The clusters \<open>xs\<close>, one linked to the next, from \<open>c\<close> to an end mark.\<close>

primrec cluster_chain :: "(u32 \<Rightarrow> u32) \<Rightarrow> u32 \<Rightarrow> u32 list \<Rightarrow> bool" where
  "cluster_chain link c [] \<longleftrightarrow> 0xFFF8 \<le> c"
| "cluster_chain link c (x # xs) \<longleftrightarrow> c = x \<and> data_cluster x \<and> cluster_chain link (link x) xs"

lemma cluster_from_Cons:
  "s < unat (sectors_per_cluster f) \<Longrightarrow>
   cluster_from img f d x s = img d (lba_of f x (of_nat s)) @ cluster_from img f d x (Suc s)"
  by (simp add: cluster_from_def upt_conv_Cons)

lemma length_cluster_from:
  "sector_device dv img \<Longrightarrow> length (cluster_from img f d x s) = 512 * (unat (sectors_per_cluster f) - s)"
  by (simp add: cluster_from_def length_concat comp_def sector_deviceD(2) sum_list_triv)

lemma length_chain_bytes:
  "sector_device dv img \<Longrightarrow> length (chain_bytes img f d xs) = 512 * unat (sectors_per_cluster f) * length xs"
  by (induction xs) (simp_all add: chain_bytes_def cluster_bytes_def length_cluster_from)

subsection \<open>Reading\<close>

lemma read_sectors_spec:
  assumes dv: "sector_device dv img" and vol: "volume f dv" and big: "unat to_read + 512 < 2 ^ 32"
  shows "s \<le> unat (sectors_per_cluster f) \<Longrightarrow> unat n \<le> unat to_read \<Longrightarrow>
    \<exists>n'. read_sectors_loop f d x to_read (of_nat s) n out =
      (n', out @ take (unat to_read - unat n) (cluster_from img f d x s)) \<and>
      unat n' = unat n + min (unat to_read - unat n) (512 * (unat (sectors_per_cluster f) - s))"
proof (induction "unat (sectors_per_cluster f) - s" arbitrary: s n out)
  case 0
  then have "s = unat (sectors_per_cluster f)" by simp
  then show ?case by (subst read_sectors_loop.simps) (simp add: cluster_from_def)
next
  case (Suc j)
  let ?S = "unat (sectors_per_cluster f)" and ?m = "unat to_read - unat n"
  note V = volumeD [OF vol]
  have lt: "s < ?S" using Suc.hyps(2) by simp
  have us: "unat (of_nat s :: u32) = s" using lt V(6) by (intro unat_of_nat_small) simp
  then have ws: "(of_nat s :: u32) < sectors_per_cluster f" using lt by (simp add: word_less_nat_alt)
  show ?case
  proof (cases "n < to_read")
    case False
    then have "n = to_read" using Suc.prems(2) by (simp add: word_less_nat_alt word_unat_eq_iff)
    then show ?thesis by (subst read_sectors_loop.simps) simp
  next
    case True
    let ?sec = "img d (lba_of f x (of_nat s))"
    define chunk where "chunk = (if n + 512 > to_read then to_read - n else 512)"
    have n512: "unat (n + 512) = unat n + 512" using big Suc.prems(2) by (subst unat_plus_no_wrap) simp_all
    have le: "n \<le> to_read" using Suc.prems(2) by (simp add: word_le_nat_alt)
    have c: "unat chunk = min ?m 512"
      using n512 le by (auto simp: chunk_def word_less_nat_alt unat_sub)
    have nc: "unat (n + chunk) = unat n + min ?m 512"
      using c big Suc.prems(2) by (subst unat_plus_no_wrap) (simp_all add: min_def)
    have rd: "fat_read_cluster_sector f x (of_nat s) d = Some ?sec"
      using ws V(4) sector_deviceD(1) [OF dv] by (simp add: fat_read_cluster_sector_def linorder_not_less [symmetric])
    have len: "length ?sec = 512" using sector_deviceD(2) [OF dv] .
    have pre: "Suc s \<le> ?S" "unat (n + chunk) \<le> unat to_read" using lt nc Suc.prems(2) by simp_all
    obtain n' where IH: "read_sectors_loop f d x to_read (of_nat (Suc s)) (n + chunk) (out @ take (unat chunk) ?sec) =
        (n', (out @ take (unat chunk) ?sec) @ take (unat to_read - unat (n + chunk)) (cluster_from img f d x (Suc s)))"
      "unat n' = unat (n + chunk) + min (unat to_read - unat (n + chunk)) (512 * (?S - Suc s))"
      using Suc.hyps(1) [OF _ pre, of "out @ take (unat chunk) ?sec"] Suc.hyps(2) by fastforce
    have "read_sectors_loop f d x to_read (of_nat s) n out =
        read_sectors_loop f d x to_read (of_nat (Suc s)) (n + chunk) (out @ take (unat chunk) ?sec)"
      using ws True rd V(2) by (subst read_sectors_loop.simps) (simp add: Let_def chunk_def add.commute [of 1])
    moreover have "take (unat chunk) ?sec @ take (unat to_read - unat (n + chunk)) (cluster_from img f d x (Suc s)) =
        take ?m (cluster_from img f d x s)"
      unfolding c nc cluster_from_Cons [OF lt] using len by (simp add: min_def)
    moreover have "unat (n + chunk) + min (unat to_read - unat (n + chunk)) (512 * (?S - Suc s)) =
        unat n + min ?m (512 * (?S - s))"
      unfolding nc using lt by (auto simp: min_def)
    ultimately show ?thesis using IH by (intro exI [of _ n']) (simp only: append_assoc)
  qed
qed

lemma read_chain_spec:
  assumes dv: "sector_device dv img" and vol: "volume f dv" and big: "unat to_read + 512 < 2 ^ 32"
  shows "cluster_chain (\<lambda>x. fat_read_fat_entry f x d) c xs \<Longrightarrow> unat n \<le> unat to_read \<Longrightarrow>
    unat to_read - unat n \<le> length (chain_bytes img f d xs) \<Longrightarrow> xs \<noteq> [] \<Longrightarrow>
    read_chain_loop f d to_read c n out = Some (to_read, out @ take (unat to_read - unat n) (chain_bytes img f d xs))"
proof (induction xs arbitrary: c n out)
  case (Cons x xs)
  let ?m = "unat to_read - unat n" and ?S = "unat (sectors_per_cluster f)" and ?next = "fat_read_fat_entry f x d"
  have x: "c = x" "2 \<le> x" "x < 0xFFF8" and rest: "cluster_chain (\<lambda>x. fat_read_fat_entry f x d) ?next xs"
    using Cons.prems(1) by (simp_all add: data_cluster_def)
  have x28: "x < 0x0FFFFFF8" using x(3) by (simp add: word_less_nat_alt)
  show ?case
  proof (cases "n < to_read")
    case False
    then have "n = to_read" using Cons.prems(2) by (simp add: word_less_nat_alt word_unat_eq_iff)
    then show ?thesis by (subst read_chain_loop.simps) simp
  next
    case True
    obtain n' where r: "read_sectors_loop f d x to_read 0 n out = (n', out @ take ?m (cluster_bytes img f d x))"
      "unat n' = unat n + min ?m (512 * ?S)"
      using read_sectors_spec [OF dv vol big, of 0 n d x out] Cons.prems(2) by (auto simp: cluster_bytes_def)
    have lc: "length (cluster_bytes img f d x) = 512 * ?S" by (simp add: cluster_bytes_def length_cluster_from [OF dv])
    have step: "read_chain_loop f d to_read c n out = (if 0xFFF8 \<le> ?next then Some (n', out @ take ?m (cluster_bytes img f d x))
        else read_chain_loop f d to_read ?next n' (out @ take ?m (cluster_bytes img f d x)))"
      using True x x28 r(1) volumeD(3) [OF vol] by (subst read_chain_loop.simps) simp
    show ?thesis
    proof (cases xs)
      case Nil
      then have m: "?m \<le> 512 * ?S" using Cons.prems(3) lc by (simp add: chain_bytes_def)
      then have "n' = to_read" using r(2) Cons.prems(2) by (simp add: word_unat_eq_iff)
      then show ?thesis using step rest Nil by (simp add: chain_bytes_def)
    next
      case xs: (Cons y ys)
      then have "\<not> 0xFFF8 \<le> ?next" using rest by (auto simp: data_cluster_def)
      then have "read_chain_loop f d to_read c n out = Some (to_read, (out @ take ?m (cluster_bytes img f d x)) @
          take (unat to_read - unat n') (chain_bytes img f d xs))"
        using step Cons.IH [OF rest, of n'] r(2) Cons.prems(2,3) xs lc by (simp add: chain_bytes_def min_def)
      moreover have "unat to_read - unat n' = ?m - 512 * ?S" using r(2) by simp
      ultimately show ?thesis using lc by (simp add: chain_bytes_def)
    qed
  qed
qed simp

subsection \<open>Linking a run of clusters\<close>

abbreviation link_of :: "'d fat_fs \<Rightarrow> 'd \<Rightarrow> u32 \<Rightarrow> u32" where
  "link_of f d \<equiv> (\<lambda>x. fat_read_fat_entry f x d)"

definition run_link :: "u32 \<Rightarrow> u32 \<Rightarrow> u32 \<Rightarrow> u32" where
  "run_link first needed x = (if x + 1 = first + needed then 0xFFFF else x + 1)"

lemma link_loop_spec:
  assumes dv: "sector_device dv img" and vol: "volume f dv"
    and run: "unat first + unat needed \<le> unat (total_clusters f)"
  shows "unat i \<le> unat needed \<Longrightarrow> \<exists>d'. link_loop f first needed i d = (True, d') \<and>
    (\<forall>x < 0x10000. link_of f d' x =
       (if unat first + unat i \<le> unat x \<and> unat x < unat first + unat needed then run_link first needed x else link_of f d x)) \<and>
    (\<forall>lba \<ge> root_dir_sector f. img d' lba = img d lba)"
proof (induction "unat needed - unat i" arbitrary: i d)
  case 0
  then have "i = needed" by (simp add: word_unat_eq_iff)
  then show ?case by (subst link_loop.simps) auto
next
  case (Suc j)
  have lt: "i < needed" using Suc.hyps(2) by (simp add: word_less_nat_alt)
  let ?cur = "first + i"
  have T: "unat (total_clusters f) \<le> 65525" using vol by (simp add: volume_def)
  have cur: "unat ?cur = unat first + unat i" using run T lt by (subst unat_plus_no_wrap) (simp_all add: word_less_nat_alt)
  have si: "unat (i + 1) = unat i + 1" using unat_succ_less [OF lt] by simp
  have inT: "?cur < total_clusters f" "?cur < 0x10000" "unat ?cur + 1 \<le> 65525"
    using cur run T lt by (simp_all add: word_less_nat_alt)
  have sc: "unat (?cur + 1) = unat ?cur + 1" using inT(3) by (subst unat_plus_no_wrap) simp_all
  have last: "i + 1 = needed \<longleftrightarrow> ?cur + 1 = first + needed" by (simp only: add.assoc add_left_cancel)
  have val: "run_link first needed ?cur < 0x10000" using sc inT(3) by (simp add: run_link_def word_less_nat_alt)
  obtain d1 where d1: "fat_write_fat_entry f ?cur (run_link first needed ?cur) d = (True, d1)"
    "\<forall>x < 0x10000. link_of f d1 x = (if x = ?cur then run_link first needed ?cur else link_of f d x)"
    "\<forall>lba. lba \<noteq> entry_sector f ?cur \<longrightarrow> img d1 lba = img d lba"
    using write_entry [OF dv volumeD(1) [OF vol] inT(2) val, of d] by auto
  have pre: "j = unat needed - unat (i + 1)" "unat (i + 1) \<le> unat needed"
    using Suc.hyps(2) si lt by (simp_all add: word_less_nat_alt)
  obtain d' where d': "link_loop f first needed (i + 1) d1 = (True, d')"
    "\<forall>x < 0x10000. link_of f d' x = (if unat first + unat (i + 1) \<le> unat x \<and> unat x < unat first + unat needed
       then run_link first needed x else link_of f d1 x)"
    "\<forall>lba \<ge> root_dir_sector f. img d' lba = img d1 lba"
    using Suc.hyps(1) [OF pre, of d1] by blast
  have "link_loop f first needed i d = (True, d')"
  proof -
    have v: "(if i + 1 = needed then 0xFFFF else ?cur + 1) = run_link first needed ?cur" by (simp only: run_link_def last)
    show ?thesis by (subst link_loop.simps) (simp only: lt if_True Let_def v d1(1) d'(1) prod.case not_True_eq_False if_False)
  qed
  moreover have "link_of f d' x = (if unat first + unat i \<le> unat x \<and> unat x < unat first + unat needed
      then run_link first needed x else link_of f d x)" if "x < 0x10000" for x
  proof (cases "x = ?cur")
    case True
    then show ?thesis using d'(2) d1(2) that cur si lt by (simp add: word_less_nat_alt)
  next
    case False
    then have "unat x \<noteq> unat first + unat i" using cur by (metis word_unat_eq_iff)
    then have "unat first + unat (i + 1) \<le> unat x \<longleftrightarrow> unat first + unat i \<le> unat x" using si by linarith
    with False show ?thesis using d'(2) d1(2) that by simp
  qed
  moreover have "img d' lba = img d lba" if "root_dir_sector f \<le> lba" for lba
  proof -
    have "lba \<noteq> entry_sector f ?cur" using that unat_entry_sector(2) [OF vol inT(1)] by (auto simp: word_le_nat_alt)
    with that show ?thesis using d'(3) d1(3) by simp
  qed
  ultimately show ?case by blast
qed

text \<open>The run as a chain.\<close>

definition run_list :: "u32 \<Rightarrow> u32 \<Rightarrow> u32 list" where
  "run_list first needed = map (\<lambda>k. first + of_nat k) [0..<unat needed]"

lemma run_list_unat:
  fixes first needed :: u32
  assumes "unat first + unat needed \<le> 65525" and "k < unat needed"
  shows "unat (first + of_nat k) = unat first + k"
proof -
  have "unat (of_nat k :: u32) = k" using assms by (intro unat_of_nat_small) simp
  with assms show ?thesis by (subst unat_plus_no_wrap) simp_all
qed

lemma run_list_chain_from:
  assumes run: "unat first + unat needed \<le> 65525" "2 \<le> unat first"
    and links: "\<And>x. unat first \<le> unat x \<Longrightarrow> unat x < unat first + unat needed \<Longrightarrow> link x = run_link first needed x"
  shows "k < unat needed \<Longrightarrow> cluster_chain link (first + of_nat k) (map (\<lambda>k. first + of_nat k) [k..<unat needed])"
proof (induction "unat needed - Suc k" arbitrary: k)
  case 0
  then have k: "unat needed = Suc k" by simp
  have u: "unat (first + of_nat k) = unat first + k" using run_list_unat [OF run(1)] 0 by simp
  have "first + of_nat k + 1 = first + needed"
  proof -
    have "needed = of_nat (Suc k)" unfolding k [symmetric] by simp
    then show ?thesis by (simp add: add.commute)
  qed
  then have "link (first + of_nat k) = 0xFFFF" using links [of "first + of_nat k"] u k by (simp add: run_link_def)
  with u k run show ?case by (auto simp: data_cluster_def word_le_nat_alt word_less_nat_alt)
next
  case (Suc j)
  then have k: "Suc k < unat needed" by simp
  have u: "unat (first + of_nat k) = unat first + k" "unat (first + of_nat (Suc k)) = unat first + Suc k"
    using run_list_unat [OF run(1)] k by (simp_all del: of_nat_Suc)
  have nx: "first + of_nat k + 1 = first + of_nat (Suc k)" by (simp add: add.commute)
  have "unat (of_nat (Suc k) :: u32) = Suc k" using k run(1) by (intro unat_of_nat_small) simp
  then have "first + of_nat (Suc k) \<noteq> first + needed" using k by (metis add_left_cancel less_irrefl)
  then have "link (first + of_nat k) = first + of_nat (Suc k)"
    using links [of "first + of_nat k"] u k nx by (simp add: run_link_def)
  moreover have "cluster_chain link (first + of_nat (Suc k)) (map (\<lambda>k. first + of_nat k) [Suc k..<unat needed])"
    using Suc.hyps(1) [of "Suc k"] Suc.hyps(2) k by simp
  moreover have "data_cluster (first + of_nat k)" using u k run by (auto simp: data_cluster_def word_le_nat_alt word_less_nat_alt)
  ultimately show ?case using k by (simp add: upt_conv_Cons del: of_nat_Suc)
qed

subsection \<open>Writing\<close>

text \<open>The sectors of the cluster \<open>x\<close> from \<open>s\<close> on, and of all clusters of a list.\<close>

definition sectors_from :: "'d fat_fs \<Rightarrow> u32 \<Rightarrow> nat \<Rightarrow> u32 set" where
  "sectors_from f x s = (\<lambda>k. lba_of f x (of_nat k)) ` {s..<unat (sectors_per_cluster f)}"

definition sectors_of :: "'d fat_fs \<Rightarrow> u32 list \<Rightarrow> u32 set" where
  "sectors_of f xs = (\<Union>x \<in> set xs. sectors_from f x 0)"

lemma cluster_from_cong:
  "(\<And>lba. lba \<in> sectors_from f x s \<Longrightarrow> img d' lba = img d lba) \<Longrightarrow> cluster_from img f d' x s = cluster_from img f d x s"
  unfolding cluster_from_def by (intro arg_cong [where f = concat] map_cong) (auto simp: sectors_from_def)

lemma sectors_from_Suc:
  "s < unat (sectors_per_cluster f) \<Longrightarrow> sectors_from f x s = insert (lba_of f x (of_nat s)) (sectors_from f x (Suc s))"
proof -
  assume "s < unat (sectors_per_cluster f)"
  then have "{s..<unat (sectors_per_cluster f)} = insert s {Suc s..<unat (sectors_per_cluster f)}" by auto
  then show ?thesis by (simp only: sectors_from_def image_insert)
qed

lemma sector_word:
  assumes "volume f dv" and "k < unat (sectors_per_cluster f)"
  shows "(of_nat k :: u32) < sectors_per_cluster f" "unat (of_nat k :: u32) = k"
proof -
  show "unat (of_nat k :: u32) = k" using assms volumeD(6) [OF assms(1)] by (intro unat_of_nat_small) simp
  then show "(of_nat k :: u32) < sectors_per_cluster f" using assms(2) by (simp add: word_less_nat_alt)
qed

lemma sectors_from_inject:
  assumes vol: "volume f dv" and x: "valid f x" and y: "valid f y" and lba: "lba \<in> sectors_from f x s" "lba \<in> sectors_from f y t"
  shows "x = y"
proof -
  obtain k j where "k < unat (sectors_per_cluster f)" "j < unat (sectors_per_cluster f)"
    "lba = lba_of f x (of_nat k)" "lba = lba_of f y (of_nat j)" using lba by (auto simp: sectors_from_def)
  then show ?thesis using lba_inject [OF vol x sector_word(1) [OF vol] y sector_word(1) [OF vol]] by metis
qed

lemma own_sector_notin:
  assumes vol: "volume f dv" and x: "valid f x" and s: "s < unat (sectors_per_cluster f)"
  shows "lba_of f x (of_nat s) \<notin> sectors_from f x (Suc s)"
proof
  assume "lba_of f x (of_nat s) \<in> sectors_from f x (Suc s)"
  then obtain k where k: "Suc s \<le> k" "k < unat (sectors_per_cluster f)" "lba_of f x (of_nat s) = lba_of f x (of_nat k)"
    by (auto simp: sectors_from_def)
  then have "(of_nat s :: u32) = of_nat k"
    using lba_inject [OF vol x sector_word(1) [OF vol s] x sector_word(1) [OF vol k(2)]] by simp
  then have "unat (of_nat s :: u32) = unat (of_nat k :: u32)" by simp
  then show False using k(1) sector_word(2) [OF vol s] sector_word(2) [OF vol k(2)] by simp
qed

lemma write_sectors_spec:
  assumes dv: "sector_device dv img" and vol: "volume f dv" and x: "valid f x"
  shows "s \<le> unat (sectors_per_cluster f) \<Longrightarrow> 0 < unat remaining \<Longrightarrow> unat remaining \<le> length buffer \<Longrightarrow>
    \<exists>rem' buf' d'. write_sectors_loop f x (of_nat s) remaining buffer d = (True, rem', buf', d') \<and>
      unat rem' = unat remaining - 512 * (unat (sectors_per_cluster f) - s) \<and>
      (0 < unat rem' \<longrightarrow> buf' = drop (512 * (unat (sectors_per_cluster f) - s)) buffer) \<and>
      take (unat remaining) (cluster_from img f d' x s) =
        take (512 * (unat (sectors_per_cluster f) - s)) (take (unat remaining) buffer) \<and>
      (\<forall>lba. lba \<notin> sectors_from f x s \<longrightarrow> img d' lba = img d lba)"
proof (induction "unat (sectors_per_cluster f) - s" arbitrary: s remaining buffer d)
  case 0
  then have "s = unat (sectors_per_cluster f)" by simp
  then show ?case by (subst write_sectors_loop.simps) (simp add: cluster_from_def)
next
  case (Suc j)
  let ?S = "unat (sectors_per_cluster f)" and ?R = "unat remaining" and ?lba = "lba_of f x (of_nat s)"
  have lt: "s < ?S" using Suc.hyps(2) by simp
  note V = volumeD [OF vol] and W = sector_word [OF vol lt]
  have left: "512 * (?S - s) = 512 + 512 * (?S - Suc s)" using lt by simp
  show ?case
  proof (cases "?R < 512")
    case True
    let ?b = "take ?R buffer @ replicate (512 - ?R) 0"
    have "length ?b = 512" using True Suc.prems(3) by simp
    then obtain d' where d': "write_sector (Some dv) ?lba ?b d = (True, d')" "img d' = (img d)(?lba := ?b)"
      using sector_deviceD(3) [OF dv] by blast
    have "write_sectors_loop f x (of_nat s) remaining buffer d = (True, 0, buffer, d')"
      using W(1) True V(2,4) d'(1) by (subst write_sectors_loop.simps) (simp add: Let_def word_less_nat_alt)
    moreover have "take ?R (cluster_from img f d' x s) = take (512 * (?S - s)) (take ?R buffer)"
      unfolding cluster_from_Cons [OF lt] left using d'(2) True Suc.prems(3) by (simp add: min_def)
    moreover have "\<forall>lba. lba \<notin> sectors_from f x s \<longrightarrow> img d' lba = img d lba"
      using d'(2) by (simp add: sectors_from_Suc [OF lt])
    ultimately show ?thesis using True left by auto
  next
    case False
    let ?b = "take 512 buffer"
    have "length ?b = 512" using False Suc.prems(3) by simp
    then obtain d1 where d1: "write_sector (Some dv) ?lba ?b d = (True, d1)" "img d1 = (img d)(?lba := ?b)"
      using sector_deviceD(3) [OF dv] by blast
    have ge: "\<not> remaining < 512" using False by (simp add: word_less_nat_alt)
    then have r512: "unat (remaining - 512) = ?R - 512" by (simp add: unat_sub not_less)
    have step: "write_sectors_loop f x (of_nat s) remaining buffer d =
        (if remaining - 512 = 0 then (True, 0, drop 512 buffer, d1)
         else write_sectors_loop f x (of_nat (Suc s)) (remaining - 512) (drop 512 buffer) d1)"
      using W(1) ge V(2,4) d1(1) by (subst write_sectors_loop.simps) (simp add: Let_def add.commute [of 1])
    show ?thesis
    proof (cases "?R = 512")
      case True
      then have "remaining - 512 = 0" using r512 by (simp add: word_unat_eq_iff)
      then have "write_sectors_loop f x (of_nat s) remaining buffer d = (True, 0, drop 512 buffer, d1)" using step by simp
      moreover have "take ?R (cluster_from img f d1 x s) = take (512 * (?S - s)) (take ?R buffer)"
        unfolding cluster_from_Cons [OF lt] left using d1(2) True Suc.prems(3) by (simp add: min_def)
      moreover have "\<forall>lba. lba \<notin> sectors_from f x s \<longrightarrow> img d1 lba = img d lba"
        using d1(2) by (simp add: sectors_from_Suc [OF lt])
      ultimately show ?thesis using True left by auto
    next
      case ne: False
      have pre: "j = ?S - Suc s" "Suc s \<le> ?S" "0 < unat (remaining - 512)" "unat (remaining - 512) \<le> length (drop 512 buffer)"
        using Suc.hyps(2) lt r512 False ne Suc.prems(3) by simp_all
      obtain rem' buf' d' where IH: "write_sectors_loop f x (of_nat (Suc s)) (remaining - 512) (drop 512 buffer) d1 = (True, rem', buf', d')"
        "unat rem' = unat (remaining - 512) - 512 * (?S - Suc s)"
        "0 < unat rem' \<longrightarrow> buf' = drop (512 * (?S - Suc s)) (drop 512 buffer)"
        "take (unat (remaining - 512)) (cluster_from img f d' x (Suc s)) =
          take (512 * (?S - Suc s)) (take (unat (remaining - 512)) (drop 512 buffer))"
        "\<forall>lba. lba \<notin> sectors_from f x (Suc s) \<longrightarrow> img d' lba = img d1 lba"
        using Suc.hyps(1) [OF pre, of d1] by (elim exE conjE) (rule that)
      have "remaining - 512 \<noteq> 0" using pre(3) by auto
      then have "write_sectors_loop f x (of_nat s) remaining buffer d = (True, rem', buf', d')" using step IH(1) by simp
      moreover have "img d' ?lba = ?b" using IH(5) own_sector_notin [OF vol x lt] d1(2) by simp
      moreover have "take ?R (cluster_from img f d' x s) = take (512 * (?S - s)) (take ?R buffer)"
      proof -
        have "take ?R (?b @ cluster_from img f d' x (Suc s)) = ?b @ take (?R - 512) (cluster_from img f d' x (Suc s))"
          using \<open>length ?b = 512\<close> False by simp
        moreover have "take (512 + 512 * (?S - Suc s)) (take ?R buffer) =
            ?b @ take (512 * (?S - Suc s)) (take (?R - 512) (drop 512 buffer))"
          unfolding take_add drop_take using False by (simp add: min_def)
        ultimately show ?thesis
          unfolding cluster_from_Cons [OF lt] left \<open>img d' ?lba = ?b\<close> using IH(4) r512 by simp
      qed
      moreover have "\<forall>lba. lba \<notin> sectors_from f x s \<longrightarrow> img d' lba = img d lba"
        using IH(5) d1(2) by (simp add: sectors_from_Suc [OF lt])
      ultimately show ?thesis using IH(2,3) left r512 by (auto simp: add.commute)
    qed
  qed
qed

lemma link_frame:
  assumes dv: "sector_device dv img" and vol: "volume f dv" and x: "x < total_clusters f"
    and same: "\<And>lba. lba < root_dir_sector f \<Longrightarrow> img d' lba = img d lba"
  shows "link_of f d' x = link_of f d x"
proof -
  have "x < 0x10000" using x vol by (simp add: volume_def word_less_nat_alt)
  moreover have "entry_sector f x < root_dir_sector f" using unat_entry_sector(2) [OF vol x] by (simp add: word_less_nat_alt)
  ultimately show ?thesis using read_entry [OF dv volumeD(1) [OF vol]] same by simp
qed

lemma sectors_of_data:
  assumes "volume f dv" and "\<forall>x \<in> set xs. valid f x" and "lba \<in> sectors_of f xs"
  shows "\<not> lba < first_data_sector f" "\<not> lba < root_dir_sector f"
proof -
  obtain x k where "valid f x" "k < unat (sectors_per_cluster f)" "lba = lba_of f x (of_nat k)"
    using assms(2,3) by (auto simp: sectors_of_def sectors_from_def)
  then show fd: "\<not> lba < first_data_sector f"
    using lba_data [OF assms(1) _ sector_word(1) [OF assms(1)]] by (simp add: system_sector_def)
  have "unat (root_dir_sector f) \<le> unat (first_data_sector f)" using assms(1) by (simp add: volume_def)
  then have "root_dir_sector f \<le> first_data_sector f" by (simp add: word_le_nat_alt)
  with fd show "\<not> lba < root_dir_sector f" by (meson less_le_trans)
qed

lemma cluster_chain_cong:
  "(\<And>x. x \<in> set xs \<Longrightarrow> link' x = link x) \<Longrightarrow> cluster_chain link c xs \<Longrightarrow> cluster_chain link' c xs"
  by (induction xs arbitrary: c) auto

lemma write_chain_spec:
  assumes dv: "sector_device dv img" and vol: "volume f dv"
  shows "cluster_chain (link_of f d) c xs \<Longrightarrow> distinct xs \<Longrightarrow> \<forall>x \<in> set xs. valid f x \<Longrightarrow> unat remaining \<le> length buffer \<Longrightarrow>
    unat remaining \<le> 512 * unat (sectors_per_cluster f) * length xs \<Longrightarrow>
    \<exists>d'. write_chain_loop f c remaining buffer d = Some (True, d') \<and>
      take (unat remaining) (chain_bytes img f d' xs) = take (unat remaining) buffer \<and>
      (\<forall>lba. lba \<notin> sectors_of f xs \<longrightarrow> img d' lba = img d lba)"
proof (induction xs arbitrary: c remaining buffer d)
  case Nil
  then have "unat remaining = 0" by simp
  then have "remaining = 0" by (simp add: unat_eq_0)
  then show ?case by (subst write_chain_loop.simps) simp
next
  case (Cons x xs)
  let ?C = "512 * unat (sectors_per_cluster f)" and ?R = "unat remaining"
  show ?case
  proof (cases "remaining = 0")
    case True
    then show ?thesis by (subst write_chain_loop.simps) simp
  next
    case False
    have x: "valid f x" "c = x" "data_cluster x" using Cons.prems(1,3) by simp_all
    have R: "0 < ?R" using False by (simp add: unat_gt_0)
    obtain rem' buf' d1 where w: "write_sectors_loop f x 0 remaining buffer d = (True, rem', buf', d1)"
      "unat rem' = ?R - ?C" "0 < unat rem' \<longrightarrow> buf' = drop ?C buffer"
      "take ?R (cluster_bytes img f d1 x) = take ?C (take ?R buffer)"
      "\<forall>lba. lba \<notin> sectors_from f x 0 \<longrightarrow> img d1 lba = img d lba"
      using write_sectors_spec [OF dv vol x(1), of 0 remaining buffer d] R Cons.prems(4) unfolding cluster_bytes_def
      by (auto elim!: exE conjE)
    have sys: "img d1 lba = img d lba" if "lba < root_dir_sector f" for lba
      using w(5) that sectors_of_data(2) [OF vol, of "[x]" lba] x(1) by (auto simp: sectors_of_def)
    have links: "link_of f d1 y = link_of f d y" if "valid f y" for y
      using link_frame [OF dv vol _ sys] that by (simp add: valid_def)
    have ch: "cluster_chain (link_of f d1) (link_of f d1 x) xs"
      using Cons.prems(1,3) links by (auto intro: cluster_chain_cong [of xs "link_of f d1" "link_of f d"])
    have "0 < unat rem' \<Longrightarrow> unat rem' \<le> length buf'" using w(2,3) Cons.prems(4) by simp
    then have fits: "unat rem' \<le> length buf'" "unat rem' \<le> ?C * length xs" using w(2) Cons.prems(5) by (cases "unat rem'"; simp)+
    obtain d' where d': "write_chain_loop f (link_of f d1 x) rem' buf' d1 = Some (True, d')"
      "take (unat rem') (chain_bytes img f d' xs) = take (unat rem') buf'"
      "\<forall>lba. lba \<notin> sectors_of f xs \<longrightarrow> img d' lba = img d1 lba"
      using Cons.IH [OF ch _ _ fits] Cons.prems(2,3) by auto
    have "write_chain_loop f c remaining buffer d = Some (True, d')"
      using False x w(1) d'(1) by (subst write_chain_loop.simps) (simp add: data_cluster_def word_gt_0)
    moreover have own: "lba \<notin> sectors_of f xs" if "lba \<in> sectors_from f x 0" for lba
      using that sectors_from_inject [OF vol x(1), of _ lba 0 0] Cons.prems(2,3) by (auto simp: sectors_of_def)
    then have "cluster_bytes img f d' x = cluster_bytes img f d1 x"
      unfolding cluster_bytes_def using d'(3) by (intro cluster_from_cong) simp
    then have "take ?R (chain_bytes img f d' (x # xs)) = take ?R buffer"
    proof -
      assume same: "cluster_bytes img f d' x = cluster_bytes img f d1 x"
      have len: "length (cluster_bytes img f d1 x) = ?C" by (simp add: cluster_bytes_def length_cluster_from [OF dv])
      have "take ?R (chain_bytes img f d' (x # xs)) = take ?R (cluster_bytes img f d1 x) @ take (?R - ?C) (chain_bytes img f d' xs)"
        by (simp add: chain_bytes_def same len)
      also have "\<dots> = take ?C (take ?R buffer) @ take (unat rem') buf'" using w(2,4) d'(2) by simp
      also have "\<dots> = take ?R buffer"
      proof (cases "?R \<le> ?C")
        case True
        then show ?thesis using w(2) by (simp add: min_def)
      next
        case False
        then have "buf' = drop ?C buffer" using w(2,3) by simp
        moreover have "take (?C + (?R - ?C)) buffer = take ?C buffer @ take (?R - ?C) (drop ?C buffer)" by (rule take_add)
        ultimately show ?thesis using False w(2) by (simp add: min_def)
      qed
      finally show ?thesis .
    qed
    moreover have "\<forall>lba. lba \<notin> sectors_of f (x # xs) \<longrightarrow> img d' lba = img d lba"
      using d'(3) w(5) by (auto simp: sectors_of_def)
    ultimately show ?thesis by blast
  qed
qed

subsection \<open>Storing contents\<close>

lemma find_free_run_spec:
  assumes "0 < unat count"
  shows "if fat_find_free_run f d count = 0 then \<forall>a. \<not> free_run f d a (unat count)
    else free_run f d (unat (fat_find_free_run f d count)) (unat count)"
proof -
  have "scan_inv f d (unat count) (unat (2 :: u32)) (unat (0 :: u32)) (unat (2 :: u32))"
    using assms by (auto simp: scan_inv_def free_run_def)
  from free_run_loop_correct [OF this] show ?thesis by (auto simp: fat_find_free_run_def split: if_splits)
qed

lemma run_list_props:
  assumes vol: "volume f dv" and run: "free_run f d (unat first) (unat needed)"
  shows "distinct (run_list first needed)" "\<forall>x \<in> set (run_list first needed). valid f x \<and> link_of f d x = 0"
    "length (run_list first needed) = unat needed"
    "x \<in> set (run_list first needed) \<longleftrightarrow> unat first \<le> unat x \<and> unat x < unat first + unat needed"
proof -
  have b: "2 \<le> unat first" "unat first + unat needed \<le> unat (total_clusters f)" "unat first + unat needed \<le> 65525"
    using run vol by (auto simp: free_run_def volume_def)
  have u: "unat (first + of_nat k) = unat first + k" if "k < unat needed" for k using run_list_unat [OF b(3) that] .
  show "length (run_list first needed) = unat needed" by (simp add: run_list_def)
  show "distinct (run_list first needed)"
    unfolding run_list_def distinct_map
  proof (intro conjI inj_onI)
    fix k j assume kj: "k \<in> set [0..<unat needed]" "j \<in> set [0..<unat needed]" and eq: "first + of_nat k = first + of_nat j"
    have "unat first + k = unat (first + of_nat k)" using kj(1) u [of k] by simp
    also have "\<dots> = unat (first + of_nat j)" by (simp only: eq)
    also have "\<dots> = unat first + j" using kj(2) u [of j] by simp
    finally show "k = j" by simp
  qed simp
  show mem: "x \<in> set (run_list first needed) \<longleftrightarrow> unat first \<le> unat x \<and> unat x < unat first + unat needed" for x
  proof
    assume "x \<in> set (run_list first needed)"
    then show "unat first \<le> unat x \<and> unat x < unat first + unat needed" using u by (auto simp: run_list_def)
  next
    assume r: "unat first \<le> unat x \<and> unat x < unat first + unat needed"
    then have "x = first + of_nat (unat x - unat first)" using u [of "unat x - unat first"] by (simp add: word_unat_eq_iff)
    moreover have "unat x - unat first < unat needed" using r by linarith
    ultimately show "x \<in> set (run_list first needed)" by (force simp: run_list_def)
  qed
  show "\<forall>x \<in> set (run_list first needed). valid f x \<and> link_of f d x = 0"
  proof
    fix x assume "x \<in> set (run_list first needed)"
    then have r: "unat first \<le> unat x" "unat x < unat first + unat needed" using mem by simp_all
    then have "free_at f d (unat x)" using run by (simp add: free_run_def)
    then show "valid f x \<and> link_of f d x = 0" using r b by (simp add: free_at_def valid_def word_le_nat_alt word_less_nat_alt)
  qed
qed

definition clusters_for :: "'d fat_fs \<Rightarrow> u32 \<Rightarrow> nat" where
  "clusters_for f sz = (unat sz + 512 * unat (sectors_per_cluster f) - 1) div (512 * unat (sectors_per_cluster f))"

lemma clusters_needed:
  assumes vol: "volume f dv" and big: "unat sz + 2 ^ 17 < 2 ^ 32"
  defines "C \<equiv> bytes_per_sector f * sectors_per_cluster f"
  shows "unat ((sz + C - 1) div C) = clusters_for f sz" "unat sz \<le> 512 * unat (sectors_per_cluster f) * clusters_for f sz"
    "0 < unat sz \<Longrightarrow> 0 < clusters_for f sz"
proof -
  let ?C = "512 * unat (sectors_per_cluster f)"
  note V = volumeD [OF vol]
  have C: "unat C = ?C" using V(2,6) by (simp add: C_def unat_word_ariths)
  have C0: "0 < ?C" "?C < 2 ^ 17" using V(5,6) by simp_all
  have s1: "unat (sz + C) = unat sz + ?C" using C C0 big by (subst unat_plus_no_wrap) simp_all
  have "unat (sz + C - 1) = unat sz + ?C - 1"
    using s1 C0 by (subst unat_sub) (simp_all add: word_le_nat_alt)
  then show "unat ((sz + C - 1) div C) = clusters_for f sz" by (simp add: unat_div_distrib C clusters_for_def)
  have "unat sz + ?C - 1 < ?C * (clusters_for f sz + 1)"
    using C0 dividend_less_times_div [of ?C "unat sz + ?C - 1"] by (simp add: clusters_for_def)
  then show "unat sz \<le> ?C * clusters_for f sz" by (simp add: distrib_left)
  show "0 < clusters_for f sz" if "0 < unat sz" unfolding clusters_for_def using that C0 by (simp add: div_greater_zero_iff)
qed

definition stores :: "('d \<Rightarrow> u32 \<Rightarrow> u8 list) \<Rightarrow> 'd fat_fs \<Rightarrow> u8 list \<Rightarrow> u32 \<Rightarrow> 'd \<Rightarrow> u32 list \<Rightarrow> 'd \<Rightarrow> bool" where
  "stores img f bs c d xs d' \<longleftrightarrow> xs \<noteq> [] \<and> distinct xs \<and> (\<forall>x \<in> set xs. valid f x \<and> link_of f d x = 0) \<and>
     cluster_chain (link_of f d') c xs \<and> length bs \<le> length (chain_bytes img f d' xs) \<and>
     take (length bs) (chain_bytes img f d' xs) = bs \<and>
     (\<forall>x < total_clusters f. x \<notin> set xs \<longrightarrow> link_of f d' x = link_of f d x) \<and>
     (\<forall>lba \<ge> root_dir_sector f. lba \<notin> sectors_of f xs \<longrightarrow> img d' lba = img d lba)"

lemma store_contents_spec:
  assumes dv: "sector_device dv img" and vol: "volume f dv"
    and sz: "0 < unat sz" "unat sz \<le> length buffer" "unat sz + 2 ^ 17 < 2 ^ 32"
  shows "(\<forall>a. \<not> free_run f d a (clusters_for f sz)) \<and> store_contents f buffer sz d = Some (None, d) \<or>
    (\<exists>first xs d'. store_contents f buffer sz d = Some (Some first, d') \<and> first \<noteq> 0 \<and> first < 0x10000 \<and>
      stores img f (take (unat sz) buffer) first d xs d')"
proof -
  let ?C = "bytes_per_sector f * sectors_per_cluster f"
  let ?n = "(sz + ?C - 1) div ?C"
  note N = clusters_needed [OF vol sz(3)]
  let ?first = "fat_find_free_run f d ?n"
  note F = find_free_run_spec [of ?n f d, unfolded N(1), OF N(3) [OF sz(1)]]
  have sz0: "0 < sz" using sz(1) by (simp add: word_less_nat_alt)
  show ?thesis
  proof (cases "?first = 0")
    case True
    then show ?thesis using F sz0 by (simp add: store_contents_def Let_def)
  next
    case False
    then have run: "free_run f d (unat ?first) (unat ?n)" using F N(1) by simp
    then have b: "unat ?first + unat ?n \<le> unat (total_clusters f)" "2 \<le> unat ?first" by (simp_all add: free_run_def)
    have T: "unat (total_clusters f) \<le> 65525" using vol by (simp add: volume_def)
    let ?xs = "run_list ?first ?n"
    note X = run_list_props [OF vol run]
    obtain d1 where d1: "link_loop f ?first ?n 0 d = (True, d1)"
      "\<forall>x < 0x10000. link_of f d1 x = (if x \<in> set ?xs then run_link ?first ?n x else link_of f d x)"
      "\<forall>lba \<ge> root_dir_sector f. img d1 lba = img d lba"
      using link_loop_spec [OF dv vol b(1), of 0 d] by (auto simp: X(4))
    have n0: "0 < unat ?n" using N(1,3) sz(1) by simp
    have ch: "cluster_chain (link_of f d1) ?first ?xs"
      using run_list_chain_from [of ?first ?n "link_of f d1" 0] b T n0 d1(2) X(4)
      by (simp add: run_list_def [symmetric] word_less_nat_alt)
    have valid: "\<forall>x \<in> set ?xs. valid f x" using X(2) by blast
    have fit: "unat sz \<le> 512 * unat (sectors_per_cluster f) * length ?xs" using N(1,2) X(3) by simp
    obtain d' where d': "write_chain_loop f ?first sz buffer d1 = Some (True, d')"
      "take (unat sz) (chain_bytes img f d' ?xs) = take (unat sz) buffer"
      "\<forall>lba. lba \<notin> sectors_of f ?xs \<longrightarrow> img d' lba = img d1 lba"
      using write_chain_spec [OF dv vol ch X(1) valid sz(2) fit] by blast
    have sys: "img d' lba = img d1 lba" if "lba < root_dir_sector f" for lba
      using d'(3) that sectors_of_data(2) [OF vol valid] by blast
    have links: "link_of f d' x = link_of f d1 x" if "x < total_clusters f" for x
      using link_frame [OF dv vol that sys] .
    have "store_contents f buffer sz d = Some (Some ?first, d')"
      using sz0 False d1(1) d'(1) by (simp add: store_contents_def Let_def)
    moreover have "stores img f (take (unat sz) buffer) ?first d ?xs d'"
      unfolding stores_def
    proof (intro conjI)
      show "?xs \<noteq> []" using X(3) n0 by auto
      show "distinct ?xs" "\<forall>x \<in> set ?xs. valid f x \<and> link_of f d x = 0" using X(1,2) by simp_all
      show "cluster_chain (link_of f d') ?first ?xs"
        by (rule cluster_chain_cong [OF _ ch]) (use links valid in \<open>auto simp: valid_def\<close>)
      show "length (take (unat sz) buffer) \<le> length (chain_bytes img f d' ?xs)"
        using fit sz(2) by (simp add: length_chain_bytes [OF dv])
      show "take (length (take (unat sz) buffer)) (chain_bytes img f d' ?xs) = take (unat sz) buffer"
        using d'(2) sz(2) by (simp add: min_def)
      show "\<forall>x < total_clusters f. x \<notin> set ?xs \<longrightarrow> link_of f d' x = link_of f d x"
        using links d1(2) T by (auto simp: word_less_nat_alt)
      show "\<forall>lba \<ge> root_dir_sector f. lba \<notin> sectors_of f ?xs \<longrightarrow> img d' lba = img d lba" using d'(3) d1(3) by simp
    qed
    moreover have "?first < 0x10000" using b T n0 by (simp add: word_less_nat_alt)
    ultimately show ?thesis using False by blast
  qed
qed

end
