(* ===== verification/Fat_Directory.thy ===== *)
theory Fat_Directory
  imports Fat_Files
begin

text \<open>
  The root directory of a FAT16 volume (\<^verbatim>\<open>src/fs/fat.c\<close>): its sectors as lists of 32-byte
  slots, the listing that the scan produces, and the place the search for an entry returns.
\<close>

subsection \<open>Slots\<close>

definition slot :: "u8 list \<Rightarrow> nat \<Rightarrow> u8 list" where
  "slot b k = take 32 (drop (32 * k) b)"

lemma length_slot: "length b = 512 \<Longrightarrow> k < 16 \<Longrightarrow> length (slot b k) = 32"
  by (simp add: slot_def)

lemma slot_word:
  assumes "k < 16"
  shows "unat (of_nat k * 32 :: u32) = 32 * k" "unat (32 * of_nat k :: u32) = 32 * k"
  using assms by (simp_all add: unat_word_ariths unat_of_nat_small)

lemma drop_slot: "drop (32 * k) b = slot b k @ drop (32 * k + 32) b"
  using append_take_drop_id [of 32 "drop (32 * k) b"] by (simp add: slot_def add.commute)

lemma entry_name_append: "11 \<le> length t \<Longrightarrow> entry_name (t @ r) = entry_name t"
  by (simp add: entry_name_def Let_def nth_append)

lemma slot_fields:
  assumes "length b = 512" and "k < 16"
  shows "j < 32 \<Longrightarrow> drop (32 * k) b ! j = slot b k ! j" "take 11 (drop (32 * k) b) = take 11 (slot b k)"
    "j + 1 < 32 \<Longrightarrow> get16 (drop (32 * k) b) j = get16 (slot b k) j"
    "j + 3 < 32 \<Longrightarrow> get32 (drop (32 * k) b) j = get32 (slot b k) j"
    "entry_name (drop (32 * k) b) = entry_name (slot b k)"
  using length_slot [OF assms] unfolding drop_slot [of k b]
  by (simp_all add: nth_append get16_def get32_def entry_name_append)

definition is_file :: "u8 list \<Rightarrow> bool" where
  "is_file t \<longleftrightarrow> t ! 0 \<noteq> 0xE5 \<and> t ! 11 \<noteq> 0x0F \<and> t ! 11 AND 0x08 = 0"

definition info :: "u8 list \<Rightarrow> fat_file_info" where
  "info t = \<lparr>fi_name = take 12 (takeWhile (\<lambda>c. c \<noteq> 0) (entry_name t)), fi_size = get32 t 28,
     first_cluster = push_bit 16 (ucast (get16 t 20)) OR ucast (get16 t 26)\<rparr>"

text \<open>The files of a sector from slot \<open>k\<close> on; a slot that starts with 0 ends the sector.\<close>

definition files_from :: "u8 list \<Rightarrow> nat \<Rightarrow> fat_file_info list" where
  "files_from b k = map info (filter is_file (takeWhile (\<lambda>t. t ! 0 \<noteq> 0) (map (slot b) [k..<16])))"

lemma files_from_step:
  assumes "k < 16"
  shows "files_from b k = (if slot b k ! 0 = 0 then []
    else (if is_file (slot b k) then [info (slot b k)] else []) @ files_from b (Suc k))"
  using assms by (simp add: files_from_def upt_conv_Cons)

lemma take_snoc_full:
  "length xs \<le> n \<Longrightarrow> take n ((if n \<le> length xs then xs else xs @ [x]) @ ys) = take n (xs @ x # ys)"
  by (cases "length xs = n") simp_all

lemma take_take_append: "take n (take n xs @ ys) = take n (xs @ ys)"
  by (cases "n \<le> length xs") simp_all

lemma parse_loop_files:
  assumes "length b = 512"
  shows "k \<le> 16 \<Longrightarrow> length files \<le> 32 \<Longrightarrow> parse_loop b 16 (of_nat k) files = take 32 (files @ files_from b k)"
proof (induction "16 - k" arbitrary: k files)
  case 0
  then have k: "k = 16" by simp
  show ?case using 0 unfolding k by (subst parse_loop.simps) (simp add: files_from_def)
next
  case (Suc j)
  then have k: "k < 16" by simp
  have lt: "(of_nat k :: u32) < 16" using k by (simp add: word_less_nat_alt unat_of_nat_small)
  have nx: "(of_nat k :: u32) + 1 = of_nat (Suc k)" by (simp add: add.commute)
  note F = slot_fields [OF assms k]
  let ?t = "slot b k"
  have next_files: "parse_loop b 16 (of_nat (Suc k)) fs = take 32 (fs @ files_from b (Suc k))" if "length fs \<le> 32" for fs
    using Suc.hyps(1) [of "Suc k" fs] Suc.hyps(2) k that by (simp del: of_nat_Suc)
  have unf: "parse_loop b 16 (of_nat k) files =
      (if ?t ! 0 = 0 then files
       else if is_file ?t then parse_loop b 16 (of_nat (Suc k)) (if 32 \<le> length files then files else files @ [info ?t])
       else parse_loop b 16 (of_nat (Suc k)) files)"
    using lt by (subst parse_loop.simps)
      (simp add: slot_word [OF k] F is_file_def info_def fat_add_file_def nx Let_def del: of_nat_Suc)
  show ?case
    unfolding unf files_from_step [OF k] using Suc.prems(2)
    by (auto simp: next_files take_snoc_full simp del: of_nat_Suc)
qed

definition root_sector :: "('d \<Rightarrow> u32 \<Rightarrow> u8 list) \<Rightarrow> 'd fat_fs \<Rightarrow> 'd \<Rightarrow> nat \<Rightarrow> u8 list" where
  "root_sector img f d i = img d (root_dir_sector f + of_nat i)"

definition root_files :: "('d \<Rightarrow> u32 \<Rightarrow> u8 list) \<Rightarrow> 'd fat_fs \<Rightarrow> 'd \<Rightarrow> nat \<Rightarrow> fat_file_info list" where
  "root_files img f d i =
     concat (map (\<lambda>i. files_from (root_sector img f d i) 0) [i..<unat (root_dir_sectors f)])"

lemma scan_root16_files:
  assumes dv: "sector_device dv img" and vol: "volume f dv"
  shows "i \<le> unat (root_dir_sectors f) \<Longrightarrow> length files \<le> 32 \<Longrightarrow>
    scan_root16 f d (of_nat i) files = take 32 (files @ root_files img f d i)"
proof (induction "unat (root_dir_sectors f) - i" arbitrary: i files)
  case 0
  then have "i = unat (root_dir_sectors f)" by simp
  then show ?case using 0 by (subst scan_root16.simps) (simp add: root_files_def)
next
  case (Suc j)
  note V = volumeD [OF vol]
  have lt: "i < unat (root_dir_sectors f)" using Suc.hyps(2) by simp
  have "unat (of_nat i :: u32) = i" by (rule unat_of_nat_small) (use less_trans [OF lt unat_u32] in simp)
  then have w: "(of_nat i :: u32) < root_dir_sectors f" using lt by (simp add: word_less_nat_alt)
  let ?b = "root_sector img f d i"
  have len: "length ?b = 512" by (simp add: root_sector_def sector_deviceD(2) [OF dv])
  have "scan_root16 f d (of_nat i) files = scan_root16 f d (of_nat (Suc i)) (fat_parse_root_dir ?b 16 files)"
    using w V(2,4) sector_deviceD(1) [OF dv]
    by (subst scan_root16.simps) (simp add: root_sector_def add.commute [of 1])
  also have "fat_parse_root_dir ?b 16 files = take 32 (files @ files_from ?b 0)"
    using parse_loop_files [OF len, of 0 files] Suc.prems(2) by (simp add: fat_parse_root_dir_def)
  also have "scan_root16 f d (of_nat (Suc i)) \<dots> = take 32 (take 32 (files @ files_from ?b 0) @ root_files img f d (Suc i))"
    by (rule Suc.hyps(1)) (use Suc.hyps(2) lt in simp_all)
  also have "\<dots> = take 32 (files @ root_files img f d i)"
    unfolding take_take_append using lt by (simp add: root_files_def upt_conv_Cons)
  finally show ?case .
qed

subsection \<open>The search for an entry\<close>

text \<open>A slot that can take an entry, one that the search compares, and the slots before the end of a sector.\<close>

definition open_slot :: "u8 list \<Rightarrow> bool" where
  "open_slot t \<longleftrightarrow> t ! 0 = 0 \<or> t ! 0 = 0xE5"

definition used_slot :: "u8 list \<Rightarrow> bool" where
  "used_slot t \<longleftrightarrow> \<not> open_slot t \<and> t ! 11 \<noteq> 0x0F"

definition shown :: "u8 list \<Rightarrow> nat \<Rightarrow> bool" where
  "shown b k \<longleftrightarrow> k < 16 \<and> (\<forall>j < k. slot b j ! 0 \<noteq> 0)"

definition holds :: "u8 list \<Rightarrow> u8 list \<Rightarrow> nat \<Rightarrow> bool" where
  "holds name b k \<longleftrightarrow> shown b k \<and> used_slot (slot b k) \<and> take 11 (slot b k) = name"

definition vacant :: "u8 list \<Rightarrow> nat \<Rightarrow> bool" where
  "vacant b k \<longleftrightarrow> shown b k \<and> open_slot (slot b k)"

lemma find_entry_unfold:
  assumes "length b = 512" and "k < 16"
  shows "find_entry_loop b name lba 16 (of_nat k) free =
    (let t = slot b k; free' = (case free of None \<Rightarrow> Some (lba, of_nat k * 32) | Some x \<Rightarrow> Some x) in
     if t ! 0 = 0 then Inr free'
     else if t ! 0 = 0xE5 then find_entry_loop b name lba 16 (of_nat (Suc k)) free'
     else if t ! 11 \<noteq> 0x0F \<and> take 11 t = name then Inl (lba, of_nat k * 32)
     else find_entry_loop b name lba 16 (of_nat (Suc k)) free)"
proof -
  have lt: "(of_nat k :: u32) < 16" using assms(2) by (simp add: word_less_nat_alt unat_of_nat_small)
  have nx: "(of_nat k :: u32) + 1 = of_nat (Suc k)" by (simp add: add.commute)
  show ?thesis
    using lt by (subst find_entry_loop.simps)
      (simp add: slot_word [OF assms(2)] slot_fields [OF assms] nx Let_def del: of_nat_Suc)
qed

text \<open>What the search of one sector returns from slot \<open>k\<close> on.\<close>

definition search_result :: "u8 list \<Rightarrow> u8 list \<Rightarrow> u32 \<Rightarrow> nat \<Rightarrow> (u32 \<times> u32) option \<Rightarrow>
    (u32 \<times> u32) + (u32 \<times> u32) option \<Rightarrow> bool" where
  "search_result name b lba k free r \<longleftrightarrow>
     (case r of
        Inl pos \<Rightarrow> \<exists>j. pos = (lba, of_nat j * 32) \<and> holds name b j \<and> (\<forall>i. k \<le> i \<and> i < j \<longrightarrow> \<not> holds name b i)
      | Inr free' \<Rightarrow> (\<forall>i \<ge> k. \<not> holds name b i) \<and>
          (case free of
             Some x \<Rightarrow> free' = Some x
           | None \<Rightarrow> (free' = None \<and> (\<forall>i \<ge> k. \<not> vacant b i)) \<or>
               (\<exists>j. free' = Some (lba, of_nat j * 32) \<and> vacant b j)))"

lemma search_result_next:
  assumes "search_result name b lba (Suc k) free r" and "\<not> holds name b k" and "free = None \<Longrightarrow> \<not> vacant b k"
  shows "search_result name b lba k free r"
proof -
  have le: "k \<le> i \<longleftrightarrow> i = k \<or> Suc k \<le> i" for i by auto
  show ?thesis using assms unfolding search_result_def le
    by (auto split: sum.splits option.splits)
qed

lemma find_entry_result:
  assumes "length b = 512"
  shows "k \<le> 16 \<Longrightarrow> \<forall>j < k. slot b j ! 0 \<noteq> 0 \<Longrightarrow>
    search_result name b lba k free (find_entry_loop b name lba 16 (of_nat k) free)"
proof (induction "16 - k" arbitrary: k free)
  case 0
  then have k: "k = 16" by simp
  have "\<not> holds name b i" "\<not> vacant b i" if "16 \<le> i" for i using that by (simp_all add: holds_def vacant_def shown_def)
  then show ?case unfolding k by (subst find_entry_loop.simps) (auto simp: search_result_def split: option.splits)
next
  case (Suc n)
  then have k: "k < 16" by simp
  let ?t = "slot b k" and ?free = "case free of None \<Rightarrow> Some (lba, of_nat k * 32) | Some x \<Rightarrow> Some x"
  have shown: "shown b k" using k Suc.prems(2) by (simp add: shown_def)
  have IH: "search_result name b lba (Suc k) fr (find_entry_loop b name lba 16 (of_nat (Suc k)) fr)"
    if "?t ! 0 \<noteq> 0" for fr
  proof (rule Suc.hyps(1))
    show "\<forall>j < Suc k. slot b j ! 0 \<noteq> 0" using Suc.prems(2) that by (simp add: less_Suc_eq)
  qed (use Suc.hyps(2) k in simp_all)
  consider (last) "?t ! 0 = 0" | (deleted) "?t ! 0 = 0xE5" | (found) "used_slot ?t" "take 11 ?t = name"
    | (other) "\<not> open_slot ?t" "\<not> holds name b k"
    using shown by (auto simp: used_slot_def open_slot_def holds_def)
  then show ?case
  proof cases
    case last
    have "\<not> holds name b i" if "k \<le> i" for i
    proof
      assume "holds name b i"
      then show False using last that
        by (cases "i = k") (auto simp: holds_def shown_def used_slot_def open_slot_def)
    qed
    moreover have "vacant b k" using shown last by (simp add: vacant_def open_slot_def)
    ultimately show ?thesis
      unfolding find_entry_unfold [OF assms k] using last by (auto simp: search_result_def split: option.splits)
  next
    case deleted
    have nh: "\<not> holds name b k" using deleted by (simp add: holds_def used_slot_def open_slot_def)
    have "vacant b k" using shown deleted by (simp add: vacant_def open_slot_def)
    then have "search_result name b lba k free r" if sr: "search_result name b lba (Suc k) ?free r" for r
    proof -
      have "search_result name b lba k ?free r" by (rule search_result_next [OF sr nh]) (simp split: option.splits)
      with \<open>vacant b k\<close> show ?thesis by (cases free; cases r) (auto simp: search_result_def)
    qed
    with IH [of ?free] deleted show ?thesis unfolding find_entry_unfold [OF assms k] by (simp add: Let_def del: of_nat_Suc)
  next
    case found
    then have "holds name b k" using shown by (simp add: holds_def)
    with found show ?thesis
      unfolding find_entry_unfold [OF assms k] by (auto simp: search_result_def used_slot_def open_slot_def Let_def)
  next
    case other
    then have "\<not> (?t ! 11 \<noteq> 0x0F \<and> take 11 ?t = name)" using shown by (auto simp: holds_def used_slot_def)
    then show ?thesis
      using search_result_next [OF IH other(2), of free] other(1) shown
      unfolding find_entry_unfold [OF assms k] by (auto simp: Let_def open_slot_def vacant_def simp del: of_nat_Suc)
  qed
qed

text \<open>The search over the sectors of the directory, from sector \<open>i\<close> on.\<close>

definition root_result :: "(nat \<Rightarrow> u8 list) \<Rightarrow> u32 \<Rightarrow> nat \<Rightarrow> u8 list \<Rightarrow> nat \<Rightarrow> (u32 \<times> u32) option \<Rightarrow>
    (u32 \<times> u32) + (u32 \<times> u32) option \<Rightarrow> bool" where
  "root_result sec base n name i free r \<longleftrightarrow>
     (case r of
        Inl pos \<Rightarrow> \<exists>k j. pos = (base + of_nat k, of_nat j * 32) \<and> k < n \<and> holds name (sec k) j \<and>
          (\<forall>j' < j. \<not> holds name (sec k) j') \<and> (\<forall>k'. i \<le> k' \<and> k' < k \<longrightarrow> (\<forall>j'. \<not> holds name (sec k') j'))
      | Inr free' \<Rightarrow> (\<forall>k. i \<le> k \<and> k < n \<longrightarrow> (\<forall>j. \<not> holds name (sec k) j)) \<and>
          (case free of
             Some x \<Rightarrow> free' = Some x
           | None \<Rightarrow> (free' = None \<and> (\<forall>k. i \<le> k \<and> k < n \<longrightarrow> (\<forall>j. \<not> vacant (sec k) j))) \<or>
               (\<exists>k j. free' = Some (base + of_nat k, of_nat j * 32) \<and> k < n \<and> vacant (sec k) j)))"

lemma root_result_step:
  assumes i: "i < n" and r: "search_result name (sec i) (base + of_nat i) 0 free r"
    and rest: "\<And>free'. r = Inr free' \<Longrightarrow> root_result sec base n name (Suc i) free' (R free')"
  shows "root_result sec base n name i free (case r of Inl pos \<Rightarrow> Inl pos | Inr free' \<Rightarrow> R free')"
proof (cases r)
  case (Inl pos)
  then obtain j where "pos = (base + of_nat i, of_nat j * 32)" "holds name (sec i) j" "\<forall>j' < j. \<not> holds name (sec i) j'"
    using r by (auto simp: search_result_def)
  with Inl i show ?thesis by (simp add: root_result_def) (rule exI [of _ i], simp, rule exI [of _ j], auto)
next
  case (Inr free')
  have le: "(i \<le> k \<and> k < m) \<longleftrightarrow> (k = i \<and> i < m) \<or> (Suc i \<le> k \<and> k < m)" for k m by auto
  have no: "\<forall>j. \<not> holds name (sec i) j" using r Inr by (simp add: search_result_def)
  show ?thesis
  proof (cases free)
    case (Some x)
    then have "free' = Some x" using r Inr by (simp add: search_result_def)
    with Some Inr rest [OF Inr] no show ?thesis by (auto simp: root_result_def le split: sum.splits)
  next
    case None
    then consider "free' = None" "\<forall>j. \<not> vacant (sec i) j"
      | j where "free' = Some (base + of_nat i, of_nat j * 32)" "vacant (sec i) j"
      using r Inr by (auto simp: search_result_def)
    then show ?thesis
    proof cases
      case 1
      with None Inr rest [OF Inr] no show ?thesis by (auto simp: root_result_def le split: sum.splits)
    next
      case 2
      with None Inr rest [OF Inr] no i show ?thesis by (auto simp: root_result_def le split: sum.splits)
    qed
  qed
qed

lemma find_root_result:
  assumes dv: "sector_device dv img" and vol: "volume f dv"
  shows "i \<le> unat (root_dir_sectors f) \<Longrightarrow>
    root_result (root_sector img f d) (root_dir_sector f) (unat (root_dir_sectors f)) name i free
      (find_root_loop f d name (of_nat i) free)"
proof (induction "unat (root_dir_sectors f) - i" arbitrary: i free)
  case 0
  then have "i = unat (root_dir_sectors f)" by simp
  then show ?case by (subst find_root_loop.simps) (auto simp: root_result_def split: option.splits)
next
  case (Suc n)
  note V = volumeD [OF vol]
  have lt: "i < unat (root_dir_sectors f)" using Suc.hyps(2) by simp
  have "unat (of_nat i :: u32) = i" by (rule unat_of_nat_small) (use less_trans [OF lt unat_u32] in simp)
  then have w: "(of_nat i :: u32) < root_dir_sectors f" using lt by (simp add: word_less_nat_alt)
  let ?b = "root_sector img f d i"
  have len: "length ?b = 512" by (simp add: root_sector_def sector_deviceD(2) [OF dv])
  have nx: "(of_nat i :: u32) + 1 = of_nat (Suc i)" by (simp add: add.commute)
  have "find_root_loop f d name (of_nat i) free =
      (case find_entry_loop ?b name (root_dir_sector f + of_nat i) 16 0 free of
         Inl pos \<Rightarrow> Inl pos | Inr free \<Rightarrow> find_root_loop f d name (of_nat (Suc i)) free)"
    using w V(2,4) sector_deviceD(1) [OF dv]
    by (subst find_root_loop.simps) (simp add: root_sector_def nx [symmetric] Let_def del: of_nat_Suc cong: sum.case_cong)
  moreover have "search_result name ?b (root_dir_sector f + of_nat i) 0 free
      (find_entry_loop ?b name (root_dir_sector f + of_nat i) 16 0 free)"
    using find_entry_result [OF len, of 0] by simp
  moreover have "root_result (root_sector img f d) (root_dir_sector f) (unat (root_dir_sectors f)) name (Suc i) fr
      (find_root_loop f d name (of_nat (Suc i)) fr)" for fr
    by (rule Suc.hyps(1)) (use Suc.hyps(2) lt in simp_all)
  ultimately show ?case using root_result_step [OF lt] by simp
qed

text \<open>The slot that an entry goes to: slot \<open>j\<close> of sector \<open>k\<close>, and no slot before it has the name.\<close>

definition placed :: "(nat \<Rightarrow> u8 list) \<Rightarrow> nat \<Rightarrow> u8 list \<Rightarrow> bool \<Rightarrow> nat \<Rightarrow> nat \<Rightarrow> bool" where
  "placed sec n name old k j \<longleftrightarrow> k < n \<and> (if old then holds name (sec k) j else vacant (sec k) j) \<and>
     (\<forall>j' < j. \<not> holds name (sec k) j') \<and> (\<forall>k' < k. \<forall>j'. \<not> holds name (sec k') j')"

definition directory_full :: "(nat \<Rightarrow> u8 list) \<Rightarrow> nat \<Rightarrow> u8 list \<Rightarrow> bool" where
  "directory_full sec n name \<longleftrightarrow> (\<forall>k < n. \<forall>j < 16. \<not> holds name (sec k) j \<and> \<not> vacant (sec k) j)"

lemma find_root_entry_spec:
  fixes d :: 'd
  assumes "sector_device dv img" and "volume f dv"
  defines "sec \<equiv> root_sector img f d" and "n \<equiv> unat (root_dir_sectors f)"
  shows "fat_find_root_entry f d name = (-1, 0, 0) \<and> directory_full sec n name \<or>
    (\<exists>old k j. fat_find_root_entry f d name = (if old then 1 else 0, root_dir_sector f + of_nat k, of_nat j * 32) \<and>
       placed sec n name old k j)"
proof -
  have "root_result sec (root_dir_sector f) n name 0 None (find_root_loop f d name 0 None)"
    using find_root_result [OF assms(1,2), of 0] by (simp add: sec_def n_def)
  then consider (found) k j where "find_root_loop f d name 0 None = Inl (root_dir_sector f + of_nat k, of_nat j * 32)"
      "placed sec n name True k j"
    | (free) k j where "find_root_loop f d name 0 None = Inr (Some (root_dir_sector f + of_nat k, of_nat j * 32))"
      "placed sec n name False k j"
    | (full) "find_root_loop f d name 0 None = Inr None" "directory_full sec n name"
    unfolding root_result_def placed_def directory_full_def by (auto split: sum.splits)
  then show ?thesis
  proof cases
    case found
    then show ?thesis by (intro disjI2 exI [of _ True] exI [of _ k] exI [of _ j]) (simp add: fat_find_root_entry_def)
  next
    case free
    then show ?thesis by (intro disjI2 exI [of _ False] exI [of _ k] exI [of _ j]) (simp add: fat_find_root_entry_def)
  next
    case full
    then show ?thesis by (simp add: fat_find_root_entry_def)
  qed
qed

end
