(* ===== verification/Fat_Volume.thy ===== *)
theory Fat_Volume
  imports Fat_Directory
begin

text \<open>
  A FAT16 volume as a whole (\<^verbatim>\<open>src/fs/fat.c\<close>): the invariant of a volume, what storing a
  directory entry changes, and the theorem that \<^verbatim>\<open>fat_write_file\<close> changes what
  \<^verbatim>\<open>fat_read_file\<close> delivers for its own file and for no other.
\<close>

subsection \<open>Names\<close>

definition short :: "u8 list \<Rightarrow> u8 list \<Rightarrow> bool" where
  "short base ext \<longleftrightarrow> list_all name_byte base \<and> base \<noteq> [] \<and> hd base \<noteq> 0xE5 \<and> length base \<le> 8 \<and>
     list_all name_byte ext \<and> length ext \<le> 3"

abbreviation packed :: "u8 list \<Rightarrow> u8 list \<Rightarrow> u8 list" where
  "packed base ext \<equiv> padded 8 base @ padded 3 ext"

definition plain :: "u8 list \<Rightarrow> bool" where
  "plain n \<longleftrightarrow> (\<exists>base ext. short base ext \<and> n = packed base ext)"

lemma upcase_dot: "upcase c = 46 \<longleftrightarrow> c = 46"
proof (cases "97 \<le> c \<and> c \<le> 122")
  case True
  then have "uint (c - 32) = uint c - 32" by (auto simp: word_le_def uint_sub_if')
  moreover have "c - 97 + 65 = c - 32" by simp
  moreover have "uint c - 32 \<noteq> 46" "uint c \<noteq> 46" using True by (auto simp: word_le_def)
  ultimately show ?thesis using True by (auto simp: upcase_def word_uint_eq_iff)
qed (auto simp: upcase_def)

lemma takeWhile_base:
  assumes "list_all name_byte base"
  shows "takeWhile (\<lambda>c. c \<noteq> 46) (map upcase (short_name base ext)) = map upcase base"
    and "drop (length base) (map upcase (short_name base ext)) = (if ext = [] then [] else 46 # map upcase ext)"
proof -
  have "\<forall>c \<in> set (map upcase base). c \<noteq> 46" using assms by (auto simp: list_all_iff name_byte_def upcase_dot)
  moreover have dot: "upcase 46 = 46" by (simp add: upcase_dot)
  ultimately show "takeWhile (\<lambda>c. c \<noteq> 46) (map upcase (short_name base ext)) = map upcase base"
    by (simp add: short_name_def takeWhile_append2 del: set_map)
  from dot show "drop (length base) (map upcase (short_name base ext)) = (if ext = [] then [] else 46 # map upcase ext)"
    by (simp add: short_name_def)
qed

lemma short_name_inject:
  assumes "short base ext" and "short base' ext'"
    and eq: "map upcase (short_name base ext) = map upcase (short_name base' ext')"
  shows "packed base ext = packed base' ext'"
proof -
  have b: "list_all name_byte base" "list_all name_byte base'" using assms(1,2) by (simp_all add: short_def)
  have base: "map upcase base = map upcase base'"
    using takeWhile_base(1) [OF b(1), of ext] takeWhile_base(1) [OF b(2), of ext'] eq by simp
  then have "length base = length base'" by (metis length_map)
  then have "map upcase ext = map upcase ext'"
    using takeWhile_base(2) [OF b(1), of ext] takeWhile_base(2) [OF b(2), of ext'] eq by (auto split: if_splits)
  with base show ?thesis by (metis length_map padded_def)
qed

subsection \<open>Storing an entry\<close>

lemma entry_bytes_other:
  assumes "length fn = 11" and "off + 32 \<le> length b" and "m < off \<or> off + 32 \<le> m"
  shows "fat_entry_bytes fn cl sz off b ! m = b ! m"
  using assms by (auto simp: fat_entry_bytes_def put32_def put16_nth nth_append)

lemma entry_bytes_slots:
  fixes cl sz :: u32
  assumes fn: "length fn = 11" and b: "length b = 512" and j: "j < 16"
  defines "b' \<equiv> fat_entry_bytes fn cl sz (32 * j) b"
  shows "length b' = 512" "i < 16 \<Longrightarrow> i \<noteq> j \<Longrightarrow> slot b' i = slot b i"
    "take 11 (slot b' j) = fn" "slot b' j ! 11 = 0x20" "get16 (slot b' j) 20 = 0"
    "get16 (slot b' j) 26 = ucast cl" "get32 (slot b' j) 28 = sz"
proof -
  have off: "32 * j + 32 \<le> length b" using b j by simp
  note E = entry_bytes_fields [OF fn off, of cl sz, folded b'_def]
  show len: "length b' = 512" using E(1) b by simp
  show "take 11 (slot b' j) = fn" "slot b' j ! 11 = 0x20" "get16 (slot b' j) 20 = 0"
    "get16 (slot b' j) 26 = ucast cl" "get32 (slot b' j) 28 = sz"
    using E(2-6) slot_fields [OF len j] by simp_all
  show "slot b' i = slot b i" if "i < 16" "i \<noteq> j"
  proof (rule nth_equalityI)
    show "length (slot b' i) = length (slot b i)" using length_slot [OF _ that(1)] len b by simp
    fix m assume "m < length (slot b' i)"
    then have m: "m < 32" using length_slot [OF len that(1)] by simp
    have "32 * i + m < 32 * j \<or> 32 * j + 32 \<le> 32 * i + m" using m that(2) by linarith
    then have "b' ! (32 * i + m) = b ! (32 * i + m)" unfolding b'_def by (rule entry_bytes_other [OF fn off])
    then show "slot b' i ! m = slot b i ! m" using m that(1) len b by (simp add: slot_def)
  qed
qed

lemma packed_slot:
  assumes s: "short base ext" and t: "length t = 32" "take 11 t = packed base ext"
  shows "fi_name (info t) = map upcase (short_name base ext)" "\<not> open_slot t"
proof -
  have split: "t = padded 8 base @ padded 3 ext @ drop 11 t" using append_take_drop_id [of 11 t] t(2) by simp
  have S: "list_all name_byte base" "list_all name_byte ext" "length base \<le> 8" "length ext \<le> 3" "base \<noteq> []" "hd base \<noteq> 0xE5"
    using s by (simp_all add: short_def)
  have "entry_name t = map upcase (short_name base ext)"
    by (subst split) (rule entry_name_padded [OF S(1-4)])
  moreover have "length (short_name base ext) \<le> 12" using S(3,4) by (simp add: short_name_def)
  ultimately show "fi_name (info t) = map upcase (short_name base ext)"
    by (simp add: info_def short_name_nonzero [OF S(1,2)] del: takeWhile_eq_all_conv)
  have "t ! 0 = upcase (hd base)"
    by (subst split) (use S(5) in \<open>cases base; simp add: padded_def\<close>)
  then show "\<not> open_slot t" using upcase_first [of "hd base"] S(1,5,6) by (cases base) (auto simp: open_slot_def)
qed

subsection \<open>The invariant of a volume\<close>

definition start :: "u8 list \<Rightarrow> u32" where
  "start t = ucast (get16 t 26)"

text \<open>The clusters of the file that an entry describes.\<close>

definition chain_of :: "'d fat_fs \<Rightarrow> 'd \<Rightarrow> u8 list \<Rightarrow> u32 list \<Rightarrow> bool" where
  "chain_of f d t ys \<longleftrightarrow> (\<forall>y \<in> set ys. valid f y) \<and>
     (if ys = [] then start t < 2 else cluster_chain (link_of f d) (start t) ys)"

definition entry_ok :: "'d fat_fs \<Rightarrow> 'd \<Rightarrow> u8 list \<Rightarrow> bool" where
  "entry_ok f d t \<longleftrightarrow> (is_file t \<longrightarrow> plain (take 11 t)) \<and> get16 t 20 = 0 \<and>
     (\<exists>ys. chain_of f d t ys \<and> unat (get32 t 28) \<le> 512 * unat (sectors_per_cluster f) * length ys)"

text \<open>After the entry that ends a sector no other follows in it.\<close>

definition clean :: "u8 list \<Rightarrow> bool" where
  "clean b \<longleftrightarrow> (\<forall>j < 15. slot b j ! 0 = 0 \<longrightarrow> slot b (Suc j) ! 0 = 0)"

definition places :: "'d fat_fs \<Rightarrow> (nat \<times> nat) set" where
  "places f = {..<unat (root_dir_sectors f)} \<times> {..<16}"

definition entry :: "('d \<Rightarrow> u32 \<Rightarrow> u8 list) \<Rightarrow> 'd fat_fs \<Rightarrow> 'd \<Rightarrow> nat \<times> nat \<Rightarrow> u8 list" where
  "entry img f d p = slot (root_sector img f d (fst p)) (snd p)"

text \<open>
  A sound volume: the entries of the directory have short names and describe chains that end
  and are long enough for the size, and no cluster belongs to two entries.
\<close>

definition fs_ok :: "('d \<Rightarrow> u32 \<Rightarrow> u8 list) \<Rightarrow> 'd fat_fs \<Rightarrow> 'd \<Rightarrow> bool" where
  "fs_ok img f d \<longleftrightarrow> (\<forall>k < unat (root_dir_sectors f). clean (root_sector img f d k)) \<and>
     (\<forall>p \<in> places f. used_slot (entry img f d p) \<longrightarrow> entry_ok f d (entry img f d p)) \<and>
     (\<forall>p \<in> places f. \<forall>q \<in> places f. \<forall>ys zs. used_slot (entry img f d p) \<and> used_slot (entry img f d q) \<and> p \<noteq> q \<and>
        chain_of f d (entry img f d p) ys \<and> chain_of f d (entry img f d q) zs \<longrightarrow> set ys \<inter> set zs = {})"

lemma start_small: "start t < 0x10000"
proof -
  have "unat (start t) \<le> unat (get16 t 26)" by (simp add: start_def unsigned_ucast_eq)
  also have "\<dots> < 2 ^ LENGTH(16)" by (rule unsigned_less)
  finally show ?thesis by (simp add: word_less_nat_alt)
qed

lemma cluster_chain_unique: "cluster_chain link c xs \<Longrightarrow> cluster_chain link c ys \<Longrightarrow> xs = ys"
proof (induction xs arbitrary: c ys)
  case Nil
  then show ?case by (cases ys) (auto simp: data_cluster_def)
next
  case (Cons x xs)
  then show ?case by (cases ys) (auto simp: data_cluster_def)
qed

lemma chain_of_unique:
  assumes "chain_of f d t xs" and "chain_of f d t ys"
  shows "xs = ys"
proof -
  have False if "start t < 2" "cluster_chain (link_of f d) (start t) zs" "zs \<noteq> []" for zs
    using that by (cases zs) (auto simp: data_cluster_def)
  then show ?thesis using assms cluster_chain_unique [of "link_of f d" "start t" xs ys]
    by (auto simp: chain_of_def split: if_splits)
qed

lemma cluster_chain_link:
  "cluster_chain link c xs \<Longrightarrow> x \<in> set xs \<Longrightarrow> link x \<noteq> 0 \<and> (data_cluster (link x) \<longrightarrow> link x \<in> set xs)"
proof (induction xs arbitrary: c)
  case (Cons y xs)
  then show ?case
    by (cases xs) (auto simp: data_cluster_def)
qed simp

lemma cluster_chain_on_chain:
  assumes "cluster_chain link c xs" and "on_chain link c x"
  shows "x \<in> set xs"
  using assms(2)
proof (induction rule: on_chain.induct)
  case chain_start
  then show ?case using assms(1) by (cases xs) (auto simp: data_cluster_def)
next
  case (chain_step x)
  then show ?case using cluster_chain_link [OF assms(1)] by simp
qed

lemma chain_ofD:
  assumes "chain_of f d t ys"
  shows "y \<in> set ys \<Longrightarrow> valid f y \<and> link_of f d y \<noteq> 0" "on_chain (link_of f d) (start t) x \<Longrightarrow> x \<in> set ys"
proof -
  show "valid f y \<and> link_of f d y \<noteq> 0" if "y \<in> set ys"
    using assms that cluster_chain_link [of "link_of f d" "start t" ys y] by (auto simp: chain_of_def split: if_splits)
  show "x \<in> set ys" if "on_chain (link_of f d) (start t) x"
  proof (cases "ys = []")
    case True
    then have "\<not> data_cluster (start t)" using assms by (auto simp: chain_of_def data_cluster_def)
    then show ?thesis using that on_chain_none by blast
  next
    case False
    then show ?thesis using assms that cluster_chain_on_chain by (auto simp: chain_of_def)
  qed
qed

text \<open>A cluster that keeps its link and its contents.\<close>

definition kept :: "('d \<Rightarrow> u32 \<Rightarrow> u8 list) \<Rightarrow> 'd fat_fs \<Rightarrow> 'd \<Rightarrow> 'd \<Rightarrow> u32 \<Rightarrow> bool" where
  "kept img f d d' y \<longleftrightarrow> link_of f d' y = link_of f d y \<and> cluster_bytes img f d' y = cluster_bytes img f d y"

lemma chain_of_kept:
  assumes "chain_of f d t ys" and "\<forall>y \<in> set ys. kept img f d d' y"
  shows "chain_of f d' t ys" "chain_bytes img f d' ys = chain_bytes img f d ys"
proof -
  show "chain_of f d' t ys"
    using assms cluster_chain_cong [of ys "link_of f d'" "link_of f d" "start t"]
    by (auto simp: chain_of_def kept_def split: if_splits)
  show "chain_bytes img f d' ys = chain_bytes img f d ys"
    unfolding chain_bytes_def using assms(2) by (intro arg_cong [where f = concat] map_cong) (auto simp: kept_def)
qed

subsection \<open>The effect of a write\<close>

lemma root_lba:
  assumes "volume f dv" and "k < unat (root_dir_sectors f)"
  shows "unat (root_dir_sector f + of_nat k) = unat (root_dir_sector f) + k"
    and "root_dir_sector f \<le> root_dir_sector f + of_nat k" "root_dir_sector f + of_nat k < first_data_sector f"
proof -
  have b: "unat (root_dir_sector f) + k < unat (first_data_sector f)" using assms by (simp add: volume_def)
  have lt: "unat (root_dir_sector f) + k < 2 ^ 32" by (rule less_trans [OF b]) simp
  then have k: "unat (of_nat k :: u32) = k" by (intro unat_of_nat_small) simp
  show u: "unat (root_dir_sector f + of_nat k) = unat (root_dir_sector f) + k"
    using lt k by (subst unat_plus_no_wrap) simp_all
  show "root_dir_sector f \<le> root_dir_sector f + of_nat k" "root_dir_sector f + of_nat k < first_data_sector f"
    using u b by (simp_all add: word_le_nat_alt word_less_nat_alt)
qed

lemma kept_sectors:
  assumes dv: "sector_device dv img" and vol: "volume f dv" and y: "valid f y"
    and same: "\<And>lba. lba < root_dir_sector f \<or> first_data_sector f \<le> lba \<Longrightarrow> img d' lba = img d lba"
  shows "kept img f d d' y"
proof -
  have "link_of f d' y = link_of f d y" using y same by (intro link_frame [OF dv vol]) (simp_all add: valid_def)
  moreover have "cluster_bytes img f d' y = cluster_bytes img f d y"
    unfolding cluster_bytes_def
  proof (rule cluster_from_cong)
    fix lba assume "lba \<in> sectors_from f y 0"
    then have "\<not> lba < first_data_sector f" using sectors_of_data(1) [OF vol, of "[y]"] y by (simp add: sectors_of_def)
    then show "img d' lba = img d lba" using same by (simp add: not_less)
  qed
  ultimately show ?thesis by (simp add: kept_def)
qed

definition replaces :: "('d \<Rightarrow> u32 \<Rightarrow> u8 list) \<Rightarrow> 'd fat_fs \<Rightarrow> 'd \<Rightarrow> 'd \<Rightarrow> nat \<times> nat \<Rightarrow> u8 list \<Rightarrow> u32 \<Rightarrow> u32 \<Rightarrow> bool" where
  "replaces img f d d' p fn cl sz \<longleftrightarrow> (\<forall>q \<in> places f. q \<noteq> p \<longrightarrow> entry img f d' q = entry img f d q) \<and>
     take 11 (entry img f d' p) = fn \<and> entry img f d' p ! 11 = 0x20 \<and> get16 (entry img f d' p) 20 = 0 \<and>
     get16 (entry img f d' p) 26 = ucast cl \<and> get32 (entry img f d' p) 28 = sz"

lemma store_entry:
  assumes dv: "sector_device dv img" and vol: "volume f dv" and p: "(k, j) \<in> places f" and fn: "length fn = 11"
  defines "lba \<equiv> root_dir_sector f + of_nat k"
  shows "\<exists>d'. write_sector (dev f) lba (fat_entry_bytes fn cl sz (32 * j) (img d lba)) d = (True, d') \<and>
    replaces img f d d' (k, j) fn cl sz \<and> (\<forall>y. valid f y \<longrightarrow> kept img f d d' y)"
proof -
  have k: "k < unat (root_dir_sectors f)" and j: "j < 16" using p by (simp_all add: places_def)
  note E = entry_bytes_slots [OF fn sector_deviceD(2) [OF dv, of d lba] j, where cl = cl and sz = sz]
  let ?b = "fat_entry_bytes fn cl sz (32 * j) (img d lba)"
  obtain d' where d': "write_sector (Some dv) lba ?b d = (True, d')" "img d' = (img d)(lba := ?b)"
    using sector_deviceD(3) [OF dv E(1)] by blast
  note R = root_lba [OF vol k, folded lba_def]
  have "kept img f d d' y" if "valid f y" for y
    using R(2,3) d'(2) by (intro kept_sectors [OF dv vol that]) auto
  moreover have "replaces img f d d' (k, j) fn cl sz"
  proof -
    have "entry img f d' q = entry img f d q" if "q \<in> places f" "q \<noteq> (k, j)" for q
    proof (cases "fst q = k")
      case True
      then show ?thesis using that d'(2) E(2) [of "snd q"]
        by (cases q) (auto simp: entry_def root_sector_def lba_def places_def)
    next
      case False
      have "fst q < unat (root_dir_sectors f)" using that(1) by (auto simp: places_def)
      then have "root_dir_sector f + of_nat (fst q) \<noteq> lba" using root_lba(1) [OF vol] R(1) False by (metis add_left_cancel)
      then show ?thesis using d'(2) by (simp add: entry_def root_sector_def)
    qed
    moreover have "entry img f d' (k, j) = slot ?b j" using d'(2) by (simp add: entry_def root_sector_def lba_def)
    ultimately show ?thesis using E(3-7) by (simp add: replaces_def)
  qed
  ultimately show ?thesis using d'(1) volumeD(4) [OF vol] by auto
qed

lemma release_chain:
  assumes dv: "sector_device dv img" and vol: "volume f dv" and old: "old \<Longrightarrow> chain_of f d t ys"
  shows "\<exists>d1. (if old \<and> 2 \<le> start t then fat_free_chain f (start t) d else Some d) = Some d1 \<and>
    (\<forall>lba \<ge> root_dir_sector f. img d1 lba = img d lba) \<and>
    (\<forall>y. valid f y \<longrightarrow> link_of f d1 y = link_of f d y \<or> old \<and> y \<in> set ys \<and> link_of f d1 y = 0)"
proof (cases "old \<and> 2 \<le> start t")
  case True
  obtain d1 where d1: "fat_free_chain f (start t) d = Some d1"
    "\<forall>x. data_cluster x \<longrightarrow> link_of f d1 x = (if on_chain (link_of f d) (start t) x then 0 else link_of f d x)"
    "\<forall>lba. (\<forall>x. on_chain (link_of f d) (start t) x \<longrightarrow> lba \<noteq> entry_sector f x) \<longrightarrow> img d1 lba = img d lba"
    using free_chain_frees [OF dv volumeD(1) [OF vol]] by blast
  note C = chain_ofD [OF old]
  have "img d1 lba = img d lba" if lba: "root_dir_sector f \<le> lba" for lba
  proof -
    have "lba \<noteq> entry_sector f x" if "on_chain (link_of f d) (start t) x" for x
    proof -
      have "x < total_clusters f" using C that True by (auto simp: valid_def)
      then have "unat (entry_sector f x) < unat (root_dir_sector f)" by (rule unat_entry_sector(2) [OF vol])
      then show ?thesis using lba by (auto simp: word_le_nat_alt)
    qed
    then show ?thesis using d1(3) by blast
  qed
  moreover have "link_of f d1 y = link_of f d y \<or> old \<and> y \<in> set ys \<and> link_of f d1 y = 0" if "valid f y" for y
    using d1(2) validD(2) [OF vol that] C True by auto
  ultimately show ?thesis using True d1(1) by auto
qed auto

lemma store_effect:
  assumes dv: "sector_device dv img" and vol: "volume f dv" and sz: "unat sz \<le> length buffer" "unat sz < 2 ^ 31"
  shows "(sz \<noteq> 0 \<and> (\<forall>a. \<not> free_run f d a (clusters_for f sz)) \<and> store_contents f buffer sz d = Some (None, d)) \<or>
    (\<exists>first xs d'. store_contents f buffer sz d = Some (Some first, d') \<and> first < 0x10000 \<and>
       (\<forall>x \<in> set xs. valid f x \<and> link_of f d x = 0) \<and>
       (if xs = [] then first = 0 else cluster_chain (link_of f d') first xs) \<and>
       unat sz \<le> 512 * unat (sectors_per_cluster f) * length xs \<and>
       take (unat sz) (chain_bytes img f d' xs) = take (unat sz) buffer \<and>
       (\<forall>y. valid f y \<and> y \<notin> set xs \<longrightarrow> kept img f d d' y) \<and>
       (\<forall>lba. root_dir_sector f \<le> lba \<and> lba < first_data_sector f \<longrightarrow> img d' lba = img d lba))"
proof (cases "sz = 0")
  case True
  then show ?thesis
    by (intro disjI2 exI [of _ 0] exI [of _ "[]"] exI [of _ d]) (simp add: store_contents_def kept_def)
next
  case False
  then have pos: "0 < unat sz" by (simp add: unat_gt_0)
  have big: "unat sz + 2 ^ 17 < 2 ^ 32" using sz(2) by simp
  from store_contents_spec [OF dv vol pos sz(1) big, of d] False show ?thesis
  proof (elim disjE exE conjE)
    fix first xs d' assume st: "store_contents f buffer sz d = Some (Some first, d')" "first < 0x10000"
      and "stores img f (take (unat sz) buffer) first d xs d'"
    note S = this(3) [unfolded stores_def]
    have kept: "kept img f d d' y" if y: "valid f y" "y \<notin> set xs" for y
    proof -
      have "link_of f d' y = link_of f d y" using S y by (simp add: valid_def)
      moreover have "cluster_bytes img f d' y = cluster_bytes img f d y"
        unfolding cluster_bytes_def
      proof (rule cluster_from_cong)
        fix lba assume lba: "lba \<in> sectors_from f y 0"
        have "lba \<notin> sectors_of f xs" using sectors_from_inject [OF vol y(1) _ lba, of _ 0] S y(2) by (auto simp: sectors_of_def)
        moreover have "root_dir_sector f \<le> lba" using sectors_of_data(2) [OF vol, of "[y]" lba] y(1) lba by (simp add: sectors_of_def)
        ultimately show "img d' lba = img d lba" using S by blast
      qed
      ultimately show ?thesis by (simp add: kept_def)
    qed
    have "lba \<notin> sectors_of f xs" if "lba < first_data_sector f" for lba
      using sectors_of_data(1) [OF vol, of xs lba] S that by blast
    then have dir: "img d' lba = img d lba" if "root_dir_sector f \<le> lba" "lba < first_data_sector f" for lba using S that by blast
    have fit: "unat sz \<le> 512 * unat (sectors_per_cluster f) * length xs" "take (unat sz) (chain_bytes img f d' xs) = take (unat sz) buffer"
    proof -
      have "length (take (unat sz) buffer) = unat sz" using sz(1) by simp
      then show "unat sz \<le> 512 * unat (sectors_per_cluster f) * length xs"
        "take (unat sz) (chain_bytes img f d' xs) = take (unat sz) buffer"
        using S by (simp_all only: length_chain_bytes [OF dv])
    qed
    show ?thesis
      using st S kept dir fit by (intro disjI2 exI [of _ first] exI [of _ xs] exI [of _ d']) (simp add: st)
  qed simp_all
qed

lemma refresh_root:
  assumes "sector_device dv img" and "volume (fat s) dv"
  shows "fat_refresh_root_cache s = Some (s\<lparr>fat_files := take 32 (root_files img (fat s) (disk s) 0)\<rparr>)"
  using scan_root16_files [OF assms, of 0 "[]" "disk s"] volumeD(3) [OF assms(2)]
  by (simp add: fat_refresh_root_cache_def Let_def)

lemma short_packed: "short base ext \<Longrightarrow> length (packed base ext) = 11"
  by (simp add: short_def padded_def)

lemma write_file_full:
  assumes "sector_device dv img" and "volume (fat s) dv" and "short base ext"
    and "fat_find_root_entry (fat s) (disk s) (packed base ext) = (-1, 0, 0)"
  shows "fat_write_file (Some (short_name base ext)) (Some buffer) sz s = Some (-1, s)"
  using assms fat_format_short [of base ext] volumeD(3) [OF assms(2)]
  by (auto simp: fat_write_file_def short_def Let_def)

lemma write_file_unfold:
  assumes dv: "sector_device dv img" and vol: "volume (fat s) dv" and sh: "short base ext" and j: "j < 16"
    and found: "fat_find_root_entry (fat s) (disk s) (packed base ext) = (if old then 1 else 0, lba, of_nat j * 32)"
  defines "t \<equiv> slot (img (disk s) lba) j"
  shows "fat_write_file (Some (short_name base ext)) (Some buffer) sz s =
    Option.bind (if old \<and> 2 \<le> start t then fat_free_chain (fat s) (start t) (disk s) else Some (disk s))
      (\<lambda>d. Option.bind (store_contents (fat s) buffer sz d) (\<lambda>(first, d).
         case first of
           None \<Rightarrow> Some (-1, s\<lparr>disk := d\<rparr>)
         | Some first \<Rightarrow>
             (case write_sector (dev (fat s)) lba
                     (fat_entry_bytes (packed base ext) first sz (32 * j) (img (disk s) lba)) d of
                (ok, d) \<Rightarrow>
                  if \<not> ok then Some (-1, s\<lparr>disk := d\<rparr>)
                  else map_option (\<lambda>s. (0, s)) (fat_refresh_root_cache (s\<lparr>disk := d\<rparr>)))))"
proof -
  obtain g where g: "dev_write dv = Some g" using dv by (auto simp: sector_device_def)
  note V = volumeD [OF vol] and L = sector_deviceD(2) [OF dv, of "disk s" lba]
  have st: "ucast (get16 (img (disk s) lba) (unat (of_nat j * 32 :: u32) + 26)) = start t"
    unfolding slot_word(1) [OF j] using slot_fields(3) [OF L j, of 26] get16_drop [of "32 * j" "img (disk s) lba" 26] L j by (simp add: t_def start_def)
  have fmt: "fat_format_name (short_name base ext) = Some (packed base ext)" using sh fat_format_short by (simp add: short_def)
  show ?thesis
    using V(3,4) g found unfolding slot_word(1) [OF j, symmetric]
    by (simp add: fat_write_file_def fmt st sector_deviceD(1) [OF dv] Let_def)
qed

text \<open>
  A write ends in one of three ways: there is no place for the entry; there is no run of free
  clusters; or the entry at the place \<open>p\<close> is replaced, its chain \<open>xs\<close> holds the bytes, and
  clusters of other entries are kept.
\<close>

definition written :: "('d \<Rightarrow> u32 \<Rightarrow> u8 list) \<Rightarrow> 'd fat_fs \<Rightarrow> 'd \<Rightarrow> 'd \<Rightarrow> bool \<Rightarrow> nat \<times> nat \<Rightarrow> u8 list \<Rightarrow> u32 \<Rightarrow> u8 list \<Rightarrow>
    u32 list \<Rightarrow> bool" where
  "written img f d d' old p fn sz bs xs \<longleftrightarrow> p \<in> places f \<and>
     placed (root_sector img f d) (unat (root_dir_sectors f)) fn old (fst p) (snd p) \<and>
     (\<exists>cl. replaces img f d d' p fn cl sz) \<and> chain_of f d' (entry img f d' p) xs \<and>
     unat sz \<le> 512 * unat (sectors_per_cluster f) * length xs \<and> take (unat sz) (chain_bytes img f d' xs) = bs \<and>
     (\<forall>y ys. valid f y \<and> link_of f d y \<noteq> 0 \<and> (old \<longrightarrow> chain_of f d (entry img f d p) ys \<and> y \<notin> set ys) \<longrightarrow>
        kept img f d d' y \<and> y \<notin> set xs)"

lemma placed_place:
  "placed (root_sector img f d) (unat (root_dir_sectors f)) fn old k j \<Longrightarrow> (k, j) \<in> places f"
  by (auto simp: placed_def holds_def vacant_def shown_def places_def split: if_splits)

lemma holds_used: "placed sec n fn True k j \<Longrightarrow> used_slot (slot (sec k) j)"
  by (simp add: placed_def holds_def)

lemma fs_okD:
  assumes "fs_ok img f d" and "p \<in> places f" and "used_slot (entry img f d p)"
  shows "entry_ok f d (entry img f d p)"
    and "q \<in> places f \<Longrightarrow> used_slot (entry img f d q) \<Longrightarrow> p \<noteq> q \<Longrightarrow> chain_of f d (entry img f d p) ys \<Longrightarrow>
      chain_of f d (entry img f d q) zs \<Longrightarrow> set ys \<inter> set zs = {}"
  using assms unfolding fs_ok_def by blast+

lemma ucast16_small: "(x :: u32) < 0x10000 \<Longrightarrow> ucast (ucast x :: u16) = x"
  by (simp add: word_unat_eq_iff word_less_nat_alt unsigned_ucast_eq unsigned_take_bit_eq take_bit_nat_eq_self)

lemma free_run_mono:
  assumes "volume f dv" and "free_run f d a n" and "\<And>y. valid f y \<Longrightarrow> link_of f d y = 0 \<Longrightarrow> link_of f d1 y = 0"
  shows "free_run f d1 a n"
proof -
  have "free_at f d1 c" if "a \<le> c \<and> c < a + n" for c
  proof -
    have T: "unat (total_clusters f) \<le> 65525" using assms(1) by (simp add: volume_def)
    have c: "2 \<le> c" "c < unat (total_clusters f)" using assms(2) that by (auto simp: free_run_def)
    then have "unat (of_nat c :: u32) = c" using T by (intro unat_of_nat_small) simp
    then have "valid f (of_nat c)" using c by (simp add: valid_def word_le_nat_alt word_less_nat_alt)
    then show ?thesis using assms(2,3) that by (simp add: free_run_def free_at_def)
  qed
  then show ?thesis using assms(2) by (simp add: free_run_def)
qed

lemma write_file_effect:
  assumes dv: "sector_device dv img" and vol: "volume f dv" and f: "fat s = f" and d: "disk s = d"
    and ok: "fs_ok img f d" and sh: "short base ext" and sz: "unat sz \<le> length buffer" "unat sz < 2 ^ 31"
  defines "res \<equiv> fat_write_file (Some (short_name base ext)) (Some buffer) sz s" and "fn \<equiv> packed base ext"
  shows "(res = Some (-1, s) \<and> directory_full (root_sector img f d) (unat (root_dir_sectors f)) fn) \<or>
    (\<exists>d1. res = Some (-1, s\<lparr>disk := d1\<rparr>) \<and> sz \<noteq> 0 \<and> (\<forall>a. \<not> free_run f d a (clusters_for f sz))) \<or>
    (\<exists>d' old p xs. res = Some (0, s\<lparr>disk := d', fat_files := take 32 (root_files img f d' 0)\<rparr>) \<and>
       written img f d d' old p fn sz (take (unat sz) buffer) xs)"
proof -
  consider (full) "fat_find_root_entry f d fn = (-1, 0, 0)" "directory_full (root_sector img f d) (unat (root_dir_sectors f)) fn"
    | (place) old k j where "fat_find_root_entry f d fn = (if old then 1 else 0, root_dir_sector f + of_nat k, of_nat j * 32)"
      "placed (root_sector img f d) (unat (root_dir_sectors f)) fn old k j"
    using find_root_entry_spec [OF dv vol, of d fn] by blast
  then show ?thesis
  proof cases
    case full
    then show ?thesis using write_file_full [OF dv _ sh] vol f d by (simp add: res_def fn_def)
  next
    case place
    let ?p = "(k, j)" and ?lba = "root_dir_sector f + of_nat k" and ?t = "entry img f d (k, j)"
    have p: "?p \<in> places f" using placed_place [OF place(2)] .
    then have k: "k < unat (root_dir_sectors f)" and j: "j < 16" by (simp_all add: places_def)
    have t: "?t = slot (img d ?lba) j" by (simp add: entry_def root_sector_def)
    have used: "used_slot ?t" if old using holds_used place(2) that by (simp add: entry_def)
    obtain ys where ys: "old \<Longrightarrow> chain_of f d ?t ys"
      using fs_okD(1) [OF ok p] used by (cases old) (auto simp: entry_ok_def)
    obtain d1 where d1: "(if old \<and> 2 \<le> start ?t then fat_free_chain f (start ?t) d else Some d) = Some d1"
      "\<forall>lba \<ge> root_dir_sector f. img d1 lba = img d lba"
      "\<forall>y. valid f y \<longrightarrow> link_of f d1 y = link_of f d y \<or> old \<and> y \<in> set ys \<and> link_of f d1 y = 0"
      using release_chain [OF dv vol ys] by blast
    have "res = Option.bind (if old \<and> 2 \<le> start ?t then fat_free_chain f (start ?t) d else Some d)
      (\<lambda>d. Option.bind (store_contents f buffer sz d) (\<lambda>(first, d).
         case first of
           None \<Rightarrow> Some (-1, s\<lparr>disk := d\<rparr>)
         | Some first \<Rightarrow>
             (case write_sector (dev f) ?lba (fat_entry_bytes fn first sz (32 * j) (img (disk s) ?lba)) d of
                (ok, d) \<Rightarrow>
                  if \<not> ok then Some (-1, s\<lparr>disk := d\<rparr>)
                  else map_option (\<lambda>s. (0, s)) (fat_refresh_root_cache (s\<lparr>disk := d\<rparr>)))))"
      unfolding t unfolding res_def fn_def f [symmetric] d [symmetric]
      by (rule write_file_unfold [OF dv _ sh j]) (use vol f d place(1) in \<open>simp_all add: fn_def\<close>)
    then have res: "res = Option.bind (store_contents f buffer sz d1) (\<lambda>(first, d).
         case first of
           None \<Rightarrow> Some (-1, s\<lparr>disk := d\<rparr>)
         | Some first \<Rightarrow>
             (case write_sector (dev f) ?lba (fat_entry_bytes fn first sz (32 * j) (img (disk s) ?lba)) d of
                (ok, d) \<Rightarrow>
                  if \<not> ok then Some (-1, s\<lparr>disk := d\<rparr>)
                  else map_option (\<lambda>s. (0, s)) (fat_refresh_root_cache (s\<lparr>disk := d\<rparr>))))"
      by (simp only: d1(1) bind.simps)
    from store_effect [OF dv vol sz, of d1] show ?thesis
    proof (elim disjE exE conjE)
      assume none: "\<forall>a. \<not> free_run f d1 a (clusters_for f sz)" "store_contents f buffer sz d1 = Some (None, d1)" and "sz \<noteq> 0"
      have "\<not> free_run f d a (clusters_for f sz)" for a
        using free_run_mono [OF vol, of d a "clusters_for f sz" d1] none(1) d1(3) by metis
      then show ?thesis using res none(2) \<open>sz \<noteq> 0\<close> by auto
    next
      fix first xs d2
      assume st: "store_contents f buffer sz d1 = Some (Some first, d2)" "first < 0x10000"
        and xs: "\<forall>x \<in> set xs. valid f x \<and> link_of f d1 x = 0" "if xs = [] then first = 0 else cluster_chain (link_of f d2) first xs"
        and fit: "unat sz \<le> 512 * unat (sectors_per_cluster f) * length xs"
          "take (unat sz) (chain_bytes img f d2 xs) = take (unat sz) buffer"
        and kept2: "\<forall>y. valid f y \<and> y \<notin> set xs \<longrightarrow> kept img f d1 d2 y"
        and dir: "\<forall>lba. root_dir_sector f \<le> lba \<and> lba < first_data_sector f \<longrightarrow> img d2 lba = img d1 lba"
      have same: "img d2 (root_dir_sector f + of_nat i) = img d (root_dir_sector f + of_nat i)" if "i < unat (root_dir_sectors f)" for i
        using root_lba(2,3) [OF vol that] dir d1(2) by simp
      have fn: "length fn = 11" using short_packed [OF sh] by (simp add: fn_def)
      obtain d' where d': "write_sector (dev f) ?lba (fat_entry_bytes fn first sz (32 * j) (img d2 ?lba)) d2 = (True, d')"
        "replaces img f d2 d' ?p fn first sz" "\<forall>y. valid f y \<longrightarrow> kept img f d2 d' y"
        using store_entry [OF dv vol p fn] by blast
      have "res = Some (0, s\<lparr>disk := d', fat_files := take 32 (root_files img f d' 0)\<rparr>)"
        unfolding res using st(1) d'(1) same [OF k] f d refresh_root [OF dv, of "s\<lparr>disk := d'\<rparr>"] vol by simp
      moreover have "written img f d d' old ?p fn sz (take (unat sz) buffer) xs"
        unfolding written_def
      proof (intro conjI allI impI)
        show "?p \<in> places f" "placed (root_sector img f d) (unat (root_dir_sectors f)) fn old (fst ?p) (snd ?p)"
          using p place(2) by simp_all
        have "entry img f d2 q = entry img f d q" if "q \<in> places f" for q
          using same that by (auto simp: entry_def root_sector_def places_def)
        then have "replaces img f d d' ?p fn first sz" using d'(2) by (simp add: replaces_def)
        then show "\<exists>cl. replaces img f d d' ?p fn cl sz" by blast
        have start: "start (entry img f d' ?p) = first" using d'(2) st(2) ucast16_small by (simp add: replaces_def start_def)
        have "chain_of f d2 (entry img f d' ?p) xs" using xs start by (auto simp: chain_of_def)
        moreover have "\<forall>x \<in> set xs. kept img f d2 d' x" using d'(3) xs(1) by blast
        ultimately show "chain_of f d' (entry img f d' ?p) xs" "take (unat sz) (chain_bytes img f d' xs) = take (unat sz) buffer"
          using chain_of_kept fit(2) by metis+
        show "unat sz \<le> 512 * unat (sectors_per_cluster f) * length xs" by (rule fit(1))
        fix y zs
        assume y: "valid f y \<and> link_of f d y \<noteq> 0 \<and> (old \<longrightarrow> chain_of f d (entry img f d ?p) zs \<and> y \<notin> set zs)"
        have "old \<Longrightarrow> y \<notin> set ys" using y chain_of_unique [OF ys, of zs] by blast
        then have link: "link_of f d1 y = link_of f d y" using d1(3) y by auto
        then show nx: "y \<notin> set xs" using xs(1) y by auto
        have "cluster_bytes img f d1 y = cluster_bytes img f d y"
          unfolding cluster_bytes_def using d1(2) sectors_of_data(2) [OF vol, of "[y]"] y
          by (intro cluster_from_cong) (simp add: sectors_of_def not_less)
        then show "kept img f d d' y" using link kept2 d'(3) y nx by (simp add: kept_def)
      qed
      ultimately show ?thesis by blast
    qed
  qed
qed

subsection \<open>The invariant is kept\<close>

lemma entry_length: "sector_device dv img \<Longrightarrow> p \<in> places f \<Longrightarrow> length (entry img f d p) = 32"
  by (auto simp: entry_def root_sector_def places_def sector_deviceD(2) [of dv img] intro!: length_slot)

lemma writtenD:
  assumes "written img f d d' old p fn sz bs xs"
  shows "p \<in> places f" "shown (root_sector img f d (fst p)) (snd p)"
    "old \<Longrightarrow> used_slot (entry img f d p) \<and> take 11 (entry img f d p) = fn" "\<not> old \<Longrightarrow> open_slot (entry img f d p)"
    "q \<in> places f \<Longrightarrow> q \<noteq> p \<Longrightarrow> entry img f d' q = entry img f d q"
    "take 11 (entry img f d' p) = fn" "entry img f d' p ! 11 = 0x20" "get16 (entry img f d' p) 20 = 0"
    "get32 (entry img f d' p) 28 = sz" "chain_of f d' (entry img f d' p) xs"
  using assms by (auto simp: written_def replaces_def placed_def holds_def vacant_def entry_def split: if_splits)

lemma written_entry:
  assumes dv: "sector_device dv img" and w: "written img f d d' old p (packed base ext) sz bs xs" and sh: "short base ext"
  shows "used_slot (entry img f d' p)" "is_file (entry img f d' p)" "entry_ok f d' (entry img f d' p)"
    "fi_name (info (entry img f d' p)) = map upcase (short_name base ext)"
proof -
  note W = writtenD [OF w]
  note P = packed_slot [OF sh entry_length [OF dv W(1)] W(6)]
  show "used_slot (entry img f d' p)" using P(2) W(7) by (simp add: used_slot_def)
  show "is_file (entry img f d' p)" using P(2) W(7) by (simp add: is_file_def open_slot_def)
  show "entry_ok f d' (entry img f d' p)"
    using W(6,8,9,10) sh w unfolding entry_ok_def plain_def written_def by metis
  show "fi_name (info (entry img f d' p)) = map upcase (short_name base ext)" by (rule P(1))
qed

lemma written_other_chain:
  assumes ok: "fs_ok img f d" and w: "written img f d d' old p fn sz bs xs"
    and q: "q \<in> places f" "q \<noteq> p" "used_slot (entry img f d q)" and ys: "chain_of f d (entry img f d q) ys"
  shows "chain_of f d' (entry img f d' q) ys" "chain_bytes img f d' ys = chain_bytes img f d ys" "set ys \<inter> set xs = {}"
proof -
  note W = writtenD [OF w]
  have kept: "kept img f d d' y \<and> y \<notin> set xs" if y: "y \<in> set ys" for y
  proof (cases old)
    case True
    then obtain zs where "chain_of f d (entry img f d p) zs" using fs_okD(1) [OF ok W(1)] W(3) by (auto simp: entry_ok_def)
    moreover from this have "y \<notin> set zs" using fs_okD(2) [OF ok q(1,3) W(1) _ q(2) ys] W(3) True y by blast
    ultimately show ?thesis using w chain_ofD(1) [OF ys y] unfolding written_def by metis
  next
    case False
    then show ?thesis using w chain_ofD(1) [OF ys y] unfolding written_def by metis
  qed
  then show "chain_of f d' (entry img f d' q) ys" "chain_bytes img f d' ys = chain_bytes img f d ys" "set ys \<inter> set xs = {}"
    using chain_of_kept [OF ys, of img d'] W(5) [OF q(1,2)] by auto
qed

lemma written_clean:
  assumes dv: "sector_device dv img" and ok: "fs_ok img f d" and w: "written img f d d' old p (packed base ext) sz bs xs"
    and sh: "short base ext" and k: "k < unat (root_dir_sectors f)"
  shows "clean (root_sector img f d' k)"
  unfolding clean_def
proof (intro allI impI)
  note W = writtenD [OF w]
  fix j :: nat
  assume j: "j < 15" and zero: "slot (root_sector img f d' k) j ! 0 = 0"
  have pl: "(k, j) \<in> places f" "(k, Suc j) \<in> places f" using k j by (simp_all add: places_def)
  have "(k, j) \<noteq> p" using zero written_entry(1) [OF dv w sh] by (auto simp: entry_def used_slot_def open_slot_def)
  then have old: "slot (root_sector img f d k) j ! 0 = 0" using W(5) [OF pl(1)] zero by (simp add: entry_def)
  then have "(k, Suc j) \<noteq> p" using W(2) by (auto simp: shown_def)
  then have "slot (root_sector img f d' k) (Suc j) = slot (root_sector img f d k) (Suc j)" using W(5) [OF pl(2)] by (simp add: entry_def)
  then show "slot (root_sector img f d' k) (Suc j) ! 0 = 0" using ok old k j by (simp add: fs_ok_def clean_def)
qed

lemma written_fs_ok:
  assumes dv: "sector_device dv img" and ok: "fs_ok img f d" and w: "written img f d d' old p (packed base ext) sz bs xs"
    and sh: "short base ext"
  shows "fs_ok img f d'"
proof -
  note W = writtenD [OF w] and O = written_other_chain [OF ok w]
  have chain: "\<exists>ys. chain_of f d (entry img f d q) ys \<and> unat (get32 (entry img f d q) 28) \<le> 512 * unat (sectors_per_cluster f) * length ys"
    if "q \<in> places f" "used_slot (entry img f d q)" for q
    using fs_okD(1) [OF ok that] by (simp add: entry_ok_def)
  have entries: "entry_ok f d' (entry img f d' q)" if q: "q \<in> places f" "used_slot (entry img f d' q)" for q
  proof (cases "q = p")
    case True
    then show ?thesis using written_entry(3) [OF dv w sh] by simp
  next
    case False
    note same = W(5) [OF q(1) False]
    from q(2) same obtain ys where "chain_of f d (entry img f d q) ys"
      "unat (get32 (entry img f d q) 28) \<le> 512 * unat (sectors_per_cluster f) * length ys" using chain [OF q(1)] by auto
    then have "chain_of f d' (entry img f d q) ys \<and> unat (get32 (entry img f d q) 28) \<le> 512 * unat (sectors_per_cluster f) * length ys"
      using O(1) [OF q(1) False] q(2) same by simp
    then show ?thesis using fs_okD(1) [OF ok q(1)] q(2) same unfolding entry_ok_def by auto
  qed
  have own: "ys = xs" if "chain_of f d' (entry img f d' p) ys" for ys using chain_of_unique [OF that W(10)] .
  have other: "chain_of f d (entry img f d q) ys" if q: "q \<in> places f" "q \<noteq> p" "used_slot (entry img f d' q)"
    and ys: "chain_of f d' (entry img f d' q) ys" for q ys
  proof -
    have u: "used_slot (entry img f d q)" using q(3) W(5) [OF q(1,2)] by simp
    obtain zs where zs: "chain_of f d (entry img f d q) zs" using chain [OF q(1) u] by blast
    then have "zs = ys" using chain_of_unique [OF O(1) [OF q(1,2) u zs] ys] by simp
    with zs show ?thesis by simp
  qed
  have "set ys \<inter> set zs = {}" if q: "q \<in> places f" "r \<in> places f" "used_slot (entry img f d' q)" "used_slot (entry img f d' r)" "q \<noteq> r"
    and c: "chain_of f d' (entry img f d' q) ys" "chain_of f d' (entry img f d' r) zs" for q r ys zs
  proof -
    have u: "x \<in> places f \<Longrightarrow> x \<noteq> p \<Longrightarrow> used_slot (entry img f d' x) \<Longrightarrow> used_slot (entry img f d x)" for x using W(5) by simp
    consider "q = p" "r \<noteq> p" | "q \<noteq> p" "r = p" | "q \<noteq> p" "r \<noteq> p" using q(5) by blast
    then show ?thesis
    proof cases
      case 1
      then show ?thesis using own c(1) O(3) [OF q(2) 1(2) u [OF q(2) 1(2) q(4)] other [OF q(2) 1(2) q(4) c(2)]] by auto
    next
      case 2
      then show ?thesis using own c(2) O(3) [OF q(1) 2(1) u [OF q(1) 2(1) q(3)] other [OF q(1) 2(1) q(3) c(1)]] by auto
    next
      case 3
      show ?thesis
        using fs_okD(2) [OF ok q(1) u [OF q(1) 3(1) q(3)] q(2) u [OF q(2) 3(2) q(4)] q(5)
          other [OF q(1) 3(1) q(3) c(1)] other [OF q(2) 3(2) q(4) c(2)]] .
    qed
  qed
  then show ?thesis using written_clean [OF dv ok w sh] entries unfolding fs_ok_def by blast
qed

end
