(* ===== verification/Fat_Round_Trip.thy ===== *)
theory Fat_Round_Trip
  imports Fat_Volume
begin

text \<open>
  Reading after writing on a FAT16 volume (\<^verbatim>\<open>src/fs/fat.c\<close>): how a write changes the listing
  of the root directory and what \<^verbatim>\<open>fat_read_file\<close> delivers afterwards.
\<close>

subsection \<open>The listing after a write\<close>

lemma files_from_entry:
  assumes "fi \<in> set (files_from b 0)"
  shows "\<exists>j. fi = info (slot b j) \<and> is_file (slot b j) \<and> slot b j ! 0 \<noteq> 0 \<and> shown b j"
proof -
  define xs where "xs = takeWhile (\<lambda>t. t ! 0 \<noteq> 0) (map (slot b) [0..<16])"
  obtain t where t: "t \<in> set xs" "is_file t" "fi = info t" using assms by (auto simp: files_from_def xs_def)
  then obtain j where j: "j < length xs" "xs ! j = t" by (auto simp: in_set_conv_nth)
  have len: "length xs \<le> 16" using length_takeWhile_le [of _ "map (slot b) [0..<16]"] unfolding xs_def by simp
  have nth: "xs ! i = slot b i" if "i < length xs" for i
    using that len takeWhile_nth [OF that [unfolded xs_def], folded xs_def] by simp
  have nz: "slot b i ! 0 \<noteq> 0" if "i \<le> j" for i
  proof -
    have i: "i < length xs" using that j(1) by simp
    then have "xs ! i \<in> set xs" by (rule nth_mem)
    then have "xs ! i ! 0 \<noteq> 0" using set_takeWhileD [of "xs ! i" "\<lambda>t. t ! 0 \<noteq> 0"] unfolding xs_def by blast
    then show ?thesis using nth [OF i] by simp
  qed
  then have "shown b j" using j(1) len by (simp add: shown_def)
  with t j nth [OF j(1)] nz [of j] show ?thesis by (intro exI [of _ j]) simp
qed

lemma root_files_entry:
  assumes "fi \<in> set (root_files img f d i)"
  shows "\<exists>q \<in> places f. fi = info (entry img f d q) \<and> is_file (entry img f d q) \<and> used_slot (entry img f d q)"
proof -
  obtain k where k: "k < unat (root_dir_sectors f)" "fi \<in> set (files_from (root_sector img f d k) 0)"
    using assms by (auto simp: root_files_def)
  from files_from_entry [OF k(2)] obtain j where j: "j < 16" "fi = info (slot (root_sector img f d k) j)"
    "is_file (slot (root_sector img f d k) j)" "slot (root_sector img f d k) j ! 0 \<noteq> 0" by (auto simp: shown_def)
  then have "used_slot (slot (root_sector img f d k) j)" by (simp add: used_slot_def open_slot_def is_file_def)
  with j k(1) show ?thesis by (intro bexI [of _ "(k, j)"]) (simp_all add: entry_def places_def)
qed

text \<open>The files listed before slot \<open>j\<close> of sector \<open>k\<close>.\<close>

definition listed_before :: "(nat \<Rightarrow> u8 list) \<Rightarrow> nat \<Rightarrow> nat \<Rightarrow> fat_file_info list" where
  "listed_before sec k j =
     concat (map (\<lambda>i. files_from (sec i) 0) [0..<k]) @ map info (filter is_file (map (slot (sec k)) [0..<j]))"

lemma files_from_split:
  assumes "shown b j"
  shows "files_from b 0 = map info (filter is_file (map (slot b) [0..<j])) @ files_from b j"
proof -
  have "[0..<16] = [0..<j] @ [j..<16]" using assms upt_add_eq_append [of 0 j "16 - j"] by (simp add: shown_def)
  then have "map (slot b) [0..<16] = map (slot b) [0..<j] @ map (slot b) [j..<16]" by (simp only: map_append)
  moreover have "\<forall>t \<in> set (map (slot b) [0..<j]). t ! 0 \<noteq> 0" using assms by (auto simp: shown_def)
  then have "takeWhile (\<lambda>t. t ! 0 \<noteq> 0) (map (slot b) [0..<j] @ map (slot b) [j..<16]) =
      map (slot b) [0..<j] @ takeWhile (\<lambda>t. t ! 0 \<noteq> 0) (map (slot b) [j..<16])" by (intro takeWhile_append2) blast
  ultimately show ?thesis by (simp only: files_from_def filter_append map_append)
qed

lemma root_files_split:
  assumes k: "k < unat (root_dir_sectors f)" and j: "shown (root_sector img f d k) j"
  shows "root_files img f d 0 =
    listed_before (root_sector img f d) k j @ files_from (root_sector img f d k) j @ root_files img f d (Suc k)"
proof -
  have "[0..<unat (root_dir_sectors f)] = [0..<k] @ k # [Suc k..<unat (root_dir_sectors f)]"
    using k upt_add_eq_append [of 0 k "unat (root_dir_sectors f) - k"] by (simp add: upt_conv_Cons)
  then show ?thesis by (simp add: root_files_def listed_before_def files_from_split [OF j])
qed

lemma files_from_cong:
  "(\<And>i. k \<le> i \<Longrightarrow> i < 16 \<Longrightarrow> slot b' i = slot b i) \<Longrightarrow> files_from b' k = files_from b k"
proof -
  assume "\<And>i. k \<le> i \<Longrightarrow> i < 16 \<Longrightarrow> slot b' i = slot b i"
  then have "map (slot b') [k..<16] = map (slot b) [k..<16]" by simp
  then show ?thesis by (simp only: files_from_def)
qed

lemma listed_before_entry:
  assumes "fi \<in> set (listed_before sec k j)" and "shown (sec k) j"
  shows "\<exists>i m. fi = info (slot (sec i) m) \<and> is_file (slot (sec i) m) \<and> slot (sec i) m ! 0 \<noteq> 0 \<and> shown (sec i) m \<and>
    (i < k \<or> i = k \<and> m < j)"
proof -
  consider i where "i < k" "fi \<in> set (files_from (sec i) 0)"
    | m where "m < j" "fi = info (slot (sec k) m)" "is_file (slot (sec k) m)"
    using assms(1) by (auto simp: listed_before_def)
  then show ?thesis
  proof cases
    case 1
    then show ?thesis using files_from_entry [OF 1(2)] by blast
  next
    case 2
    then show ?thesis using assms(2) by (intro exI [of _ k] exI [of _ m]) (simp add: shown_def)
  qed
qed

lemma listed_before_fresh:
  assumes dv: "sector_device dv img" and ok: "fs_ok img f d" and sh: "short base ext"
    and w: "written img f d d' old (k, j) (packed base ext) sz bs xs"
    and fi: "fi \<in> set (listed_before (root_sector img f d) k j)"
  shows "fi_name fi \<noteq> map upcase (short_name base ext)"
proof
  let ?sec = "root_sector img f d"
  note W = writtenD [OF w, unfolded fst_conv snd_conv]
  assume nm: "fi_name fi = map upcase (short_name base ext)"
  obtain i m where m: "fi = info (slot (?sec i) m)" "is_file (slot (?sec i) m)" "slot (?sec i) m ! 0 \<noteq> 0" "shown (?sec i) m"
    "i < k \<or> i = k \<and> m < j" using listed_before_entry [OF fi W(2)] by blast
  have q: "(i, m) \<in> places f" using m(4,5) W(1) by (auto simp: places_def shown_def)
  have used: "used_slot (slot (?sec i) m)" using m(2,3) by (simp add: used_slot_def open_slot_def is_file_def)
  then obtain b e where be: "short b e" "take 11 (slot (?sec i) m) = packed b e"
    using fs_okD(1) [OF ok q] m(2) by (auto simp: entry_ok_def entry_def plain_def)
  have "fi_name fi = map upcase (short_name b e)"
    using packed_slot(1) [OF be(1) _ be(2)] entry_length [OF dv q, of d] m(1) by (simp add: entry_def)
  then have "packed b e = packed base ext" using short_name_inject [OF be(1) sh] nm by simp
  then have "holds (packed base ext) (?sec i) m" using m(4) used be(2) by (simp add: holds_def)
  then show False using w m(5) by (auto simp: written_def placed_def)
qed

lemma written_listing:
  assumes dv: "sector_device dv img" and ok: "fs_ok img f d" and sh: "short base ext"
    and w: "written img f d d' old p (packed base ext) sz bs xs"
  shows "\<exists>A M B. root_files img f d 0 = A @ M @ B \<and> root_files img f d' 0 = A @ info (entry img f d' p) # B \<and>
    length M \<le> 1 \<and> (\<forall>fi \<in> set M. fi_name fi = map upcase (short_name base ext)) \<and>
    (\<forall>fi \<in> set A. fi_name fi \<noteq> map upcase (short_name base ext))"
proof -
  obtain k j where p: "p = (k, j)" by fastforce
  note W = writtenD [OF w, unfolded p fst_conv snd_conv]
  let ?sec = "root_sector img f d" and ?sec' = "root_sector img f d'"
  have k: "k < unat (root_dir_sectors f)" and j: "j < 16" using W(1) by (simp_all add: places_def)
  have same: "slot (?sec' i) m = slot (?sec i) m" if "i < unat (root_dir_sectors f)" "m < 16" "(i, m) \<noteq> (k, j)" for i m
    using W(5) [of "(i, m)"] that by (simp add: places_def entry_def)
  have shown': "shown (?sec' k) j" using W(2) same k j by (simp add: shown_def)
  have sectors: "files_from (?sec' i) m = files_from (?sec i) m" if "i < unat (root_dir_sectors f)" "i \<noteq> k \<or> j < m" for i m
    using that same by (intro files_from_cong) auto
  have before: "listed_before ?sec' k j = listed_before ?sec k j"
  proof -
    have "map (slot (?sec' k)) [0..<j] = map (slot (?sec k)) [0..<j]" using same k j by simp
    moreover have "map (\<lambda>i. files_from (?sec' i) 0) [0..<k] = map (\<lambda>i. files_from (?sec i) 0) [0..<k]" using sectors k by simp
    ultimately show ?thesis by (simp only: listed_before_def)
  qed
  have after: "root_files img f d' (Suc k) = root_files img f d (Suc k)"
    unfolding root_files_def using sectors by (intro arg_cong [where f = concat] map_cong) auto
  let ?A = "listed_before ?sec k j" and ?R = "root_files img f d (Suc k)" and ?t = "slot (?sec k) j"
  note E = written_entry [OF dv w sh, unfolded p]
  have nz: "slot (?sec' k) j ! 0 \<noteq> 0" using E(1) by (simp add: entry_def used_slot_def open_slot_def)
  have new: "files_from (?sec' k) j = info (entry img f d' (k, j)) # files_from (?sec k) (Suc j)"
    using files_from_step [OF j, of "?sec' k"] E(2) nz sectors [OF k, of "Suc j"] by (simp add: entry_def)
  define M where "M = (if ?t ! 0 \<noteq> 0 \<and> is_file ?t then [info ?t] else [])"
  have "files_from (?sec k) j = M @ files_from (?sec k) (Suc j)"
  proof (cases "?t ! 0 = 0")
    case True
    have "files_from (?sec k) (Suc j) = []"
    proof (cases "Suc j < 16")
      case lt: True
      then have "slot (?sec k) (Suc j) ! 0 = 0" using ok k True by (simp add: fs_ok_def clean_def)
      then show ?thesis using files_from_step [OF lt, of "?sec k"] by simp
    next
      case False
      then show ?thesis by (simp add: files_from_def)
    qed
    then show ?thesis using True files_from_step [OF j, of "?sec k"] by (simp add: M_def)
  next
    case False
    then show ?thesis using files_from_step [OF j, of "?sec k"] by (simp add: M_def)
  qed
  then have "root_files img f d 0 = ?A @ M @ (files_from (?sec k) (Suc j) @ ?R)" using root_files_split [OF k W(2)] by simp
  moreover have "root_files img f d' 0 = ?A @ info (entry img f d' p) # (files_from (?sec k) (Suc j) @ ?R)"
    using root_files_split [OF k shown'] by (simp add: before after new p)
  moreover have "fi_name fi = map upcase (short_name base ext)" if "fi \<in> set M" for fi
  proof -
    have t: "?t ! 0 \<noteq> 0" "is_file ?t" "fi = info ?t" using that by (simp_all add: M_def split: if_splits)
    then have old using W(4) by (auto simp: open_slot_def is_file_def entry_def)
    then show ?thesis using packed_slot(1) [OF sh entry_length [OF dv W(1)]] W(3) t(3) by (simp add: entry_def)
  qed
  moreover have "fi_name fi \<noteq> map upcase (short_name base ext)" if "fi \<in> set ?A" for fi
    using listed_before_fresh [OF dv ok sh w [unfolded p]] that by simp
  moreover have "length M \<le> 1" by (simp add: M_def)
  ultimately show ?thesis by blast
qed

subsection \<open>Reading\<close>

lemma find_file_skip:
  "\<forall>fi \<in> set xs. fi_name fi \<noteq> name \<Longrightarrow> find_file name (xs @ ys) = find_file name ys"
  by (induction xs) (simp_all add: find_file_def)

lemma find_file_replaced:
  assumes "\<forall>fi \<in> set M. fi_name fi = nm" and "fi_name new = nm" and "name \<noteq> nm"
  shows "find_file name (A @ M @ B) = find_file name (A @ new # B)"
proof -
  have "find_file name (M @ B) = find_file name (new # B)"
    using find_file_skip [of M name B] assms by (simp add: find_file_def)
  then show ?thesis by (cases "find (\<lambda>fi. fi_name fi = name) A") (simp_all add: find_file_def find_append)
qed

lemma read_entry_chain:
  assumes dv: "sector_device dv img" and vol: "volume f dv" and ys: "chain_of f d t ys" "get16 t 20 = 0"
    and sz: "unat n \<le> 512 * unat (sectors_per_cluster f) * length ys" "unat n < 2 ^ 31"
  shows "read_chain_loop f d n (first_cluster (info t)) 0 [] = Some (n, take (unat n) (chain_bytes img f d ys))"
proof -
  have fc: "first_cluster (info t) = start t" using ys(2) by (simp add: info_def start_def)
  show ?thesis
  proof (cases "ys = []")
    case True
    then have "n = 0" using sz(1) by (simp add: unat_eq_0)
    then show ?thesis by (subst read_chain_loop.simps) simp
  next
    case False
    have big: "unat n + 512 < 2 ^ 32" using sz(2) by simp
    have "cluster_chain (link_of f d) (start t) ys" using ys(1) False by (simp add: chain_of_def)
    then show ?thesis
      using read_chain_spec [OF dv vol big, of d "start t" ys 0 "[]"] sz(1) False fc by (simp add: length_chain_bytes [OF dv])
  qed
qed

lemma read_file_entry:
  assumes dv: "sector_device dv img" and vol: "volume (fat s) dv" and n: "0 < n" "unat n < 2 ^ 31"
    and found: "find_file name (fat_files s) = Some (info t)"
    and ys: "chain_of (fat s) (disk s) t ys" "get16 t 20 = 0"
    and sz: "unat (get32 t 28) \<le> 512 * unat (sectors_per_cluster (fat s)) * length ys"
  shows "fat_read_file (Some name) True n s = Some (int (min (unat (get32 t 28)) (unat n)),
    take (unat n) (take (unat (get32 t 28)) (chain_bytes img (fat s) (disk s) ys)))"
proof -
  define m where "m = (if get32 t 28 > n then n else get32 t 28)"
  have um: "unat m = min (unat (get32 t 28)) (unat n)" by (auto simp: m_def word_less_nat_alt)
  then have b: "unat m \<le> 512 * unat (sectors_per_cluster (fat s)) * length ys" "unat m < 2 ^ 31" using sz n(2) by simp_all
  have "int (unat m) < int (2 ^ 31)" using b(2) by (simp only: of_nat_less_iff)
  then have "uint m < 2 ^ 31" by simp
  moreover have "- (2 ^ 31) \<le> uint m" by (rule order_trans [OF _ uint_ge_0]) simp
  ultimately have "signed_take_bit 31 (uint m) = uint m" by (intro signed_take_bit_int_eq_self)
  then have "sint m = int (unat m)" by (simp add: sint_uint)
  moreover have "fi_size (info t) = get32 t 28" by (simp add: info_def)
  then have "fat_read_file (Some name) True n s =
      map_option (\<lambda>(n, out). (sint n, out)) (read_chain_loop (fat s) (disk s) m (first_cluster (info t)) 0 [])"
    using n(1) found by (simp add: fat_read_file_def m_def Let_def word_gt_0)
  ultimately show ?thesis using read_entry_chain [OF dv vol ys b] by (simp add: um min.commute)
qed

lemma written_read_own:
  assumes dv: "sector_device dv img" and vol: "volume (fat s) dv" and sh: "short base ext"
    and w: "written img (fat s) d (disk s) old p (packed base ext) sz bs xs" and n: "0 < n" "unat n < 2 ^ 31"
    and files: "fat_files s = A @ info (entry img (fat s) (disk s) p) # B"
    and fresh: "\<forall>fi \<in> set A. fi_name fi \<noteq> map upcase (short_name base ext)"
  shows "fat_read_file (Some (map upcase (short_name base ext))) True n s =
    Some (int (min (unat sz) (unat n)), take (unat n) bs)"
proof -
  note W = writtenD [OF w] and E = written_entry [OF dv w sh]
  have "find_file (map upcase (short_name base ext)) (fat_files s) = Some (info (entry img (fat s) (disk s) p))"
    unfolding files find_file_skip [OF fresh] using E(4) by (simp add: find_file_def)
  moreover have "bs = take (unat sz) (chain_bytes img (fat s) (disk s) xs)"
    "unat sz \<le> 512 * unat (sectors_per_cluster (fat s)) * length xs" using w by (simp_all add: written_def)
  ultimately show ?thesis using read_file_entry [OF dv vol n _ W(10,8)] W(9) by simp
qed

lemma written_read_other:
  assumes dv: "sector_device dv img" and vol: "volume (fat s) dv" and sh: "short base ext" and ok: "fs_ok img (fat s) (disk s)"
    and w: "written img (fat s) (disk s) (disk s') old p (packed base ext) sz bs xs" and n: "0 < n" "unat n < 2 ^ 31"
    and eq: "fat s' = fat s" "find_file name (fat_files s') = find_file name (fat_files s)"
    and files: "set (fat_files s) \<subseteq> set (root_files img (fat s) (disk s) 0)" and name: "name \<noteq> map upcase (short_name base ext)"
  shows "fat_read_file (Some name) True n s' = fat_read_file (Some name) True n s"
proof (cases "find_file name (fat_files s)")
  case None
  then show ?thesis using eq by (simp add: fat_read_file_def)
next
  case (Some fi)
  note W = writtenD [OF w]
  have fi: "fi \<in> set (fat_files s)" "fi_name fi = name" using Some by (auto simp: find_file_def find_Some_iff)
  then obtain q where q: "q \<in> places (fat s)" "fi = info (entry img (fat s) (disk s) q)" "is_file (entry img (fat s) (disk s) q)"
    "used_slot (entry img (fat s) (disk s) q)" 
    using root_files_entry [OF subsetD [OF files fi(1)]] by auto
  have ne: "q \<noteq> p"
  proof
    assume "q = p"
    then have "take 11 (entry img (fat s) (disk s) q) = packed base ext" using W(3,4) q(4) by (auto simp: used_slot_def)
    then show False using packed_slot(1) [OF sh entry_length [OF dv q(1)]] fi(2) q(2) name by simp
  qed
  obtain ys where ys: "chain_of (fat s) (disk s) (entry img (fat s) (disk s) q) ys" "get16 (entry img (fat s) (disk s) q) 20 = 0"
    "unat (get32 (entry img (fat s) (disk s) q) 28) \<le> 512 * unat (sectors_per_cluster (fat s)) * length ys"
    using fs_okD(1) [OF ok q(1,4)] by (auto simp: entry_ok_def)
  note C = written_other_chain [OF ok w q(1) ne q(4) ys(1)] and same = W(5) [OF q(1) ne]
  have found': "find_file name (fat_files s') = Some (info (entry img (fat s) (disk s) q))" using Some eq(2) q(2) by simp
  show ?thesis
    using read_file_entry [OF dv vol n _ ys] Some q(2) C(1,2) same
      read_file_entry [OF dv _ n found' _ ys(2), of ys] vol eq(1) ys(3) by simp
qed

subsection \<open>Properties\<close>


text \<open>An empty volume: every sector reads as zeros.\<close>

definition empty_volume :: "(u32 \<Rightarrow> u8 list) fat_state" where
  "empty_volume = \<lparr>fat = demo_fat, fat_files = [], disk = (\<lambda>_. [])\<rparr>"

lemma empty_sector: "disk_image (\<lambda>_. []) lba = replicate 512 0"
  by (simp add: disk_image_def)

lemma empty_slot: "j < 16 \<Longrightarrow> slot (replicate 512 0) j = replicate 32 0"
  by (simp add: slot_def min_def)

lemma demo_volume: "volume demo_fat ram_disk"
  by (simp add: volume_def demo_fat_ok) (simp add: demo_fat_def)

lemma empty_entry: "p \<in> places demo_fat \<Longrightarrow> entry disk_image demo_fat (\<lambda>_. []) p = replicate 32 0"
  by (auto simp: entry_def root_sector_def places_def empty_sector empty_slot)

lemma empty_fs_ok: "fs_ok disk_image demo_fat (\<lambda>_. [])"
proof -
  have "\<not> used_slot (entry disk_image demo_fat (\<lambda>_. []) p)" if "p \<in> places demo_fat" for p
    unfolding empty_entry [OF that] by (simp add: used_slot_def open_slot_def)
  moreover have "clean (root_sector disk_image demo_fat (\<lambda>_. []) k)" for k
    by (simp add: clean_def root_sector_def empty_sector empty_slot)
  ultimately show ?thesis by (simp add: fs_ok_def)
qed

lemma empty_refresh: "fat_refresh_root_cache empty_volume = Some empty_volume"
proof -
  have "files_from (replicate 512 0) 0 = []" by (subst files_from_step) (simp_all add: empty_slot)
  then have "root_files disk_image demo_fat (\<lambda>_. []) 0 = []" by (simp add: root_files_def root_sector_def empty_sector)
  then show ?thesis using refresh_root [OF ram_disk_ok, of empty_volume] demo_volume by (simp add: empty_volume_def)
qed

lemma empty_free_run: "free_run demo_fat (\<lambda>_. []) 2 1"
proof -
  have "fat_read_fat_entry demo_fat 2 (\<lambda>_. []) = 0"
    by (simp add: read_entry [OF ram_disk_ok demo_fat_ok] entry_index_def empty_sector get16_def)
  then have "free_at demo_fat (\<lambda>_. []) 2" by (simp add: free_at_def)
  then have "free_at demo_fat (\<lambda>_. []) c" if "2 \<le> c \<and> c < 2 + 1" for c using that by (cases "c = 2") auto
  moreover have "unat (total_clusters demo_fat) = 4096" by (simp add: demo_fat_def)
  ultimately show ?thesis unfolding free_run_def by simp
qed


end
