(* ===== verification/Elf.thy ===== *)
theory Elf
  imports Libc
begin

text \<open>
  The ELF loader (\<^verbatim>\<open>src/user/elf.c\<close>) over the byte memory. The image lies in memory at an
  address, 0 for the null pointer, and its headers are read from the current memory each
  time, as in the code, so a segment that overwrites the image would be seen. The byte
  offsets are those of the packed structures. The log message is not modelled.
\<close>

subsection \<open>The code\<close>

abbreviation (input) ELF_MAGIC :: u32 where
  "ELF_MAGIC \<equiv> 0x464C457F"

definition eh_magic :: "memory \<Rightarrow> u32 \<Rightarrow> u32" where
  "eh_magic m img = load32 m img"

definition eh_entry :: "memory \<Rightarrow> u32 \<Rightarrow> u32" where
  "eh_entry m img = load32 m (img + 24)"

definition eh_phoff :: "memory \<Rightarrow> u32 \<Rightarrow> u32" where
  "eh_phoff m img = load32 m (img + 28)"

definition eh_phentsize :: "memory \<Rightarrow> u32 \<Rightarrow> u16" where
  "eh_phentsize m img = load16 m (img + 42)"

definition eh_phnum :: "memory \<Rightarrow> u32 \<Rightarrow> u16" where
  "eh_phnum m img = load16 m (img + 44)"

definition ph_at :: "memory \<Rightarrow> u32 \<Rightarrow> u16 \<Rightarrow> u32" where
  "ph_at m img i = img + eh_phoff m img + ucast i * ucast (eh_phentsize m img)"

text \<open>One iteration: \<open>None\<close> is \<^verbatim>\<open>return -1\<close>.\<close>

definition load_segment :: "u32 \<Rightarrow> u32 \<Rightarrow> u32 \<Rightarrow> memory \<Rightarrow> memory option" where
  "load_segment img sz ph m =
     (if load32 m ph \<noteq> 1 then Some m
      else
        let offset = load32 m (ph + 4); dest = load32 m (ph + 8);
            filesz = load32 m (ph + 16)
        in
        if offset + filesz > sz then None
        else
          let m = memcpy m dest (img + offset) filesz;
              memsz = load32 m (ph + 20); filesz = load32 m (ph + 16)
          in Some (if memsz > filesz then memset m (dest + filesz) 0 (memsz - filesz) else m))"

function elf_load_loop :: "u32 \<Rightarrow> u32 \<Rightarrow> u16 \<Rightarrow> memory \<Rightarrow> bool \<times> memory" where
  "elf_load_loop img sz i m =
     (if i < eh_phnum m img then
        case load_segment img sz (ph_at m img i) m of
          None \<Rightarrow> (False, m)
        | Some m \<Rightarrow> elf_load_loop img sz (i + 1) m
      else (True, m))"
  by pat_completeness auto
termination
proof (relation "measure (\<lambda>(img, sz, i, m). 2 ^ 16 - unat i)")
  fix img sz i m m' assume "(i :: u16) < eh_phnum m img"
  then have "unat (i + 1) = Suc (unat i)" by (rule unat_succ_less)
  moreover have "unat i < 2 ^ 16" using unsigned_less [of i, where ?'a = nat] by simp
  ultimately show "((img, sz, i + 1, m'), img, sz, i, m) \<in> measure (\<lambda>(img, sz, i, m). 2 ^ 16 - unat i)"
    by simp
qed simp

declare elf_load_loop.simps [simp del]

text \<open>The result code, the entry point stored through \<^verbatim>\<open>entry_out\<close>, and the memory.\<close>

definition elf_load :: "u32 \<Rightarrow> u32 \<Rightarrow> memory \<Rightarrow> int \<times> u32 option \<times> memory" where
  "elf_load img sz m =
     (if img = 0 \<or> sz < 52 then (-1, None, m)
      else if eh_magic m img \<noteq> ELF_MAGIC then (-1, None, m)
      else if eh_phoff m img + ucast (eh_phnum m img) * ucast (eh_phentsize m img) > sz then (-1, None, m)
      else
        case elf_load_loop img sz 0 m of
          (ok, m) \<Rightarrow> if ok then (0, Some (eh_entry m img), m) else (-1, None, m))"

subsection \<open>The initial stack of a program\<close>

text \<open>
  The arguments are pushed from the last to the first; \<open>n\<close> of them are left. The result
  lists the addresses of the copies; \<open>None\<close> inside the pair is \<^verbatim>\<open>return -1\<close>, a result \<open>None\<close> an
  argument without terminator.
\<close>

fun push_args :: "u32 \<Rightarrow> u32 \<Rightarrow> u32 \<Rightarrow> nat \<Rightarrow> u32 \<Rightarrow> u32 list \<Rightarrow> memory \<Rightarrow> ((u32 \<times> u32 list) option \<times> memory) option" where
  "push_args stack_top stack_size argv 0 sp ptrs m = Some (Some (sp, ptrs), m)"
| "push_args stack_top stack_size argv (Suc n) sp ptrs m =
     (let arg = (if argv \<noteq> 0 then load32 m (argv + 4 * of_nat n) else 0) in
      Option.bind (if arg \<noteq> 0 then map_option (\<lambda>l. l + 1) (strlen m arg) else Some 1) (\<lambda>len.
        if sp < stack_top - stack_size + len then Some (None, m)
        else
          let sp = sp - len;
              m = (if arg \<noteq> 0 then memcpy m sp arg len else store8 m sp 0)
          in push_args stack_top stack_size argv n sp (sp # ptrs) m))"

fun store_words :: "u32 \<Rightarrow> u32 list \<Rightarrow> memory \<Rightarrow> memory" where
  "store_words a [] m = m"
| "store_words a (w # ws) m = store_words (a + 4) ws (store32 m a w)"

definition elf_prepare_stack ::
  "u32 \<Rightarrow> u32 \<Rightarrow> u32 \<Rightarrow> int \<Rightarrow> bool \<Rightarrow> memory \<Rightarrow> (int \<times> u32 option \<times> memory) option" where
  "elf_prepare_stack stack_top stack_size argv argc out_given m =
     (if stack_top = 0 \<or> stack_size < 64 \<or> \<not> out_given then Some (-1, None, m)
      else if argc < 0 \<or> argc > 16 then Some (-1, None, m)
      else
        Option.bind (push_args stack_top stack_size argv (nat argc) stack_top [] m) (\<lambda>(r, m).
          case r of
            None \<Rightarrow> Some (-1, None, m)
          | Some (sp, ptrs) \<Rightarrow>
              let sp = (sp AND NOT 3) - of_int ((argc + 1) * 4);
                  m = store_words sp (ptrs @ [0]) m;
                  sp = sp - 4
              in Some (0, Some sp, store32 m sp (of_int argc))))"

end
