(* ===== verification/Elf_Properties.thy ===== *)
theory Elf_Properties
  imports Elf
begin

text \<open>
  What loading a well-formed image does to the memory: the reference places the loadable
  segments one after the other, each from the bytes the image had at the start.
\<close>

subsection \<open>The reference\<close>

record segment =
  seg_offset :: nat
  seg_vaddr :: nat
  seg_filesz :: nat
  seg_memsz :: nat

definition seg_of :: "memory \<Rightarrow> u32 \<Rightarrow> nat \<Rightarrow> segment" where
  "seg_of m img i =
     (let ph = ph_at m img (of_nat i) in
      \<lparr>seg_offset = unat (load32 m (ph + 4)), seg_vaddr = unat (load32 m (ph + 8)),
       seg_filesz = unat (load32 m (ph + 16)), seg_memsz = unat (load32 m (ph + 20))\<rparr>)"

definition loadable :: "memory \<Rightarrow> u32 \<Rightarrow> nat \<Rightarrow> bool" where
  "loadable m img i \<longleftrightarrow> load32 m (ph_at m img (of_nat i)) = 1"

definition segments_from :: "memory \<Rightarrow> u32 \<Rightarrow> nat \<Rightarrow> segment list" where
  "segments_from m img i = map (seg_of m img) (filter (loadable m img) [i..<unat (eh_phnum m img)])"

definition place :: "memory \<Rightarrow> nat \<Rightarrow> segment \<Rightarrow> memory \<Rightarrow> memory" where
  "place m0 b g m a =
     (let x = unat a in
      if seg_vaddr g \<le> x \<and> x < seg_vaddr g + seg_filesz g then m0 (ad (b + seg_offset g + (x - seg_vaddr g)))
      else if seg_vaddr g + seg_filesz g \<le> x \<and> x < seg_vaddr g + seg_memsz g then 0
      else m a)"

definition seg_end :: "segment \<Rightarrow> nat" where
  "seg_end g = seg_vaddr g + max (seg_filesz g) (seg_memsz g)"

text \<open>The bytes of a segment lie in the image, and its destination does not meet the image.\<close>

definition seg_ok :: "nat \<Rightarrow> nat \<Rightarrow> segment \<Rightarrow> bool" where
  "seg_ok b sz g \<longleftrightarrow> seg_offset g + seg_filesz g \<le> sz \<and> seg_end g \<le> 2 ^ 32 \<and>
     (seg_end g \<le> b \<or> b + sz \<le> seg_vaddr g)"

definition image_ok :: "memory \<Rightarrow> u32 \<Rightarrow> u32 \<Rightarrow> bool" where
  "image_ok m img sz \<longleftrightarrow> img \<noteq> 0 \<and> 52 \<le> unat sz \<and> unat img + unat sz \<le> 2 ^ 32 \<and> eh_magic m img = 0x464C457F \<and>
     unat (eh_phoff m img) + unat (eh_phnum m img) * unat (eh_phentsize m img) \<le> unat sz \<and>
     32 \<le> unat (eh_phentsize m img) \<and>
     list_all (seg_ok (unat img) (unat sz)) (segments_from m img 0)"

subsection \<open>Memories that agree on the image\<close>

definition agree :: "nat \<Rightarrow> nat \<Rightarrow> memory \<Rightarrow> memory \<Rightarrow> bool" where
  "agree b sz m m' \<longleftrightarrow> (\<forall>x. b \<le> x \<and> x < b + sz \<longrightarrow> m' (ad x) = m (ad x))"

lemma agree_load32:
  assumes "agree (unat b) sz m m'" and "k + 4 \<le> sz"
  shows "load32 m' (b + of_nat k) = load32 m (b + of_nat k)"
proof -
  have "b + of_nat k = ad (unat b + k)" by (simp add: ad_def)
  moreover have "load32 m' (ad (unat b + k)) = load32 m (ad (unat b + k))"
    using assms by (intro load32_cong) (auto simp: agree_def)
  ultimately show ?thesis by simp
qed

lemma agree_load16:
  assumes "agree (unat b) sz m m'" and "k + 2 \<le> sz"
  shows "load16 m' (b + of_nat k) = load16 m (b + of_nat k)"
proof -
  have "b + of_nat k = ad (unat b + k)" by (simp add: ad_def)
  moreover have "m' (ad (unat b + k)) = m (ad (unat b + k))" "m' (ad (unat b + k + 1)) = m (ad (unat b + k + 1))"
    using assms by (simp_all add: agree_def)
  ultimately show ?thesis by (simp add: load16_def)
qed

lemma agree_header:
  assumes "agree (unat img) sz m m'" and "52 \<le> sz"
  shows "eh_magic m' img = eh_magic m img" "eh_entry m' img = eh_entry m img" "eh_phoff m' img = eh_phoff m img"
    "eh_phentsize m' img = eh_phentsize m img" "eh_phnum m' img = eh_phnum m img" "ph_at m' img i = ph_at m img i"
  using agree_load32 [OF assms(1), of 0] agree_load32 [OF assms(1), of 24] agree_load32 [OF assms(1), of 28]
    agree_load16 [OF assms(1), of 42] agree_load16 [OF assms(1), of 44] assms(2)
  by (simp_all add: eh_magic_def eh_entry_def eh_phoff_def eh_phentsize_def eh_phnum_def ph_at_def)

lemma ph_offset:
  assumes "image_ok m img sz" and "i < unat (eh_phnum m img)"
  shows "\<exists>k. ph_at m img (of_nat i) = img + of_nat k \<and> k + 32 \<le> unat sz"
proof -
  let ?e = "unat (eh_phentsize m img)" and ?k = "unat (eh_phoff m img) + i * unat (eh_phentsize m img)"
  have i: "i < 2 ^ 16" using assms(2) unsigned_less [of "eh_phnum m img", where ?'a = nat] by simp
  have "(ucast (of_nat i :: u16) :: u32) = of_nat i"
    using i by (simp add: word_unat_eq_iff unsigned_ucast_eq unsigned_of_nat unsigned_take_bit_eq take_bit_nat_eq_self)
  moreover have "(ucast (eh_phentsize m img) :: u32) = of_nat ?e" by simp
  ultimately have "ph_at m img (of_nat i) = img + of_nat ?k" by (simp add: ph_at_def)
  moreover have "(i + 1) * ?e \<le> unat (eh_phnum m img) * ?e" using assms(2) by (intro mult_le_mono1) simp
  then have "?k + 32 \<le> unat sz" using assms(1) by (simp add: image_ok_def)
  ultimately show ?thesis by blast
qed

subsection \<open>Loading one segment\<close>

lemma place_agree:
  assumes "seg_ok b sz g" and "b + sz \<le> 2 ^ 32" and "agree b sz m0 m"
  shows "agree b sz m0 (place m0 b g m)"
proof -
  have "place m0 b g m (ad x) = m0 (ad x)" if x: "b \<le> x" "x < b + sz" for x
  proof -
    have "unat (ad x) = x" using assms(2) x by (intro unat_ad) simp
    with assms x show ?thesis by (auto simp: place_def agree_def seg_ok_def seg_end_def)
  qed
  then show ?thesis by (simp add: agree_def)
qed

lemma memset_ad:
  assumes "d + unat n \<le> 2 ^ 32" and "0 < unat n" and "x < 2 ^ 32"
  shows "memset m (ad d) 0 n (ad x) = (if d \<le> x \<and> x < d + unat n then 0 else m (ad x))"
proof -
  have "unat (ad x - ad d) = (if d \<le> x then x - d else 2 ^ 32 + x - d)"
    using assms by (intro unat_ad_diff) simp_all
  then have "ad x - ad d < n \<longleftrightarrow> d \<le> x \<and> x < d + unat n"
    using assms by (auto simp: word_less_nat_alt)
  then show ?thesis by (simp add: memset_apply)
qed

text \<open>The two copying steps of an iteration, on a segment given by its four words.\<close>

lemma copy_segment:
  fixes off va fsz msz img :: u32
  assumes ok: "seg_ok (unat img) sz g" and g: "g = \<lparr>seg_offset = unat off, seg_vaddr = unat va, seg_filesz = unat fsz, seg_memsz = unat msz\<rparr>"
    and b: "unat img + sz \<le> 2 ^ 32" and ag: "agree (unat img) sz m0 m"
  defines "m1 \<equiv> memcpy m va (img + off) fsz"
  shows "(if msz > fsz then memset m1 (va + fsz) 0 (msz - fsz) else m1) = place m0 (unat img) g m"
    and "agree (unat img) sz m0 m1"
proof -
  have bounds: "unat off + unat fsz \<le> sz" "unat va + max (unat fsz) (unat msz) \<le> 2 ^ 32"
    "unat va + max (unat fsz) (unat msz) \<le> unat img \<or> unat img + sz \<le> unat va"
    using ok by (auto simp: seg_ok_def seg_end_def g)
  have src: "img + off = ad (unat img + unat off)" and dst: "va = ad (unat va)" by (simp_all add: ad_def)
  have m1: "m1 (ad x) = (if unat va \<le> x \<and> x < unat va + unat fsz then m0 (ad (unat img + unat off + (x - unat va))) else m (ad x))"
    if x: "x < 2 ^ 32" for x
  proof -
    have "m1 (ad x) = (if unat va \<le> x \<and> x < unat va + unat fsz then m (ad (unat img + unat off + (x - unat va))) else m (ad x))"
      unfolding m1_def src by (subst dst, rule memcpy_ad) (use bounds b x in auto)
    moreover have "m (ad (unat img + unat off + (x - unat va))) = m0 (ad (unat img + unat off + (x - unat va)))"
      if "unat va \<le> x" "x < unat va + unat fsz"
      by (rule ag [unfolded agree_def, rule_format]) (use bounds(1) that in auto)
    ultimately show ?thesis by simp
  qed
  have "m1 (ad x) = m0 (ad x)" if "unat img \<le> x" "x < unat img + sz" for x
    using m1 [of x] that bounds b ag by (auto simp: agree_def)
  then show "agree (unat img) sz m0 m1" by (simp add: agree_def)
  have set: "memset m1 (va + fsz) 0 (msz - fsz) (ad x) =
      (if unat va + unat fsz \<le> x \<and> x < unat va + unat msz then 0 else m1 (ad x))"
    if x: "x < 2 ^ 32" and lt: "fsz < msz" for x
  proof -
    have n: "unat (msz - fsz) = unat msz - unat fsz" "unat fsz < unat msz"
      using lt by (simp_all add: unat_sub word_less_nat_alt order_less_imp_le)
    have d: "va + fsz = ad (unat va + unat fsz)" by (simp add: ad_def)
    show ?thesis unfolding d using n bounds(2) x by (subst memset_ad) auto
  qed
  show "(if msz > fsz then memset m1 (va + fsz) 0 (msz - fsz) else m1) = place m0 (unat img) g m"
  proof
    fix a :: u32
    have a: "a = ad (unat a)" "unat a < 2 ^ 32" by simp_all
    show "(if msz > fsz then memset m1 (va + fsz) 0 (msz - fsz) else m1) a = place m0 (unat img) g m a"
      using set [OF a(2)] m1 [OF a(2)] by (auto simp: place_def g word_less_nat_alt)
  qed
qed

lemma load_segment_place:
  assumes ok: "image_ok m0 img sz" and i: "i < unat (eh_phnum m0 img)" and ag: "agree (unat img) (unat sz) m0 m"
  shows "load_segment img sz (ph_at m img (of_nat i)) m =
    Some (if loadable m0 img i then place m0 (unat img) (seg_of m0 img i) m else m)"
proof -
  obtain k where k: "ph_at m0 img (of_nat i) = img + of_nat k" "k + 32 \<le> unat sz" using ph_offset [OF ok i] by blast
  have hdr: "52 \<le> unat sz" and b: "unat img + unat sz \<le> 2 ^ 32" using ok by (simp_all add: image_ok_def)
  have ph: "ph_at m img (of_nat i) = img + of_nat k" using agree_header(6) [OF ag hdr] k(1) by simp
  have field: "load32 m' (img + of_nat k + of_nat j) = load32 m0 (img + of_nat k + of_nat j)"
    if "agree (unat img) (unat sz) m0 m'" "j + 4 \<le> 32" for m' j
    using agree_load32 [OF that(1), of "k + j"] that(2) k(2) by (simp add: add.assoc)
  note F = field [of _ 0, simplified] field [of _ 4, simplified] field [of _ 8, simplified]
    field [of _ 16, simplified] field [of _ 20, simplified]
  show ?thesis
  proof (cases "loadable m0 img i")
    case False
    then show ?thesis using F(1) [OF ag] ph k(1) by (simp add: load_segment_def loadable_def)
  next
    case True
    define g where "g = seg_of m0 img i"
    have "g \<in> set (segments_from m0 img 0)" using True i by (simp add: segments_from_def g_def)
    then have gok: "seg_ok (unat img) (unat sz) g" using ok by (auto simp: image_ok_def list_all_iff)
    have g: "g = \<lparr>seg_offset = unat (load32 m0 (img + of_nat k + 4)), seg_vaddr = unat (load32 m0 (img + of_nat k + 8)),
       seg_filesz = unat (load32 m0 (img + of_nat k + 16)), seg_memsz = unat (load32 m0 (img + of_nat k + 20))\<rparr>"
      by (simp add: g_def seg_of_def k(1) Let_def)
    note C = copy_segment [OF gok g b ag]
    have "unat (load32 m0 (img + of_nat k + 4)) + unat (load32 m0 (img + of_nat k + 16)) \<le> unat sz"
      using gok by (simp add: seg_ok_def g)
    moreover from this have "unat (load32 m0 (img + of_nat k + 4) + load32 m0 (img + of_nat k + 16)) =
        unat (load32 m0 (img + of_nat k + 4)) + unat (load32 m0 (img + of_nat k + 16))"
      using le_less_trans [OF _ unat_u32 [of sz]] by (intro unat_plus_no_wrap) simp
    ultimately have "load32 m0 (img + of_nat k + 4) + load32 m0 (img + of_nat k + 16) \<le> sz"
      by (simp add: word_le_nat_alt)
    with True show ?thesis
      using F(1) [OF ag] F(2) [OF ag] F(3) [OF ag] F(4) [OF ag] F(4) [OF C(2)] F(5) [OF C(2)] C(1) ph k(1)
      by (simp add: load_segment_def loadable_def Let_def g_def not_less) (auto split: if_splits)
  qed
qed

subsection \<open>Loading all segments\<close>

lemma segments_from_step:
  assumes "i < unat (eh_phnum m img)"
  shows "segments_from m img i = (if loadable m img i then [seg_of m img i] else []) @ segments_from m img (Suc i)"
  using assms by (simp add: segments_from_def upt_conv_Cons)

lemma seg_of_ok:
  assumes "image_ok m img sz" and "i < unat (eh_phnum m img)" and "loadable m img i"
  shows "seg_ok (unat img) (unat sz) (seg_of m img i)"
  using assms by (auto simp: image_ok_def list_all_iff segments_from_def)

lemma elf_load_loop_places:
  assumes ok: "image_ok m0 img sz"
  shows "i \<le> unat (eh_phnum m0 img) \<Longrightarrow> agree (unat img) (unat sz) m0 m \<Longrightarrow>
    elf_load_loop img sz (of_nat i) m = (True, fold (place m0 (unat img)) (segments_from m0 img i) m) \<and>
    agree (unat img) (unat sz) m0 (fold (place m0 (unat img)) (segments_from m0 img i) m)"
proof (induction "unat (eh_phnum m0 img) - i" arbitrary: i m)
  case 0
  then have i: "i = unat (eh_phnum m0 img)" by simp
  have "52 \<le> unat sz" using ok by (simp add: image_ok_def)
  with 0 i agree_header(5) [of img "unat sz" m0 m] show ?case
    by (subst elf_load_loop.simps) (simp add: segments_from_def)
next
  case (Suc n)
  then have i: "i < unat (eh_phnum m0 img)" by simp
  have hdr: "52 \<le> unat sz" and b: "unat img + unat sz \<le> 2 ^ 32" using ok by (simp_all add: image_ok_def)
  let ?m = "if loadable m0 img i then place m0 (unat img) (seg_of m0 img i) m else m"
  have ag: "agree (unat img) (unat sz) m0 ?m"
    using Suc.prems(2) place_agree [OF seg_of_ok [OF ok i] b] by simp
  have "i < 2 ^ 16" using i unsigned_less [of "eh_phnum m0 img", where ?'a = nat] by simp
  then have "(of_nat i :: u16) < eh_phnum m0 img"
    using i by (simp add: word_less_nat_alt unat_of_nat_small)
  then have "elf_load_loop img sz (of_nat i) m = elf_load_loop img sz (of_nat (Suc i)) ?m"
    using load_segment_place [OF ok i Suc.prems(2)] agree_header(5) [OF Suc.prems(2) hdr]
    by (subst elf_load_loop.simps) (simp add: add.commute)
  moreover have "elf_load_loop img sz (of_nat (Suc i)) ?m =
      (True, fold (place m0 (unat img)) (segments_from m0 img (Suc i)) ?m) \<and>
      agree (unat img) (unat sz) m0 (fold (place m0 (unat img)) (segments_from m0 img (Suc i)) ?m)"
    using Suc.hyps(2) i ag by (intro Suc.hyps(1)) simp_all
  ultimately show ?case by (cases "loadable m0 img i") (simp_all add: segments_from_step [OF i])
qed

subsection \<open>Properties\<close>

text \<open>
  C13. Loading implements its specification: for an image whose program headers and segments
  lie inside it and whose destinations do not overwrite it, \<^verbatim>\<open>elf_load\<close> succeeds, returns
  the entry point of the header, and the memory afterwards is the old one with the loadable
  segments placed in order, file bytes first and zeros up to the memory size; nothing else
  changes. Anything too short or without the magic number is rejected unchanged.
\<close>

theorem elf_load_places:
  "(sz < 52 \<or> img = 0 \<or> eh_magic m img \<noteq> 0x464C457F \<longrightarrow> elf_load img sz m = (-1, None, m)) \<and>
   (image_ok m img sz \<longrightarrow>
      elf_load img sz m = (0, Some (eh_entry m img), fold (place m (unat img)) (segments_from m img 0) m))"
proof -
  have "elf_load img sz m = (0, Some (eh_entry m img), fold (place m (unat img)) (segments_from m img 0) m)"
    if ok: "image_ok m img sz"
  proof -
    have sz: "52 \<le> unat sz" and ph: "unat (eh_phoff m img) + unat (eh_phnum m img) * unat (eh_phentsize m img) \<le> unat sz"
      and b: "img \<noteq> 0" "eh_magic m img = 0x464C457F" using ok by (simp_all add: image_ok_def)
    have eq: "eh_phoff m img + ucast (eh_phnum m img) * ucast (eh_phentsize m img) =
        (of_nat (unat (eh_phoff m img) + unat (eh_phnum m img) * unat (eh_phentsize m img)) :: u32)" by simp
    have "unat (eh_phoff m img + ucast (eh_phnum m img) * ucast (eh_phentsize m img)) =
        unat (eh_phoff m img) + unat (eh_phnum m img) * unat (eh_phentsize m img)"
      unfolding eq by (rule unat_of_nat_small) (use le_less_trans [OF ph unat_u32] in simp)
    then have ok2: "\<not> eh_phoff m img + ucast (eh_phnum m img) * ucast (eh_phentsize m img) > sz" "\<not> sz < 52"
      using ph sz by (simp_all add: word_less_nat_alt)
    have "agree (unat img) (unat sz) m m" by (simp add: agree_def)
    note L = elf_load_loop_places [OF ok le0 this]
    have "elf_load_loop img sz 0 m = (True, fold (place m (unat img)) (segments_from m img 0) m)" using L by simp
    moreover have "eh_entry (fold (place m (unat img)) (segments_from m img 0) m) img = eh_entry m img"
      using agree_header(2) [OF L [THEN conjunct2] sz] .
    ultimately show ?thesis using b ok2 unfolding elf_load_def by simp
  qed
  then show ?thesis by (auto simp: elf_load_def)
qed

text \<open>An image of 100 bytes at 4096 with one segment of four bytes, loaded at 8192 with four zeros behind.\<close>

definition demo_image :: memory where
  "demo_image = store32 (store32 (store32 (store32 (store32 (store32 (store32 (store32 ((\<lambda>_. 0)(4138 := 32, 4140 := 1))
     4096 0x464C457F) 4120 8192) 4124 52) 4148 1) 4152 96) 4156 8192) 4164 4) 4168 8"

lemma demo_fields:
  "eh_magic demo_image 4096 = 0x464C457F" "eh_entry demo_image 4096 = 8192" "eh_phoff demo_image 4096 = 52"
  "eh_phentsize demo_image 4096 = 32" "eh_phnum demo_image 4096 = 1"
  by (simp_all add: eh_magic_def eh_entry_def eh_phoff_def eh_phentsize_def eh_phnum_def demo_image_def
    load32_def load16_def store32_def)

lemma demo_segment:
  "segments_from demo_image 4096 0 = [\<lparr>seg_offset = 96, seg_vaddr = 8192, seg_filesz = 4, seg_memsz = 8\<rparr>]"
proof -
  have ph: "ph_at demo_image 4096 0 = 4148" by (simp add: ph_at_def demo_fields)
  then have "loadable demo_image 4096 0" "seg_of demo_image 4096 0 = \<lparr>seg_offset = 96, seg_vaddr = 8192, seg_filesz = 4, seg_memsz = 8\<rparr>"
    by (simp_all add: loadable_def seg_of_def demo_image_def load32_def store32_def)
  then show ?thesis by (simp add: segments_from_def demo_fields)
qed

theorem elf_load_places_witness:
  "image_ok demo_image 4096 100 \<and> elf_load 4096 100 demo_image = (0, Some 8192,
     place demo_image 4096 \<lparr>seg_offset = 96, seg_vaddr = 8192, seg_filesz = 4, seg_memsz = 8\<rparr> demo_image)"
proof -
  have "image_ok demo_image 4096 100"
    by (simp add: image_ok_def demo_fields demo_segment seg_ok_def seg_end_def)
  with elf_load_places [of 100 4096 demo_image] show ?thesis by (simp add: demo_fields demo_segment)
qed

end
