(* ===== verification/Descriptor_Tables.thy ===== *)
theory Descriptor_Tables
  imports Kernel_Prelude
begin

text \<open>
  The interrupt descriptor table (\<^verbatim>\<open>src/interrupt/idt.c\<close>), the global descriptor table and
  the task state segment (\<^verbatim>\<open>gdt.c\<close>), the interrupt controllers (\<^verbatim>\<open>src/drivers/pic.c\<close>) and
  the interval timer (\<^verbatim>\<open>pit.c\<close>). A table is the list of its descriptors; a byte written to
  a port is a pair of port and value, and a routine returns the list of its writes. The
  entry stubs are assembly: their addresses are the arguments \<open>isr\<close> and \<open>irq\<close>.
\<close>

type_synonym port_writes = "(u16 \<times> u8) list"

subsection \<open>Interrupt gates\<close>

record idt_entry =
  base_low :: u16
  sel :: u16
  always0 :: u8
  gate_flags :: u8
  base_high :: u16

definition zero_gate :: idt_entry where
  "zero_gate = \<lparr>base_low = 0, sel = 0, always0 = 0, gate_flags = 0, base_high = 0\<rparr>"

definition idt_set_gate :: "u8 \<Rightarrow> u32 \<Rightarrow> u16 \<Rightarrow> u8 \<Rightarrow> idt_entry list \<Rightarrow> idt_entry list" where
  "idt_set_gate num base s fl idt =
     idt[unat num := \<lparr>base_low = ucast (base AND 0xFFFF), sel = s, always0 = 0, gate_flags = fl,
                      base_high = ucast (drop_bit 16 base AND 0xFFFF)\<rparr>]"

definition init_pic :: port_writes where
  "init_pic = [(0x20, 0x11), (0xA0, 0x11), (0x21, 0x20), (0xA1, 0x28), (0x21, 0x04), (0xA1, 0x02),
     (0x21, 0x01), (0xA1, 0x01), (0x21, 0xEC), (0xA1, 0xFF)]"

text \<open>The calls of \<^verbatim>\<open>idt_set_gate\<close> in the order of the source: vector, stub and flags.\<close>

definition gate_calls :: "(nat \<Rightarrow> u32) \<Rightarrow> (nat \<Rightarrow> u32) \<Rightarrow> (u8 \<times> u32 \<times> u8) list" where
  "gate_calls isr irq =
     map (\<lambda>n. (of_nat n, isr n, 0x8E)) [0..<32] @ [(128, isr 128, 0xEE)] @
     map (\<lambda>n. (of_nat (32 + n), irq n, 0x8E)) [0..<16]"

definition init_idt :: "(nat \<Rightarrow> u32) \<Rightarrow> (nat \<Rightarrow> u32) \<Rightarrow> port_writes \<times> idt_entry list" where
  "init_idt isr irq =
     (init_pic, fold (\<lambda>(n, base, fl). idt_set_gate n base 0x08 fl) (gate_calls isr irq) (replicate 256 zero_gate))"

subsection \<open>Segments\<close>

record gdt_entry =
  limit_low :: u16
  seg_base_low :: u16
  base_middle :: u8
  access :: u8
  granularity :: u8
  seg_base_high :: u8

record tss_entry =
  ss0 :: u32
  esp0 :: u32
  tss_cs :: u32
  tss_ss :: u32
  tss_ds :: u32
  tss_es :: u32
  tss_fs :: u32
  tss_gs :: u32
  iomap_base :: u16

definition gdt_set_gate :: "nat \<Rightarrow> u32 \<Rightarrow> u32 \<Rightarrow> u8 \<Rightarrow> u8 \<Rightarrow> gdt_entry list \<Rightarrow> gdt_entry list" where
  "gdt_set_gate num base limit acc gran gdt =
     gdt[num := \<lparr>limit_low = ucast (limit AND 0xFFFF), seg_base_low = ucast (base AND 0xFFFF),
       base_middle = ucast (drop_bit 16 base AND 0xFF), access = acc,
       granularity = ucast (drop_bit 16 limit AND 0x0F) OR (gran AND 0xF0),
       seg_base_high = ucast (drop_bit 24 base AND 0xFF)\<rparr>]"

text \<open>The segment has 104 bytes; its fields that are only cleared are not in the record.\<close>

definition write_tss :: "u32 \<Rightarrow> nat \<Rightarrow> u16 \<Rightarrow> u32 \<Rightarrow> gdt_entry list \<Rightarrow> gdt_entry list \<times> tss_entry" where
  "write_tss tss_addr num s0 e0 gdt =
     (gdt_set_gate num tss_addr (104 - 1) 0x89 0x40 gdt,
      \<lparr>ss0 = ucast s0, esp0 = e0, tss_cs = 0x0B, tss_ss = 0x13, tss_ds = 0x13, tss_es = 0x13, tss_fs = 0x13,
       tss_gs = 0x13, iomap_base = 104\<rparr>)"

definition init_gdt :: "u32 \<Rightarrow> gdt_entry list \<Rightarrow> gdt_entry list \<times> tss_entry" where
  "init_gdt tss_addr gdt =
     (let gdt = gdt_set_gate 0 0 0 0 0 gdt;
          gdt = gdt_set_gate 1 0 0xFFFFFFFF 0x9A 0xCF gdt;
          gdt = gdt_set_gate 2 0 0xFFFFFFFF 0x92 0xCF gdt;
          gdt = gdt_set_gate 3 0 0xFFFFFFFF 0xFA 0xCF gdt;
          gdt = gdt_set_gate 4 0 0xFFFFFFFF 0xF2 0xCF gdt
      in write_tss tss_addr 5 0x10 0 gdt)"

definition set_kernel_stack :: "u32 \<Rightarrow> tss_entry \<Rightarrow> tss_entry" where
  "set_kernel_stack stack t = t\<lparr>esp0 := stack\<rparr>"

subsection \<open>Controllers\<close>

definition pic_init :: port_writes where
  "pic_init = [(0x20, 0x11), (0xA0, 0x11), (0x21, 0x20), (0xA1, 0x28), (0x21, 0x04), (0xA1, 0x02),
     (0x21, 0x01), (0xA1, 0x01), (0x21, 0x00), (0xA1, 0x00)]"

definition pic_send_eoi :: "u8 \<Rightarrow> port_writes" where
  "pic_send_eoi int_no = (if int_no \<ge> 40 then [(0xA0, 0x20)] else []) @ [(0x20, 0x20)]"

text \<open>\<open>None\<close> is the fault of a division by zero.\<close>

definition pit_init :: "u32 \<Rightarrow> port_writes option" where
  "pit_init frequency =
     (if frequency = 0 then None
      else
        let divisor = 1193180 div frequency in
        Some [(0x43, 0x36), (0x40, ucast (divisor AND 0xFF)), (0x40, ucast (drop_bit 8 divisor AND 0xFF))])"

subsection \<open>Reading the descriptors back\<close>

definition gate_base :: "idt_entry \<Rightarrow> u32" where
  "gate_base e = ucast (base_low e) OR push_bit 16 (ucast (base_high e))"

definition gate_present :: "idt_entry \<Rightarrow> bool" where
  "gate_present e \<longleftrightarrow> gate_flags e AND 0x80 \<noteq> 0"

definition gate_dpl :: "idt_entry \<Rightarrow> u8" where
  "gate_dpl e = drop_bit 5 (gate_flags e) AND 3"

definition seg_base :: "gdt_entry \<Rightarrow> u32" where
  "seg_base e = ucast (seg_base_low e) OR push_bit 16 (ucast (base_middle e)) OR push_bit 24 (ucast (seg_base_high e))"

definition seg_limit :: "gdt_entry \<Rightarrow> u32" where
  "seg_limit e = ucast (limit_low e) OR push_bit 16 (ucast (granularity e AND 0x0F))"

lemma gate_base_set:
  "gate_base \<lparr>base_low = ucast (base AND 0xFFFF), sel = s, always0 = z, gate_flags = fl,
     base_high = ucast (drop_bit 16 base AND 0xFFFF)\<rparr> = base"
proof -
  have "ucast (ucast (base AND mask 16) :: u16) OR push_bit 16 (ucast (ucast (drop_bit 16 base AND mask 16) :: u16)) = base"
  proof (rule bit_word_eqI)
    fix n assume "n < LENGTH(32)"
    then consider "n < 16" | "16 \<le> n" "n < 32" by fastforce
    then show "bit (ucast (ucast (base AND mask 16) :: u16) OR push_bit 16 (ucast (ucast (drop_bit 16 base AND mask 16) :: u16)) :: u32) n =
        bit base n"
      by cases (auto simp: bit_simps)
  qed
  moreover have "mask 16 = (0xFFFF :: u32)" by (simp add: mask_eq_exp_minus_1)
  ultimately show ?thesis by (simp add: gate_base_def)
qed

text \<open>Setting gates one after the other: distinct vectors keep their own.\<close>

lemma fold_gates_other:
  "(\<forall>(n, b, fl) \<in> set calls. unat n \<noteq> v) \<Longrightarrow>
   fold (\<lambda>(n, b, fl). idt_set_gate n b s fl) calls idt ! v = idt ! v"
  by (induction calls arbitrary: idt) (auto simp: idt_set_gate_def)

lemma length_fold_gates:
  "length (fold (\<lambda>(n, b, fl). idt_set_gate n b s fl) calls idt) = length idt"
  by (induction calls arbitrary: idt) (auto simp: idt_set_gate_def)

lemma fold_gates_set:
  assumes "distinct (map fst calls)" and "(n, b, fl) \<in> set calls" and "unat n < length idt"
  shows "fold (\<lambda>(n, b, fl). idt_set_gate n b s fl) calls idt ! unat n =
    \<lparr>base_low = ucast (b AND 0xFFFF), sel = s, always0 = 0, gate_flags = fl,
     base_high = ucast (drop_bit 16 b AND 0xFFFF)\<rparr>"
  using assms
proof (induction calls arbitrary: idt)
  case (Cons c calls)
  obtain n' b' fl' where c: "c = (n', b', fl')" by (cases c) auto
  show ?case
  proof (cases "(n, b, fl) = c")
    case True
    have "\<forall>(k, b, fl) \<in> set calls. unat k \<noteq> unat n"
      using Cons.prems(1) True c by (force simp: word_unat_eq_iff [symmetric])
    with True c Cons.prems(3) show ?thesis
      by (simp add: fold_gates_other) (simp add: idt_set_gate_def)
  next
    case False
    then have "(n, b, fl) \<in> set calls" using Cons.prems(2) by auto
    moreover have "unat n < length (idt_set_gate n' b' s fl' idt)" using Cons.prems(3) by (simp add: idt_set_gate_def)
    ultimately show ?thesis using Cons.IH [of "idt_set_gate n' b' s fl' idt"] Cons.prems(1) c by simp
  qed
qed simp

lemma gate_calls_distinct: "distinct (map fst (gate_calls isr irq))"
proof -
  have "map fst (gate_calls isr irq) = map fst (gate_calls (\<lambda>_. 0) (\<lambda>_. 0))" by (simp add: gate_calls_def o_def)
  moreover have "distinct (map fst (gate_calls (\<lambda>_. 0) (\<lambda>_. 0)))" by code_simp
  ultimately show ?thesis by simp
qed

lemma seg_base_limit_set:
  assumes "num < length gdt"
  shows "seg_base (gdt_set_gate num base limit acc gran gdt ! num) = base"
    and "seg_limit (gdt_set_gate num base limit acc gran gdt ! num) = limit AND 0xFFFFF"
proof -
  have m: "mask 16 = (0xFFFF :: u32)" "mask 8 = (0xFF :: u32)" "mask 4 = (0x0F :: u32)" "mask 4 = (0x0F :: u8)"
    "push_bit 4 (mask 4) = (0xF0 :: u8)" "mask 20 = (0xFFFFF :: u32)"
    by (simp_all add: mask_eq_exp_minus_1)
  have "ucast (ucast (base AND mask 16) :: u16) OR push_bit 16 (ucast (ucast (drop_bit 16 base AND mask 8) :: u8))
      OR push_bit 24 (ucast (ucast (drop_bit 24 base AND mask 8) :: u8)) = base"
  proof (rule bit_word_eqI)
    fix n assume "n < LENGTH(32)"
    then consider "n < 16" | "16 \<le> n" "n < 24" | "24 \<le> n" "n < 32" by fastforce
    then show "bit (ucast (ucast (base AND mask 16) :: u16) OR push_bit 16 (ucast (ucast (drop_bit 16 base AND mask 8) :: u8))
      OR push_bit 24 (ucast (ucast (drop_bit 24 base AND mask 8) :: u8)) :: u32) n = bit base n"
      by cases (auto simp: bit_simps)
  qed
  then show "seg_base (gdt_set_gate num base limit acc gran gdt ! num) = base"
    using assms by (simp add: seg_base_def gdt_set_gate_def m)
  have "ucast (ucast (limit AND mask 16) :: u16) OR
      push_bit 16 (ucast ((ucast (drop_bit 16 limit AND mask 4) OR (gran AND push_bit 4 (mask 4))) AND mask 4 :: u8)) = limit AND mask 20"
  proof (rule bit_word_eqI)
    fix n assume "n < LENGTH(32)"
    then consider "n < 16" | "16 \<le> n" "n < 20" | "20 \<le> n" "n < 32" by fastforce
    then show "bit (ucast (ucast (limit AND mask 16) :: u16) OR
      push_bit 16 (ucast ((ucast (drop_bit 16 limit AND mask 4) OR (gran AND push_bit 4 (mask 4))) AND mask 4 :: u8)) :: u32) n =
      bit (limit AND mask 20) n"
      by cases (auto simp: bit_simps)
  qed
  then show "seg_limit (gdt_set_gate num base limit acc gran gdt ! num) = limit AND 0xFFFFF"
    using assms by (simp add: seg_limit_def gdt_set_gate_def m)
qed

subsection \<open>Properties\<close>

lemma gate_call_cases:
  assumes "v < 256"
  shows "v < 32 \<Longrightarrow> (of_nat v, isr v, 0x8E) \<in> set (gate_calls isr irq)"
    and "32 \<le> v \<Longrightarrow> v < 48 \<Longrightarrow> (of_nat v, irq (v - 32), 0x8E) \<in> set (gate_calls isr irq)"
    and "v = 128 \<Longrightarrow> (of_nat v, isr 128, 0xEE) \<in> set (gate_calls isr irq)"
    and "48 \<le> v \<Longrightarrow> v \<noteq> 128 \<Longrightarrow> \<forall>(n, b, fl) \<in> set (gate_calls isr irq). unat n \<noteq> v"
proof -
  show "(of_nat v, irq (v - 32), 0x8E) \<in> set (gate_calls isr irq)" if "32 \<le> v" "v < 48"
  proof -
    have "(of_nat (32 + (v - 32)), irq (v - 32), 0x8E) \<in> set (gate_calls isr irq)"
      using that by (force simp: gate_calls_def)
    then show ?thesis using that by simp
  qed
  show "\<forall>(n, b, fl) \<in> set (gate_calls isr irq). unat n \<noteq> v" if "48 \<le> v" "v \<noteq> 128"
  proof -
    have "unat (32 + of_nat x :: u8) = 32 + x" if "x < 16" for x :: nat
      using unat_of_nat_small [of "32 + x", where ?'a = 8] that by simp
    then show ?thesis using that by (auto simp: gate_calls_def unat_of_nat_small)
  qed
qed (auto simp: gate_calls_def)

text \<open>
  C30. After \<^verbatim>\<open>init_idt\<close> every vector is as intended: the 32 exceptions and the 16 interrupt
  lines reach their stubs through present gates of privilege level 0, vector 128 reaches the
  system call stub and is the only gate user mode may call, and no other vector has a present
  gate.
\<close>

theorem idt_gates:
  assumes "v < 256"
  shows "let e = snd (init_idt isr irq) ! v in
    (if v < 32 then gate_base e = isr v \<and> gate_present e \<and> gate_dpl e = 0
     else if v < 48 then gate_base e = irq (v - 32) \<and> gate_present e \<and> gate_dpl e = 0
     else if v = 128 then gate_base e = isr 128 \<and> gate_present e \<and> gate_dpl e = 3
     else \<not> gate_present e)"
proof -
  let ?idt = "snd (init_idt isr irq)"
  have u: "unat (of_nat v :: u8) = v" using assms by (simp add: unat_of_nat_small)
  have set: "?idt ! v = \<lparr>base_low = ucast (b AND 0xFFFF), sel = 0x08, always0 = 0, gate_flags = fl,
      base_high = ucast (drop_bit 16 b AND 0xFFFF)\<rparr>" if "(of_nat v, b, fl) \<in> set (gate_calls isr irq)" for b fl
    using fold_gates_set [OF gate_calls_distinct that, of "replicate 256 zero_gate" 8] assms u
    by (simp add: init_idt_def)
  have other: "?idt ! v = zero_gate" if "48 \<le> v" "v \<noteq> 128"
    using fold_gates_other [OF gate_call_cases(4) [OF assms that], where s = 8 and idt = "replicate 256 zero_gate"] assms
    by (simp add: init_idt_def)
  show ?thesis
    using set [OF gate_call_cases(1) [OF assms]] set [OF gate_call_cases(2) [OF assms]]
      set [OF gate_call_cases(3) [OF assms]] other
    by (auto simp: Let_def gate_base_set gate_present_def gate_dpl_def zero_gate_def not_less)
qed

theorem idt_gates_witness:
  "gate_base (snd (init_idt (\<lambda>n. 0x100000 + of_nat n) (\<lambda>n. 0x200000 + of_nat n)) ! 33) = 0x200001 \<and>
   gate_dpl (snd (init_idt (\<lambda>n. 0x100000 + of_nat n) (\<lambda>n. 0x200000 + of_nat n)) ! 128) = 3"
  using idt_gates [of 33 "\<lambda>n. 0x100000 + of_nat n" "\<lambda>n. 0x200000 + of_nat n"]
    idt_gates [of 128 "\<lambda>n. 0x100000 + of_nat n" "\<lambda>n. 0x200000 + of_nat n"] by (simp add: Let_def)

end
