(* ===== verification/Interrupts.thy ===== *)
theory Interrupts
  imports Descriptor_Tables
begin

text \<open>
  Interrupt dispatch (\<^verbatim>\<open>src/interrupt/irq.c\<close>). The table of handlers is a list of 16 entries
  of an arbitrary type of handlers, \<open>None\<close> the null pointer. The dispatcher returns which
  function it calls and the bytes it then writes to the interrupt controllers; a panic does
  not return, so nothing is written after it.
\<close>

definition exception_names :: "string list" where
  "exception_names = [''Divide By Zero'', ''Debug'', ''Non Maskable Interrupt'', ''Breakpoint'', ''Overflow'',
     ''Bound Range Exceeded'', ''Invalid Opcode'', ''Device Not Available'', ''Double Fault'',
     ''Coprocessor Segment Overrun'', ''Invalid TSS'', ''Segment Not Present'', ''Stack-Segment Fault'',
     ''General Protection Fault'', ''Page Fault'', ''Reserved'', ''x87 Floating-Point Exception'', ''Alignment Check'',
     ''Machine Check'', ''SIMD Floating-Point Exception'', ''Virtualization Exception'', ''Control Protection Exception'',
     ''Reserved'', ''Reserved'', ''Reserved'', ''Reserved'', ''Reserved'', ''Reserved'', ''Hypervisor Injection Exception'',
     ''VMM Communication Exception'', ''Security Exception'', ''Reserved'']"

datatype 'h irq_action = Panic string | Syscall | Call 'h | Unhandled u8 | Ignored

definition register_irq_handler :: "u8 \<Rightarrow> 'h option \<Rightarrow> 'h option list \<Rightarrow> 'h option list" where
  "register_irq_handler irq handler handlers = (if irq < 16 then handlers[unat irq := handler] else handlers)"

definition irq_handler :: "'h option list \<Rightarrow> u32 \<Rightarrow> 'h irq_action \<times> port_writes" where
  "irq_handler handlers int_no =
     (if int_no < 32 then (Panic (exception_names ! unat int_no), [])
      else if int_no = 128 then (Syscall, [])
      else if int_no \<ge> 32 \<and> int_no \<le> 47 then
        let irq = ucast (int_no - 32) :: u8 in
        ((case handlers ! unat irq of Some h \<Rightarrow> Call h | None \<Rightarrow> Unhandled irq), pic_send_eoi (ucast int_no))
      else (Ignored, []))"

lemma length_exception_names: "length exception_names = 32"
  by (simp add: exception_names_def)

lemma line_vector:
  assumes "k < 16"
  shows "unat (ucast ((32 + of_nat k :: u32) - 32) :: u8) = k" "unat (ucast (32 + of_nat k :: u32) :: u8) = 32 + k"
    "unat (32 + of_nat k :: u32) = 32 + k"
proof -
  have "(32 + of_nat k :: u32) = of_nat (32 + k)" by simp
  moreover have "unat (of_nat (32 + k) :: u32) = 32 + k" "unat (of_nat k :: u32) = k"
    using assms by (simp_all add: unat_of_nat_small del: of_nat_add)
  ultimately show "unat (32 + of_nat k :: u32) = 32 + k" "unat (ucast (32 + of_nat k :: u32) :: u8) = 32 + k"
    "unat (ucast ((32 + of_nat k :: u32) - 32) :: u8) = k"
    using assms by (simp_all add: unsigned_ucast_eq take_bit_nat_eq_self unsigned_take_bit_eq)
qed

text \<open>
  C31. A handler registered for a line is the one called for its vector, a later
  registration for another line does not change that, and every interrupt of a line is
  acknowledged exactly once to the first controller and, for the lines 8 to 15, before that
  to the second; exceptions panic with their name and are not acknowledged.
\<close>

theorem irq_dispatch:
  assumes "length handlers = 16" and "k < 16" and "j < 16" and "j \<noteq> k" and "v < 32"
  shows "irq_handler (register_irq_handler (of_nat j) g (register_irq_handler (of_nat k) (Some h) handlers)) (32 + of_nat k) =
      (Call h, if 8 \<le> k then [(0xA0, 0x20), (0x20, 0x20)] else [(0x20, 0x20)]) \<and>
    irq_handler handlers (of_nat v) = (Panic (exception_names ! v), [])"
proof -
  note U = line_vector [OF assms(2)]
  have n: "unat (of_nat j :: u8) = j" "unat (of_nat k :: u8) = k" "unat (of_nat v :: u32) = v"
    using assms(2,3,5) by (simp_all add: unat_of_nat_small)
  have eq: "(32 + of_nat k :: u32) \<noteq> 128" using U(3) assms(2) by (auto simp: word_unat_eq_iff)
  have "irq_handler (register_irq_handler (of_nat j) g (register_irq_handler (of_nat k) (Some h) handlers)) (32 + of_nat k) =
      (Call h, if 8 \<le> k then [(0xA0, 0x20), (0x20, 0x20)] else [(0x20, 0x20)])"
    using assms n U eq
    by (simp add: irq_handler_def register_irq_handler_def pic_send_eoi_def word_less_nat_alt word_le_nat_alt Let_def)
  moreover have "irq_handler handlers (of_nat v) = (Panic (exception_names ! v), [])"
    using assms(5) n(3) by (simp add: irq_handler_def word_less_nat_alt)
  ultimately show ?thesis ..
qed

theorem irq_dispatch_witness:
  "irq_handler (register_irq_handler 12 (Some ''mouse'') (register_irq_handler 1 (Some ''keyboard'') (replicate 16 None))) 33 =
     (Call ''keyboard'', [(0x20, 0x20)])"
  using irq_dispatch [of "replicate 16 None" 1 12 0 "Some ''mouse''" "''keyboard''"] by simp

end
