(* ===== verification/Ports.thy ===== *)
theory Ports
  imports Kernel_Prelude
begin

text \<open>
  Port input and output for the drivers that wait for their device: the hardware behind the
  ports is a state of an arbitrary type, and every access through \<^verbatim>\<open>inb\<close>, \<^verbatim>\<open>inw\<close>,
  \<^verbatim>\<open>outb\<close> and \<^verbatim>\<open>outw\<close> of \<^verbatim>\<open>common.h\<close> may change it.
\<close>

record 'h ports =
  in8 :: "u16 \<Rightarrow> 'h \<Rightarrow> u8 \<times> 'h"
  in16 :: "u16 \<Rightarrow> 'h \<Rightarrow> u16 \<times> 'h"
  out8 :: "u16 \<Rightarrow> u8 \<Rightarrow> 'h \<Rightarrow> 'h"
  out16 :: "u16 \<Rightarrow> u16 \<Rightarrow> 'h \<Rightarrow> 'h"

text \<open>Reading a number of words from a data port.\<close>

fun read_words :: "'h ports \<Rightarrow> u16 \<Rightarrow> nat \<Rightarrow> 'h \<Rightarrow> u16 list \<times> 'h" where
  "read_words P port 0 h = ([], h)"
| "read_words P port (Suc n) h =
     (let (w, h) = in16 P port h; (ws, h) = read_words P port n h in (w # ws, h))"

fun write_words :: "'h ports \<Rightarrow> u16 \<Rightarrow> u16 list \<Rightarrow> 'h \<Rightarrow> 'h" where
  "write_words P port [] h = h"
| "write_words P port (w # ws) h = write_words P port ws (out16 P port w h)"

lemma length_read_words: "length (fst (read_words P port n h)) = n"
  by (induction n arbitrary: h) (auto simp: split_beta)

end
