(* ===== verification/Mouse.thy ===== *)
theory Mouse
  imports Kprintf Input_Queue Ports
begin

text \<open>
  The PS/2 mouse driver (\<^verbatim>\<open>src/drivers/mouse.c\<close>). The interrupt handler assembles three-byte
  packets; the status byte and the data byte it reads from the controller are arguments.
  Every fiftieth packet is printed, so the handler is partial with the monitor.
\<close>

record mouse =
  mouse_cycle :: u8
  mouse_bytes :: "u8 list"
  packet_count :: u32
  events :: input_state
  screen :: monitor

subsection \<open>The code\<close>

fun mouse_wait_loop :: "'h ports \<Rightarrow> u8 \<Rightarrow> nat \<Rightarrow> 'h \<Rightarrow> 'h" where
  "mouse_wait_loop P type 0 h = h"
| "mouse_wait_loop P type (Suc n) h =
     (let (status, h) = in8 P 0x64 h in
      if (if type = 0 then status AND 1 \<noteq> 0 else status AND 2 = 0) then h
      else mouse_wait_loop P type n h)"

definition mouse_wait :: "'h ports \<Rightarrow> u8 \<Rightarrow> 'h \<Rightarrow> 'h" where
  "mouse_wait P type h = mouse_wait_loop P type 100000 h"

definition mouse_write :: "'h ports \<Rightarrow> u8 \<Rightarrow> 'h \<Rightarrow> 'h" where
  "mouse_write P v h = out8 P 0x60 v (mouse_wait P 1 (out8 P 0x64 0xD4 (mouse_wait P 1 h)))"

definition mouse_read :: "'h ports \<Rightarrow> 'h \<Rightarrow> u8 \<times> 'h" where
  "mouse_read P h = in8 P 0x60 (mouse_wait P 0 h)"

definition packet_message :: "u8 \<Rightarrow> u8 \<Rightarrow> u8 \<Rightarrow> u8 list" where
  "packet_message b dx dy =
     bytes ''Mouse packet: b='' @ print_int_decimal (sint b) 0 32 @ bytes '' dx='' @ print_int_decimal (sint dx) 0 32 @
     bytes '' dy='' @ print_int_decimal (sint dy) 0 32 @ [10]"

definition mouse_handler :: "u8 \<Rightarrow> u8 \<Rightarrow> mouse \<Rightarrow> mouse option" where
  "mouse_handler status v s =
     (if status AND 1 = 0 then Some s
      else if mouse_cycle s = 0 then
        if v AND 0x08 = 0 then Some s
        else Some (s\<lparr>mouse_bytes := (mouse_bytes s)[0 := v], mouse_cycle := 1\<rparr>)
      else if mouse_cycle s = 1 then
        Some (s\<lparr>mouse_bytes := (mouse_bytes s)[1 := v], mouse_cycle := 2\<rparr>)
      else if mouse_cycle s = 2 then
        let bs = (mouse_bytes s)[2 := v];
            s = s\<lparr>mouse_bytes := bs, mouse_cycle := 0, packet_count := packet_count s + 1,
                  events := input_push_mouse (bs ! 1) (bs ! 2) (bs ! 0 AND 0x07) (events s)\<rparr>
        in if packet_count s mod 50 = 0 then
             map_option (\<lambda>mon. s\<lparr>screen := mon\<rparr>) (monitor_write (packet_message (bs ! 0) (bs ! 1) (bs ! 2)) (screen s))
           else Some s
      else Some s)"

definition mouse_init :: "'h ports \<Rightarrow> 'h \<Rightarrow> 'h" where
  "mouse_init P h =
     (let h = out8 P 0x64 0xA8 (mouse_wait P 1 h);
          h = out8 P 0x64 0x20 (mouse_wait P 1 h);
          (status, h) = mouse_read P h;
          h = out8 P 0x64 0x60 (mouse_wait P 1 h);
          h = out8 P 0x60 (status OR 0x02) (mouse_wait P 1 h);
          (_, h) = mouse_read P (mouse_write P 0xF6 h);
          (_, h) = mouse_read P (mouse_write P 0xF4 h)
      in h)"

subsection \<open>Streams of bytes\<close>

text \<open>The interrupts of a stream of bytes, each with the output buffer full.\<close>

fun mouse_stream :: "u8 list \<Rightarrow> mouse \<Rightarrow> mouse option" where
  "mouse_stream [] s = Some s"
| "mouse_stream (v # vs) s = Option.bind (mouse_handler 1 v s) (mouse_stream vs)"

definition mouse_ok :: "mouse \<Rightarrow> bool" where
  "mouse_ok s \<longleftrightarrow> length (mouse_bytes s) = 3 \<and> input_wf (events s) \<and> on_screen (screen s)"

definition packet :: "u8 \<times> u8 \<times> u8 \<Rightarrow> u8 list" where
  "packet p = (case p of (b, dx, dy) \<Rightarrow> [b, dx, dy])"

definition packet_event :: "u8 \<times> u8 \<times> u8 \<Rightarrow> input_event" where
  "packet_event p = (case p of (b, dx, dy) \<Rightarrow> mouse_event dx dy (b AND 7))"

lemma input_push_pending:
  assumes "input_wf s"
  shows "input_wf (input_push e s)" and "input_pending (input_push e s) = take 63 (input_pending s @ [e])"
proof -
  have "input_offer e s = (\<not> input_full s, input_push e s)" by (simp add: input_offer_def)
  from input_fifo.push_ok [OF assms this] input_fifo.invar_bound [OF assms]
  show "input_wf (input_push e s)" "input_pending (input_push e s) = take 63 (input_pending s @ [e])"
    by (auto split: if_splits)
qed

lemma mouse_noise:
  "mouse_cycle s = 0 \<Longrightarrow> list_all (\<lambda>v. v AND 8 = 0) vs \<Longrightarrow> mouse_stream (vs @ ws) s = mouse_stream ws s"
  by (induction vs) (auto simp: mouse_handler_def)

lemma mouse_packet:
  assumes ok: "mouse_ok s" and cyc: "mouse_cycle s = 0" and b: "b AND 8 \<noteq> 0"
  shows "\<exists>s'. mouse_stream [b, dx, dy] s = Some s' \<and> mouse_ok s' \<and> mouse_cycle s' = 0 \<and>
    input_pending (events s') = take 63 (input_pending (events s) @ [packet_event (b, dx, dy)]) \<and>
    packet_count s' = packet_count s + 1"
proof -
  let ?s = "s\<lparr>mouse_bytes := [b, dx, dy], mouse_cycle := 0, packet_count := packet_count s + 1,
    events := input_push_mouse dx dy (b AND 7) (events s)\<rparr>"
  obtain x y z where bs: "mouse_bytes s = [x, y, z]"
    using ok by (auto simp: mouse_ok_def length_Suc_conv numeral_eq_Suc)
  have on: "on_screen (screen s)" and wf: "input_wf (events s)" using ok by (simp_all add: mouse_ok_def)
  obtain mon where mon: "monitor_write (packet_message b dx dy) (screen s) = Some mon" "on_screen mon"
    using monitor_write_spec [OF on] by blast
  have "mouse_stream [b, dx, dy] s =
      Some (if (packet_count s + 1) mod 50 = 0 then ?s\<lparr>screen := mon\<rparr> else ?s)"
    using b cyc mon(1) by (simp add: mouse_handler_def bs)
  moreover note P = input_push_pending [OF wf, of "mouse_event dx dy (b AND 7)"]
  ultimately show ?thesis
    using mon(2) on by (auto simp: mouse_ok_def packet_event_def input_push_mouse_def P)
qed

lemma mouse_stream_append:
  "mouse_stream (vs @ ws) s = Option.bind (mouse_stream vs s) (mouse_stream ws)"
  by (induction vs arbitrary: s) (auto simp: bind_assoc cong: Option.bind_cong)

lemma mouse_packets_run:
  "mouse_ok s \<Longrightarrow> mouse_cycle s = 0 \<Longrightarrow> list_all (\<lambda>(b, dx, dy). b AND 8 \<noteq> 0) ps \<Longrightarrow>
   \<exists>s'. mouse_stream (concat (map packet ps)) s = Some s' \<and> mouse_ok s' \<and> mouse_cycle s' = 0 \<and>
     input_pending (events s') = take 63 (input_pending (events s) @ map packet_event ps)"
proof (induction ps arbitrary: s)
  case Nil
  then have "length (input_pending (events s)) \<le> 63"
    using input_fifo.invar_bound by (simp add: mouse_ok_def)
  with Nil show ?case by simp
next
  case (Cons p ps)
  obtain b dx dy where p: "p = (b, dx, dy)" by (cases p) auto
  obtain s1 where s1: "mouse_stream [b, dx, dy] s = Some s1" "mouse_ok s1" "mouse_cycle s1 = 0"
    "input_pending (events s1) = take 63 (input_pending (events s) @ [packet_event p])"
    using mouse_packet [of s b dx dy] Cons.prems p by auto
  obtain s2 where s2: "mouse_stream (concat (map packet ps)) s1 = Some s2" "mouse_ok s2" "mouse_cycle s2 = 0"
    "input_pending (events s2) = take 63 (input_pending (events s1) @ map packet_event ps)"
    using Cons.IH [OF s1(2,3)] Cons.prems p by auto
  have "mouse_stream (concat (map packet (p # ps))) s = Some s2"
    using s1(1) s2(1) mouse_stream_append [of "[b, dx, dy]" "concat (map packet ps)" s] by (simp add: p packet_def)
  moreover have "take 63 (take 63 (xs @ [e]) @ ys) = take 63 (xs @ e # ys)" if "length xs \<le> 63" for xs ys and e :: input_event
    using that by (cases "length xs = 63") (auto simp: min_def)
  ultimately show ?case
    using s2 s1(4) Cons.prems(1) input_fifo.invar_bound [of "events s"] by (simp add: mouse_ok_def)
qed

subsection \<open>Properties\<close>

definition mouse_static :: mouse where
  "mouse_static = \<lparr>mouse_cycle = 0, mouse_bytes = [0, 0, 0], packet_count = 49, events = input_static, screen = blank_monitor\<rparr>"

text \<open>
  C39. The driver recovers packets from the byte stream: after any bytes that cannot start a
  packet, every packet of three bytes becomes one event with its movements and buttons, in
  order, until the event queue holds 63; the handler always returns, also when it prints.
\<close>

theorem mouse_stream_packets:
  assumes "mouse_ok s" and "mouse_cycle s = 0" and "list_all (\<lambda>v. v AND 8 = 0) noise"
    and "list_all (\<lambda>(b, dx, dy). b AND 8 \<noteq> 0) ps"
  shows "\<exists>s'. mouse_stream (noise @ concat (map packet ps)) s = Some s' \<and> mouse_ok s' \<and>
    input_pending (events s') = take 63 (input_pending (events s) @ map packet_event ps)"
  using mouse_packets_run [OF assms(1,2,4)] mouse_noise [OF assms(2,3)] by auto

theorem mouse_stream_packets_witness:
  "\<exists>s'. mouse_stream [1, 2, 9, 5, 250, 8, 0, 1] mouse_static = Some s' \<and>
     input_pending (events s') = [mouse_event 5 250 1, mouse_event 0 1 0]"
proof -
  have "mouse_ok mouse_static"
    using input_static_wf blank_monitor_on_screen by (simp add: mouse_ok_def mouse_static_def)
  moreover have "input_pending input_static = []" by (simp add: input_pending_def input_static_def ring_list_def)
  ultimately show ?thesis
    using mouse_stream_packets [of mouse_static "[1, 2]" "[(9, 5, 250), (8, 0, 1)]"]
    by (auto simp: mouse_static_def packet_def packet_event_def)
qed

end
