(* ===== verification/Ata.thy ===== *)
theory Ata
  imports Ports Fat
begin

text \<open>
  The ATA PIO driver (\<^verbatim>\<open>src/drivers/ata.c\<close>) over the ports. A buffer is the list of its
  bytes; the results of the transfers are the number of sectors moved. The waiting loops
  count a timeout down and therefore return. Messages on the console are not modelled.
  The function pointers that \<^verbatim>\<open>ata_init\<close> stores are arguments: what matters to the storage
  layer is that they are set.
\<close>

record ata_device =
  ata_io :: u16
  ata_ctrl :: u16
  slave :: u8

subsection \<open>Waiting\<close>

definition ata_io_wait :: "'h ports \<Rightarrow> 'h \<Rightarrow> 'h" where
  "ata_io_wait P h =
     (let (_, h) = in8 P 0x3F6 h; (_, h) = in8 P 0x3F6 h; (_, h) = in8 P 0x3F6 h; (_, h) = in8 P 0x3F6 h in h)"

fun wait_ready_loop :: "'h ports \<Rightarrow> u16 \<Rightarrow> nat \<Rightarrow> 'h \<Rightarrow> bool \<times> 'h" where
  "wait_ready_loop P io 0 h = (False, h)"
| "wait_ready_loop P io (Suc n) h =
     (let (status, h) = in8 P (io + 7) h in
      if status AND 0x80 = 0 \<and> status AND 0x08 \<noteq> 0 then (True, h)
      else if status AND 0x01 \<noteq> 0 then (False, h)
      else wait_ready_loop P io n h)"

definition ata_wait_ready :: "'h ports \<Rightarrow> ata_device \<Rightarrow> 'h \<Rightarrow> bool \<times> 'h" where
  "ata_wait_ready P dv h = wait_ready_loop P (ata_io dv) 100000 h"

subsection \<open>Transfers\<close>

definition ata_select :: "'h ports \<Rightarrow> ata_device \<Rightarrow> u32 \<Rightarrow> u8 \<Rightarrow> 'h \<Rightarrow> 'h" where
  "ata_select P dv cur cmd h =
     (let io = ata_io dv;
          h = out8 P (io + 6) (0xE0 OR push_bit 4 (slave dv) OR (ucast (drop_bit 24 cur) AND 0x0F)) h;
          h = ata_io_wait P h;
          h = out8 P (io + 2) 1 h;
          h = out8 P (io + 3) (ucast (cur AND 0xFF)) h;
          h = out8 P (io + 4) (ucast (drop_bit 8 cur AND 0xFF)) h;
          h = out8 P (io + 5) (ucast (drop_bit 16 cur AND 0xFF)) h
      in out8 P (io + 7) cmd h)"

text \<open>The bytes of a word as \<^verbatim>\<open>*buf++\<close> stores them, and the words of a buffer.\<close>

definition word_bytes :: "u16 \<Rightarrow> u8 list" where
  "word_bytes w = [ucast w, ucast (drop_bit 8 w)]"

fun buffer_words :: "u8 list \<Rightarrow> u16 list" where
  "buffer_words (a # b # bs) = (ucast a OR push_bit 8 (ucast b)) # buffer_words bs"
| "buffer_words _ = []"

fun read_attempts :: "'h ports \<Rightarrow> ata_device \<Rightarrow> u32 \<Rightarrow> nat \<Rightarrow> 'h \<Rightarrow> u8 list option \<times> 'h" where
  "read_attempts P dv cur 0 h = (None, h)"
| "read_attempts P dv cur (Suc n) h =
     (let (ok, h) = ata_wait_ready P dv (ata_select P dv cur 0x20 h) in
      if \<not> ok then read_attempts P dv cur n h
      else
        let (ws, h) = read_words P (ata_io dv) 256 h
        in (Some (concat (map word_bytes ws)), ata_io_wait P h))"

function read28_loop :: "'h ports \<Rightarrow> ata_device \<Rightarrow> u32 \<Rightarrow> u8 \<Rightarrow> u8 \<Rightarrow> u8 list \<Rightarrow> 'h \<Rightarrow> int \<times> u8 list \<times> 'h" where
  "read28_loop P dv lba count c buf h =
     (if c < count then
        case read_attempts P dv (lba + ucast c) 3 h of
          (None, h) \<Rightarrow> (uint c, buf, h)
        | (Some bs, h) \<Rightarrow> read28_loop P dv lba count (c + 1) (buf @ bs) h
      else (uint count, buf, h))"
  by pat_completeness auto
termination
  by (relation "measure (\<lambda>(P, dv, lba, count, c, buf, h). unat count - unat c)") auto

declare read28_loop.simps [simp del]

definition ata_read28 :: "'h ports \<Rightarrow> ata_device option \<Rightarrow> u32 \<Rightarrow> u8 \<Rightarrow> 'h \<Rightarrow> int \<times> u8 list \<times> 'h" where
  "ata_read28 P dv lba count h =
     (case dv of
        None \<Rightarrow> (0, [], h)
      | Some dv \<Rightarrow> if count = 0 \<or> lba > 0x0FFFFFFF then (0, [], h) else read28_loop P dv lba count 0 [] h)"

text \<open>A failed attempt of a write has not consumed the buffer.\<close>

fun write_attempts :: "'h ports \<Rightarrow> ata_device \<Rightarrow> u32 \<Rightarrow> u8 list \<Rightarrow> nat \<Rightarrow> 'h \<Rightarrow> bool \<times> 'h" where
  "write_attempts P dv cur buf 0 h = (False, h)"
| "write_attempts P dv cur buf (Suc n) h =
     (let (ok, h) = ata_wait_ready P dv (ata_select P dv cur 0x30 h) in
      if \<not> ok then write_attempts P dv cur buf n h
      else (True, ata_io_wait P (write_words P (ata_io dv) (buffer_words (take 512 buf)) h)))"

function write28_loop :: "'h ports \<Rightarrow> ata_device \<Rightarrow> u32 \<Rightarrow> u8 \<Rightarrow> u8 \<Rightarrow> u8 list \<Rightarrow> 'h \<Rightarrow> int \<times> 'h" where
  "write28_loop P dv lba count c buf h =
     (if c < count then
        case write_attempts P dv (lba + ucast c) buf 3 h of
          (ok, h) \<Rightarrow> if \<not> ok then (uint c, h) else write28_loop P dv lba count (c + 1) (drop 512 buf) h
      else (uint count, h))"
  by pat_completeness auto
termination
  by (relation "measure (\<lambda>(P, dv, lba, count, c, buf, h). unat count - unat c)") auto

declare write28_loop.simps [simp del]

definition ata_write28 :: "'h ports \<Rightarrow> ata_device option \<Rightarrow> u32 \<Rightarrow> u8 \<Rightarrow> u8 list \<Rightarrow> 'h \<Rightarrow> int \<times> 'h" where
  "ata_write28 P dv lba count buf h =
     (case dv of
        None \<Rightarrow> (0, h)
      | Some dv \<Rightarrow> if count = 0 \<or> lba > 0x0FFFFFFF then (0, h) else write28_loop P dv lba count 0 buf h)"

text \<open>The entry points of the storage layer: the device, if any, with its driver data, if set.\<close>

definition ata_storage_read :: "'h ports \<Rightarrow> ata_device option option \<Rightarrow> u32 \<Rightarrow> u8 \<Rightarrow> 'h \<Rightarrow> int \<times> u8 list \<times> 'h" where
  "ata_storage_read P dv lba count h =
     (case dv of Some (Some d) \<Rightarrow> ata_read28 P (Some d) lba count h | _ \<Rightarrow> (0, [], h))"

definition ata_storage_write :: "'h ports \<Rightarrow> ata_device option option \<Rightarrow> u32 \<Rightarrow> u8 \<Rightarrow> u8 list \<Rightarrow> 'h \<Rightarrow> int \<times> 'h" where
  "ata_storage_write P dv lba count buf h =
     (case dv of Some (Some d) \<Rightarrow> ata_write28 P (Some d) lba count buf h | _ \<Rightarrow> (0, h))"

subsection \<open>Identification\<close>

fun wait_busy_loop :: "'h ports \<Rightarrow> nat \<Rightarrow> 'h \<Rightarrow> bool \<times> 'h" where
  "wait_busy_loop P 0 h = (False, h)"
| "wait_busy_loop P (Suc n) h =
     (let (status, h) = in8 P 0x1F7 h in if status AND 0x80 = 0 then (True, h) else wait_busy_loop P n h)"

fun wait_drq_loop :: "'h ports \<Rightarrow> nat \<Rightarrow> 'h \<Rightarrow> bool \<times> 'h" where
  "wait_drq_loop P 0 h = (False, h)"
| "wait_drq_loop P (Suc n) h =
     (let (status, h) = in8 P 0x1F7 h in
      if status AND 0x01 \<noteq> 0 then (False, h)
      else if status AND 0x08 \<noteq> 0 then (True, h)
      else wait_drq_loop P n h)"

text \<open>The static device structure \<^verbatim>\<open>ata_dev\<close> is the device \<open>i\<close> of the storage layer.\<close>

definition ata_identify_primary ::
  "'h ports \<Rightarrow> nat option \<Rightarrow> 'd storage \<Rightarrow> 'h \<Rightarrow> bool \<times> 'd storage \<times> 'h" where
  "ata_identify_primary P dv s h =
     (let h = ata_io_wait P (out8 P 0x1F6 0xA0 h);
          h = out8 P 0x1F7 0xEC (out8 P 0x1F5 0 (out8 P 0x1F4 0 (out8 P 0x1F3 0 (out8 P 0x1F2 0 h))));
          (status, h) = in8 P 0x1F7 h
      in
      if status = 0 then (False, s, h)
      else
        let (ok, h) = wait_busy_loop P 100000 h in
        if \<not> ok then (False, s, h)
        else
          let (ok, h) = wait_drq_loop P 100000 h in
          if \<not> ok then (False, s, h)
          else
            let (_, h) = read_words P 0x1F0 256 h in
            (True,
             (case dv of
                None \<Rightarrow> s
              | Some i \<Rightarrow>
                  snd (storage_register (Some i) (s\<lparr>devices := (devices s)(i :=
                    \<lparr>sector_size = 512, sector_count = 0, dev_read = None, dev_write = None\<rparr>)\<rparr>))), h))"

definition ata_init ::
  "'h ports \<Rightarrow> ('d \<Rightarrow> u32 \<Rightarrow> u8 \<Rightarrow> int \<times> u8 list) \<Rightarrow> ('d \<Rightarrow> u32 \<Rightarrow> u8 \<Rightarrow> u8 list \<Rightarrow> int \<times> 'd) \<Rightarrow> nat \<Rightarrow>
   'd storage \<Rightarrow> 'h \<Rightarrow> 'd storage \<times> 'h" where
  "ata_init P rd wr i s h =
     (case ata_identify_primary P (Some i) s h of
        (found, s, h) \<Rightarrow>
          if \<not> found then (s, h)
          else (s\<lparr>devices := (devices s)(i := (devices s i)\<lparr>dev_read := Some rd, dev_write := Some wr\<rparr>)\<rparr>, h))"

subsection \<open>Properties\<close>

lemma word_bytes_words: "buffer_words (concat (map word_bytes ws)) = ws"
proof (induction ws)
  case (Cons w ws)
  have "ucast (ucast w :: u8) OR push_bit 8 (ucast (ucast (drop_bit 8 w) :: u8)) = w"
  proof (rule bit_word_eqI)
    fix n assume "n < LENGTH(16)"
    then consider "n < 8" | "8 \<le> n" "n < 16" by fastforce
    then show "bit (ucast (ucast w :: u8) OR push_bit 8 (ucast (ucast (drop_bit 8 w) :: u8)) :: u16) n = bit w n"
      by cases (auto simp: bit_simps)
  qed
  with Cons show ?case by (simp add: word_bytes_def)
qed simp

lemma length_word_bytes: "length (concat (map word_bytes ws)) = 2 * length ws"
  by (induction ws) (auto simp: word_bytes_def)

lemma read_attempts_length: "fst (read_attempts P dv cur n h) = Some bs \<Longrightarrow> length bs = 512"
proof (induction n arbitrary: h)
  case (Suc n)
  then show ?case
    by (auto simp: split_beta Let_def length_word_bytes length_read_words split: if_splits)
qed simp

text \<open>Whatever the device does, the bytes delivered are those of the sectors reported.\<close>

lemma read28_loop_length:
  "c \<le> count \<Longrightarrow> int (length buf) = 512 * uint c \<Longrightarrow> read28_loop P dv lba count c buf h = (r, out, h') \<Longrightarrow>
   int (length out) = 512 * r \<and> 0 \<le> r \<and> r \<le> uint count"
proof (induction P dv lba count c buf h rule: read28_loop.induct)
  case (1 P dv lba count c buf h)
  show ?case
  proof (cases "c < count")
    case False
    then have "(r, out) = (uint count, buf)" using 1(4) by (simp add: read28_loop.simps [of P dv lba count c])
    moreover have "c = count" using False 1(2) by simp
    ultimately show ?thesis using 1(3) by simp
  next
    case True
    obtain o1 h1 where att: "read_attempts P dv (lba + ucast c) 3 h = (o1, h1)" by fastforce
    have suc: "uint (c + 1) = uint c + 1" unfolding uint_nat using unat_succ_less [OF True] by simp
    show ?thesis
    proof (cases o1)
      case None
      with att True 1(3,4) show ?thesis by (simp add: read28_loop.simps [of P dv lba count c] word_less_def)
    next
      case (Some bs)
      then have "length bs = 512" using read_attempts_length [of P dv "lba + ucast c" 3 h bs] att by simp
      moreover have "c + 1 \<le> count" using True by (simp add: inc_le)
      moreover have "read28_loop P dv lba count (c + 1) (buf @ bs) h1 = (r, out, h')"
        using 1(4) att True Some by (simp add: read28_loop.simps [of P dv lba count c])
      ultimately show ?thesis
        using 1(1) [OF True att [symmetric] Some] 1(3) suc by simp
    qed
  qed
qed

lemma ata_read28_length:
  assumes "ata_read28 P dv lba count h = (r, out, h')"
  shows "int (length out) = 512 * r \<and> 0 \<le> r \<and> r \<le> uint count"
proof -
  have "int (length out) = 512 * r \<and> 0 \<le> r \<and> r \<le> uint count" if "read28_loop P d lba count 0 [] h = (r, out, h')" for d
    using read28_loop_length [OF _ _ that] by simp
  with assms show ?thesis by (auto simp: ata_read28_def split: option.splits if_splits)
qed

lemma identify_keeps_default:
  "default_dev s = None \<Longrightarrow> default_dev (fst (snd (ata_identify_primary P (Some i) s h))) = None"
  by (simp add: ata_identify_primary_def storage_register_def split_beta Let_def)

lemma ata_init_default:
  assumes "default_dev s = None"
  shows "default_dev (fst (ata_init P rd wr i s h)) = None"
  using identify_keeps_default [OF assms, of P i h] by (auto simp: ata_init_def split: prod.splits)

text \<open>
  C40. \<^verbatim>\<open>ata_init\<close> never provides a storage device: it registers the device while its read
  pointer is still null, the registration is refused, and the pointers are set afterwards. So
  whatever the hardware answers, there is no default device if there was none before, and
  mounting the FAT file system then does nothing.
\<close>

theorem ata_init_registers_nothing:
  assumes "default_dev s = None"
  shows "storage_get_default (fst (ata_init P rd wr i s h)) = None \<and>
    fat_init (storage_get_default (fst (ata_init P rd wr i s h))) fs = Some fs"
  using ata_init_default [OF assms, of P rd wr i h] by (simp add: storage_get_default_def fat_init_def)

text \<open>A controller whose status is always ready, and the device structure afterwards.\<close>

definition ready_ports :: "unit ports" where
  "ready_ports = \<lparr>in8 = \<lambda>p h. (0x08, h), in16 = \<lambda>p h. (0, h), out8 = \<lambda>p v h. h, out16 = \<lambda>p v h. h\<rparr>"

definition no_storage :: "unit storage" where
  "no_storage = \<lparr>devices = \<lambda>_. \<lparr>sector_size = 0, sector_count = 0, dev_read = None, dev_write = None\<rparr>, default_dev = None\<rparr>"

theorem ata_init_registers_nothing_witness:
  "storage_get_default (fst (ata_init ready_ports (\<lambda>d lba n. (1, [])) (\<lambda>d lba n b. (1, d)) 0 no_storage ())) = None \<and>
   dev_read (devices (fst (ata_init ready_ports (\<lambda>d lba n. (1, [])) (\<lambda>d lba n b. (1, d)) 0 no_storage ())) 0) \<noteq> None"
proof -
  have "wait_busy_loop ready_ports (Suc n) () = (True, ())" "wait_drq_loop ready_ports (Suc n) () = (True, ())" for n
    by (simp_all add: ready_ports_def)
  then have "wait_busy_loop ready_ports 100000 () = (True, ())" "wait_drq_loop ready_ports 100000 () = (True, ())"
    using Suc_pred [of 100000] by (metis zero_less_numeral)+
  moreover have "fst (in8 ready_ports 0x1F7 ()) = 8" by (simp add: ready_ports_def)
  ultimately have "dev_read (devices (fst (ata_init ready_ports (\<lambda>d lba n. (1, [])) (\<lambda>d lba n b. (1, d)) 0 no_storage ())) 0) \<noteq> None"
    by (simp add: ata_init_def ata_identify_primary_def split_beta Let_def)
  moreover have "default_dev no_storage = None" by (simp add: no_storage_def)
  ultimately show ?thesis using ata_init_registers_nothing [of no_storage ready_ports "\<lambda>d lba n. (1, [])" "\<lambda>d lba n b. (1, d)" 0 "()"] by simp
qed

end
