(* ===== verification/Paging.thy ===== *)
theory Paging
  imports Kernel_Prelude
begin

text \<open>
  The page tables (\<^verbatim>\<open>src/mm/paging.c\<close>). The directory and the sixteen tables are lists of
  1024 entries; the linker places the two arrays of tables at the addresses \<open>low\<close> and
  \<open>high\<close>, table \<open>t\<close> of an array \<open>4096 * t\<close> bytes into it. Loading the registers that
  switch paging on is assembly; the reference below is the translation the processor then
  performs.
\<close>

record page_tables =
  page_directory :: "u32 list"
  page_tables_low :: "u32 list list"
  page_tables_high :: "u32 list list"

subsection \<open>The code\<close>

text \<open>The inner loop of both functions: all entries of the table \<open>t\<close>.\<close>

definition table_entries :: "u32 \<Rightarrow> u32 \<Rightarrow> u32 list" where
  "table_entries t bits = map (\<lambda>i. ((t * 1024) + of_nat i) * 4096 OR bits) [0..<1024]"

function map_identity_loop :: "u32 \<Rightarrow> u32 \<Rightarrow> u32 \<Rightarrow> u32 \<Rightarrow> page_tables \<Rightarrow> page_tables" where
  "map_identity_loop low start count mb s =
     (if mb < count then
        let t = start + mb in
        if t \<ge> 8 then s
        else map_identity_loop low start count (mb + 1)
          (s\<lparr>page_tables_low := (page_tables_low s)[unat t := table_entries t 7],
             page_directory := (page_directory s)[unat t := (low + t * 4096) OR 7]\<rparr>)
      else s)"
  by pat_completeness auto
termination
  by (relation "measure (\<lambda>(low, start, count, mb, s). unat count - unat mb)") auto

definition map_identity_range :: "u32 \<Rightarrow> u32 \<Rightarrow> u32 \<Rightarrow> page_tables \<Rightarrow> page_tables" where
  "map_identity_range low start_mb count_mb s = map_identity_loop low start_mb count_mb 0 s"

function map_high_loop :: "u32 \<Rightarrow> u32 \<Rightarrow> u32 \<Rightarrow> u32 \<Rightarrow> page_tables \<Rightarrow> page_tables" where
  "map_high_loop high base count mb s =
     (if mb < count then
        let t = base + mb in
        if t \<ge> 8 then s
        else map_high_loop high base count (mb + 1)
          (s\<lparr>page_tables_high := (page_tables_high s)[unat t := table_entries t 3],
             page_directory := (page_directory s)[768 + unat t := (high + t * 4096) OR 3]\<rparr>)
      else s)"
  by pat_completeness auto
termination
  by (relation "measure (\<lambda>(high, base, count, mb, s). unat count - unat mb)") auto

declare map_identity_loop.simps [simp del] map_high_loop.simps [simp del]

definition map_high_kernel :: "u32 \<Rightarrow> u32 \<Rightarrow> u32 \<Rightarrow> page_tables \<Rightarrow> page_tables" where
  "map_high_kernel high base_mb count_mb s = map_high_loop high base_mb count_mb 0 s"

definition paging_init :: "u32 \<Rightarrow> u32 \<Rightarrow> page_tables" where
  "paging_init low high =
     (let s = \<lparr>page_directory = replicate 1024 0, page_tables_low = replicate 8 (replicate 1024 0),
               page_tables_high = replicate 8 (replicate 1024 0)\<rparr>;
          s = map_identity_range low 0 8 s
      in map_high_kernel high 0 8 s)"

subsection \<open>The translation\<close>

text \<open>The table at a physical address.\<close>

definition table_at :: "u32 \<Rightarrow> u32 \<Rightarrow> page_tables \<Rightarrow> u32 \<Rightarrow> u32 list option" where
  "table_at low high s a =
     map_of (map (\<lambda>t. (low + of_nat t * 4096, page_tables_low s ! t)) [0..<8] @
             map (\<lambda>t. (high + of_nat t * 4096, page_tables_high s ! t)) [0..<8]) a"

text \<open>The walk of the processor: the physical address and whether user mode may access it.\<close>

definition translate :: "u32 \<Rightarrow> u32 \<Rightarrow> page_tables \<Rightarrow> u32 \<Rightarrow> (u32 \<times> bool) option" where
  "translate low high s va =
     (let pde = page_directory s ! unat (drop_bit 22 va) in
      if pde AND 1 = 0 then None
      else
        case table_at low high s (pde AND NOT 0xFFF) of
          None \<Rightarrow> None
        | Some table \<Rightarrow>
            let pte = table ! unat (drop_bit 12 va AND 0x3FF) in
            if pte AND 1 = 0 then None
            else Some ((pte AND NOT 0xFFF) OR (va AND 0xFFF), pde AND 4 \<noteq> 0 \<and> pte AND 4 \<noteq> 0))"

subsection \<open>The tables after initialisation\<close>

lemma map_identity_loop_spec:
  "start = 0 \<Longrightarrow> count = 8 \<Longrightarrow> mb \<le> 8 \<Longrightarrow> length (page_directory s) = 1024 \<Longrightarrow> length (page_tables_low s) = 8 \<Longrightarrow>
   let s' = map_identity_loop low start count mb s in
   page_tables_high s' = page_tables_high s \<and> length (page_directory s') = 1024 \<and> length (page_tables_low s') = 8 \<and>
   (\<forall>i < 1024. page_directory s' ! i = (if unat mb \<le> i \<and> i < 8 then (low + of_nat i * 4096) OR 7 else page_directory s ! i)) \<and>
   (\<forall>i < 8. page_tables_low s' ! i = (if unat mb \<le> i then table_entries (of_nat i) 7 else page_tables_low s ! i))"
proof (induction low start count mb s rule: map_identity_loop.induct)
  case (1 low start count mb s)
  show ?case
  proof (cases "mb < 8")
    case False
    then have "mb = 8" using 1(4) by simp
    with 1 show ?thesis by (auto simp: Let_def map_identity_loop.simps [of low 0 8 8])
  next
    case True
    let ?s = "s\<lparr>page_tables_low := (page_tables_low s)[unat mb := table_entries mb 7],
             page_directory := (page_directory s)[unat mb := (low + mb * 4096) OR 7]\<rparr>"
    have m: "unat mb < 8" "unat (mb + 1) = Suc (unat mb)" using True unat_succ_less [OF True] by (simp_all add: word_less_nat_alt)
    have step: "map_identity_loop low start count mb s = map_identity_loop low start count (mb + 1) ?s"
      using True 1(2,3) by (subst map_identity_loop.simps) simp
    have le: "mb + 1 \<le> 8" using True by (simp add: inc_le)
    have IH: "let s' = map_identity_loop low start count (mb + 1) ?s in
       page_tables_high s' = page_tables_high ?s \<and> length (page_directory s') = 1024 \<and> length (page_tables_low s') = 8 \<and>
       (\<forall>i < 1024. page_directory s' ! i = (if unat (mb + 1) \<le> i \<and> i < 8 then (low + of_nat i * 4096) OR 7 else page_directory ?s ! i)) \<and>
       (\<forall>i < 8. page_tables_low s' ! i = (if unat (mb + 1) \<le> i then table_entries (of_nat i) 7 else page_tables_low ?s ! i))"
      using 1(1) [of mb] True 1(2,3,5,6) le by simp
    show ?thesis
      unfolding step using IH m 1(5,6) by (auto simp: Let_def nth_list_update Suc_le_eq le_less)
  qed
qed

lemma map_high_loop_spec:
  "base = 0 \<Longrightarrow> count = 8 \<Longrightarrow> mb \<le> 8 \<Longrightarrow> length (page_directory s) = 1024 \<Longrightarrow> length (page_tables_high s) = 8 \<Longrightarrow>
   let s' = map_high_loop high base count mb s in
   page_tables_low s' = page_tables_low s \<and> length (page_directory s') = 1024 \<and> length (page_tables_high s') = 8 \<and>
   (\<forall>i < 1024. page_directory s' ! i =
      (if 768 + unat mb \<le> i \<and> i < 776 then (high + of_nat (i - 768) * 4096) OR 3 else page_directory s ! i)) \<and>
   (\<forall>i < 8. page_tables_high s' ! i = (if unat mb \<le> i then table_entries (of_nat i) 3 else page_tables_high s ! i))"
proof (induction high base count mb s rule: map_high_loop.induct)
  case (1 high base count mb s)
  show ?case
  proof (cases "mb < 8")
    case False
    then have "mb = 8" using 1(4) by simp
    with 1 show ?thesis by (auto simp: Let_def map_high_loop.simps [of high 0 8 8])
  next
    case True
    let ?s = "s\<lparr>page_tables_high := (page_tables_high s)[unat mb := table_entries mb 3],
             page_directory := (page_directory s)[768 + unat mb := (high + mb * 4096) OR 3]\<rparr>"
    have m: "unat mb < 8" "unat (mb + 1) = Suc (unat mb)" using True unat_succ_less [OF True] by (simp_all add: word_less_nat_alt)
    have step: "map_high_loop high base count mb s = map_high_loop high base count (mb + 1) ?s"
      using True 1(2,3) by (subst map_high_loop.simps) simp
    have le: "mb + 1 \<le> 8" using True by (simp add: inc_le)
    have IH: "let s' = map_high_loop high base count (mb + 1) ?s in
       page_tables_low s' = page_tables_low ?s \<and> length (page_directory s') = 1024 \<and> length (page_tables_high s') = 8 \<and>
       (\<forall>i < 1024. page_directory s' ! i =
          (if 768 + unat (mb + 1) \<le> i \<and> i < 776 then (high + of_nat (i - 768) * 4096) OR 3 else page_directory ?s ! i)) \<and>
       (\<forall>i < 8. page_tables_high s' ! i = (if unat (mb + 1) \<le> i then table_entries (of_nat i) 3 else page_tables_high ?s ! i))"
      using 1(1) [of mb] True 1(2,3,5,6) le by simp
    have at: "i = 768 + unat mb \<Longrightarrow> of_nat (i - 768) = mb" for i by simp
    show ?thesis
      unfolding step using IH m 1(5,6) at by (auto simp: Let_def nth_list_update Suc_le_eq le_less)
  qed
qed

lemma paging_init_tables:
  shows low_tables: "t < 8 \<Longrightarrow> page_tables_low (paging_init low high) ! t = table_entries (of_nat t) 7"
    and high_tables: "t < 8 \<Longrightarrow> page_tables_high (paging_init low high) ! t = table_entries (of_nat t) 3"
    and directory: "d < 1024 \<Longrightarrow> page_directory (paging_init low high) ! d =
      (if d < 8 then (low + of_nat d * 4096) OR 7
       else if 768 \<le> d \<and> d < 776 then (high + of_nat (d - 768) * 4096) OR 3 else 0)"
proof -
  let ?s0 = "\<lparr>page_directory = replicate 1024 0, page_tables_low = replicate 8 (replicate 1024 0),
               page_tables_high = replicate 8 (replicate 1024 0)\<rparr> :: page_tables"
  let ?s1 = "map_identity_loop low 0 8 0 ?s0"
  note 1 = map_identity_loop_spec [of 0 8 0 ?s0 low, simplified Let_def]
  note 2 = map_high_loop_spec [of 0 8 0 ?s1 high, simplified Let_def]
  have init: "paging_init low high = map_high_loop high 0 8 0 ?s1"
    by (simp add: paging_init_def map_identity_range_def map_high_kernel_def)
  show "t < 8 \<Longrightarrow> page_tables_low (paging_init low high) ! t = table_entries (of_nat t) 7"
    "t < 8 \<Longrightarrow> page_tables_high (paging_init low high) ! t = table_entries (of_nat t) 3"
    "d < 1024 \<Longrightarrow> page_directory (paging_init low high) ! d =
      (if d < 8 then (low + of_nat d * 4096) OR 7
       else if 768 \<le> d \<and> d < 776 then (high + of_nat (d - 768) * 4096) OR 3 else 0)"
    unfolding init using 1 2 by simp_all
qed

subsection \<open>Page-aligned words\<close>

lemma page_mask: "(0xFFF :: u32) = mask 12"
  by (simp add: mask_eq_exp_minus_1)

lemma aligned_nth:
  assumes x: "x AND mask 12 = (0 :: u32)" and n: "bit x n"
  shows "12 \<le> n"
proof (rule ccontr)
  assume "\<not> 12 \<le> n"
  then have "bit (x AND mask 12) n" using n by (simp add: bit_simps)
  with x show False by simp
qed

lemma flag_nth:
  assumes f: "f AND NOT (mask 12) = (0 :: u32)" and n: "bit f n"
  shows "n < 12"
proof (rule ccontr)
  assume "\<not> n < 12"
  moreover have "n < 32" using bit_imp_le_length [OF n] by simp
  ultimately have "bit (f AND NOT (mask 12)) n" using n by (simp add: bit_simps)
  with f show False by simp
qed

lemma aligned_flags:
  fixes x f :: u32
  assumes x: "x AND mask 12 = 0" and f: "f AND NOT (mask 12) = 0"
  shows "(x OR f) AND NOT (mask 12) = x"
  using aligned_nth [OF x] flag_nth [OF f]
  by (auto intro!: bit_word_eqI simp: bit_simps) (meson leD)+

lemma flag_bits:
  fixes x f :: u32
  assumes x: "x AND mask 12 = 0" and b: "b AND NOT (mask 12) = 0"
  shows "(x OR f) AND b = f AND b"
proof (rule bit_word_eqI)
  fix n :: nat
  assume "n < LENGTH(32)"
  show "bit ((x OR f) AND b) n = bit (f AND b) n"
    using aligned_nth [OF x, of n] flag_nth [OF b, of n] by (auto simp: bit_simps)
qed

lemma aligned_add: "x AND mask 12 = (0 :: u32) \<Longrightarrow> (x + k * 4096) AND mask 12 = 0"
proof -
  assume "x AND mask 12 = 0"
  then have "2 ^ 12 dvd unat x" by (simp only: and_mask_dvd_nat)
  moreover have "unat (x + k * 4096) = (unat x + unat k * 2 ^ 12) mod 2 ^ 32"
    by (simp add: unat_word_ariths mod_simps)
  ultimately have "2 ^ 12 dvd unat (x + k * 4096)"
    by (simp add: dvd_mod)
  then show ?thesis by (simp only: and_mask_dvd_nat)
qed

subsection \<open>The walk\<close>

definition table_addresses :: "u32 \<Rightarrow> u32 \<Rightarrow> u32 list" where
  "table_addresses low high =
     map (\<lambda>t. low + of_nat t * 4096) [0..<8] @ map (\<lambda>t. high + of_nat t * 4096) [0..<8]"

lemma table_at_tables:
  assumes "distinct (table_addresses low high)" and t: "t < 8"
  shows "table_at low high s (low + of_nat t * 4096) = Some (page_tables_low s ! t)"
    and "table_at low high s (high + of_nat t * 4096) = Some (page_tables_high s ! t)"
proof -
  let ?l = "map (\<lambda>t. (low + of_nat t * 4096, page_tables_low s ! t)) [0..<8] @
            map (\<lambda>t. (high + of_nat t * 4096, page_tables_high s ! t)) [0..<8]"
  have "map fst ?l = table_addresses low high" by (simp add: table_addresses_def)
  then have d: "distinct (map fst ?l)" using assms(1) by metis
  show "table_at low high s (low + of_nat t * 4096) = Some (page_tables_low s ! t)"
    "table_at low high s (high + of_nat t * 4096) = Some (page_tables_high s ! t)"
    unfolding table_at_def using t by (auto intro!: map_of_is_SomeI [OF d] simp del: map_of_append)
qed

lemma unat_word_inverse: "of_nat (unat x) = (x :: u32)"
  by simp

lemma entry_aligned: "(y * 4096) AND mask 12 = (0 :: u32)"
  using aligned_add [of 0 y] by simp

lemma page_offset_add:
  fixes x :: u32
  assumes x: "x AND mask 12 = 0"
  shows "x OR (va AND mask 12) = x + (va AND mask 12)"
proof -
  have "x AND (va AND mask 12) = (x AND mask 12) AND va" by (metis and.assoc and.commute)
  then show ?thesis using x by (simp add: disjunctive_add_eq_or)
qed

lemma table_walk:
  assumes i: "i < 1024" and f: "f AND NOT (mask 12) = 0"
  shows "(table_entries (of_nat t) f ! i AND NOT (mask 12)) OR (va AND mask 12) =
      of_nat (t * 2 ^ 22 + i * 2 ^ 12 + unat va mod 2 ^ 12)"
    and "b AND NOT (mask 12) = 0 \<Longrightarrow> table_entries (of_nat t) f ! i AND b = f AND b"
proof -
  have e: "table_entries (of_nat t) f ! i = (of_nat t * 1024 + of_nat i) * 4096 OR f"
    using i by (simp add: table_entries_def)
  have o: "va AND mask 12 = of_nat (unat va mod 2 ^ 12)"
    using unat_word_inverse [of "va mod 4096"] by (simp flip: take_bit_eq_mask add: take_bit_eq_mod unat_mod)
  show "(table_entries (of_nat t) f ! i AND NOT (mask 12)) OR (va AND mask 12) =
      of_nat (t * 2 ^ 22 + i * 2 ^ 12 + unat va mod 2 ^ 12)"
    unfolding e aligned_flags [OF entry_aligned f] unfolding page_offset_add [OF entry_aligned] unfolding o
    by (simp add: algebra_simps)
  show "b AND NOT (mask 12) = 0 \<Longrightarrow> table_entries (of_nat t) f ! i AND b = f AND b"
    unfolding e by (rule flag_bits [OF entry_aligned])
qed

text \<open>A present directory entry that points at a filled table translates its four megabytes.\<close>

lemma translate_table:
  fixes a va :: u32
  assumes a: "a AND mask 12 = 0" and f: "f = 7 \<or> f = 3"
    and pde: "page_directory s ! (unat va div 2 ^ 22) = a OR f"
    and tab: "table_at low high s a = Some (table_entries (of_nat t) f)"
  shows "translate low high s va = Some (of_nat (t * 2 ^ 22 + unat va mod 2 ^ 22), f = 7)"
proof -
  have small: "f AND NOT (mask 12) = 0" "(1 :: u32) AND NOT (mask 12) = 0" "(4 :: u32) AND NOT (mask 12) = 0"
    using f by (auto simp flip: page_mask)
  have bits: "f AND 1 = 1" "f AND 4 \<noteq> 0 \<longleftrightarrow> f = 7" using f by auto
  have d: "unat (drop_bit 22 va) = unat va div 2 ^ 22" by (simp add: unat_drop_bit_eq drop_bit_eq_div unat_div)
  have i: "unat (drop_bit 12 va AND 0x3FF) = unat va div 2 ^ 12 mod 2 ^ 10"
  proof -
    have m: "(0x3FF :: u32) = mask 10" by (simp add: mask_eq_exp_minus_1)
    show ?thesis
      unfolding m take_bit_eq_mask [symmetric]
      by (simp add: take_bit_eq_mod unat_mod unat_div drop_bit_eq_div)
  qed
  let ?i = "unat va div 2 ^ 12 mod 2 ^ 10"
  have lt: "?i < 1024" by simp
  have "t * 2 ^ 22 + ?i * 2 ^ 12 + unat va mod 2 ^ 12 = t * 2 ^ 22 + unat va mod 2 ^ 22"
  proof -
    have "unat va mod (2 ^ 12 * 2 ^ 10) = 2 ^ 12 * ?i + unat va mod 2 ^ 12" by (rule mod_mult2_eq)
    then show ?thesis by simp
  qed
  note walk = table_walk(1) [OF lt small(1), of t va, unfolded this] table_walk(2) [OF lt small(1) small(2), of t]
    table_walk(2) [OF lt small(1) small(3), of t]
  show ?thesis
    unfolding translate_def Let_def d i pde page_mask aligned_flags [OF a small(1)] tab
      flag_bits [OF a small(2)] flag_bits [OF a small(3)] option.case walk bits
    by simp
qed

lemma translate_absent:
  "page_directory s ! (unat va div 2 ^ 22) = 0 \<Longrightarrow> translate low high s va = None"
  by (simp add: translate_def unat_drop_bit_eq drop_bit_eq_div unat_div)

subsection \<open>The address space of the kernel\<close>

definition mapped :: "u32 \<Rightarrow> (u32 \<times> bool) option" where
  "mapped va =
     (if va < 0x2000000 then Some (va, True)
      else if 0xC0000000 \<le> va \<and> va < 0xC2000000 then Some (va - 0xC0000000, False)
      else None)"

lemma translate_paging_init:
  assumes low: "low AND 0xFFF = 0" and high: "high AND 0xFFF = 0"
    and distinct: "distinct (table_addresses low high)"
  shows "translate low high (paging_init low high) va = mapped va"
proof -
  let ?s = "paging_init low high"
  let ?d = "unat va div 2 ^ 22"
  note low = low [unfolded page_mask] and high = high [unfolded page_mask]
  have d: "?d < 1024" using unat_u32 [of va] by (simp add: less_mult_imp_div_less)
  have va: "va < 0x2000000 \<longleftrightarrow> ?d < 8" "0xC0000000 \<le> va \<and> va < 0xC2000000 \<longleftrightarrow> 768 \<le> ?d \<and> ?d < 776"
    by (auto simp: word_less_nat_alt word_le_nat_alt)
  consider (low) "?d < 8" | (high) "768 \<le> ?d" "?d < 776" | (none) "8 \<le> ?d" "\<not> (768 \<le> ?d \<and> ?d < 776)"
    by linarith
  then show ?thesis
  proof cases
    case low
    have "translate low high ?s va = Some (of_nat (?d * 2 ^ 22 + unat va mod 2 ^ 22), (7 :: u32) = 7)"
    proof (rule translate_table [OF aligned_add [OF \<open>low AND mask 12 = 0\<close>, of "of_nat ?d"]])
      show "page_directory ?s ! ?d = (low + of_nat ?d * 4096) OR 7"
        using directory [OF d, of low high] low by simp
      show "table_at low high ?s (low + of_nat ?d * 4096) = Some (table_entries (of_nat ?d) 7)"
        unfolding table_at_tables(1) [OF distinct low] low_tables [OF low] ..
    qed simp
    then show ?thesis using low va by (simp add: mapped_def)
  next
    case high
    have tr: "translate low high ?s va = Some (of_nat ((?d - 768) * 2 ^ 22 + unat va mod 2 ^ 22), (3 :: u32) = 7)"
    proof (rule translate_table [OF aligned_add [OF \<open>high AND mask 12 = 0\<close>, of "of_nat (?d - 768)"]])
      have t: "?d - 768 < 8" using high by linarith
      show "page_directory ?s ! ?d = (high + of_nat (?d - 768) * 4096) OR 3"
        using directory [OF d, of low high] high by simp
      show "table_at low high ?s (high + of_nat (?d - 768) * 4096) = Some (table_entries (of_nat (?d - 768)) 3)"
        unfolding table_at_tables(2) [OF distinct t] high_tables [OF t] ..
    qed simp
    have eq: "(?d - 768) * 2 ^ 22 + unat va mod 2 ^ 22 = unat (va - 0xC0000000)"
    proof -
      have "unat (va - 0xC0000000) = unat va - 0xC0000000" using high va by (simp add: unat_sub)
      moreover have "?d * 2 ^ 22 + unat va mod 2 ^ 22 = unat va" by (rule div_mult_mod_eq)
      ultimately show ?thesis using high by (simp add: diff_mult_distrib)
    qed
    show ?thesis using tr high va unfolding eq unat_word_inverse by (simp add: mapped_def)
  next
    case none
    then have "page_directory ?s ! ?d = 0" using directory [OF d, of low high] by auto
    then have "translate low high ?s va = None" by (rule translate_absent)
    then show ?thesis using none va by (auto simp: mapped_def)
  qed
qed

text \<open>
  C15. Address space: with the tables \<open>paging_init\<close> fills, placed anywhere page-aligned and
  disjoint, the processor translates the first 32 MB to themselves, accessible from user mode,
  and the 32 MB from \<open>0xC0000000\<close> on to the same physical memory, for the kernel only; every
  other address faults.
\<close>

theorem paging_translation:
  assumes low: "low AND 0xFFF = 0" and high: "high AND 0xFFF = 0"
    and distinct: "distinct (table_addresses low high)"
  shows "translate low high (paging_init low high) va = mapped va"
  by (rule translate_paging_init [OF assms])

theorem paging_translation_witness:
  "translate 0x200000 0x210000 (paging_init 0x200000 0x210000) 0xC0123456 = Some (0x123456, False) \<and>
   translate 0x200000 0x210000 (paging_init 0x200000 0x210000) 0x123456 = Some (0x123456, True) \<and>
   translate 0x200000 0x210000 (paging_init 0x200000 0x210000) 0x2000000 = None"
proof -
  have "distinct (table_addresses 0x200000 0x210000)" by (simp add: table_addresses_def upt_rec)
  note p = paging_translation [OF _ _ this, simplified]
  show ?thesis unfolding p by (simp add: mapped_def)
qed

end
