(* ===== verification/Shell_Parser.thy ===== *)
theory Shell_Parser
  imports Kprintf
begin

text \<open>
  The command line parser of the kernel shell (\<^verbatim>\<open>src/user/shell.c\<close>). It works in place: the
  line is a string in memory, the arguments are addresses inside it, and terminators are
  stored over the blanks and closing quotes. The vector \<^verbatim>\<open>argv\<close> is the list of the addresses
  stored so far, so \<^verbatim>\<open>argc\<close> is its length.
\<close>

subsection \<open>The code\<close>

definition blank :: "u8 \<Rightarrow> bool" where
  "blank c \<longleftrightarrow> c = of_char (CHR '' '') \<or> c = 9"

definition trailing :: "u8 \<Rightarrow> bool" where
  "trailing c \<longleftrightarrow> c = of_char (CHR '' '') \<or> c = 9 \<or> c = 13 \<or> c = 10"

partial_function (option) ltrim :: "memory \<Rightarrow> u32 \<Rightarrow> u32 option" where
  "ltrim m s = (if blank (load8 m s) then ltrim m (s + 1) else Some s)"

function rtrim_loop :: "u32 \<Rightarrow> int \<Rightarrow> memory \<Rightarrow> memory" where
  "rtrim_loop s i m =
     (if i \<ge> 0 \<and> trailing (load8 m (s + word_of_int i))
      then rtrim_loop s (i - 1) (store8 m (s + word_of_int i) 0)
      else m)"
  by pat_completeness auto
termination by (relation "measure (\<lambda>(s, i, m). nat (i + 1))") auto

declare rtrim_loop.simps [simp del]

definition rtrim :: "u32 \<Rightarrow> memory \<Rightarrow> memory option" where
  "rtrim s m = Option.bind (strlen m s) (\<lambda>len. Some (rtrim_loop s (sint len - 1) m))"

partial_function (option) skip_quoted :: "memory \<Rightarrow> u32 \<Rightarrow> u32 option" where
  "skip_quoted m p = (if load8 m p \<noteq> 0 \<and> load8 m p \<noteq> 34 then skip_quoted m (p + 1) else Some p)"

partial_function (option) skip_word :: "memory \<Rightarrow> u32 \<Rightarrow> u32 option" where
  "skip_word m p = (if load8 m p \<noteq> 0 \<and> \<not> blank (load8 m p) then skip_word m (p + 1) else Some p)"

partial_function (option) clear_blanks :: "u32 \<Rightarrow> memory \<Rightarrow> (u32 \<times> memory) option" where
  "clear_blanks p m = (if blank (load8 m p) then clear_blanks (p + 1) (store8 m p 0) else Some (p, m))"

text \<open>One argument: its address, the position behind it and the memory.\<close>

definition parse_arg :: "u32 \<Rightarrow> memory \<Rightarrow> (u32 \<times> u32 \<times> memory) option" where
  "parse_arg p m =
     (if load8 m p = 34 then
        let arg = p + 1 in
        Option.bind (skip_quoted m arg) (\<lambda>p.
          Some (if load8 m p = 34 then (arg, p + 1, store8 m p 0) else (arg, p, m)))
      else
        let arg = p in Option.bind (skip_word m arg) (\<lambda>p. Some (arg, p, m)))"

partial_function (option) parse_args_loop :: "int \<Rightarrow> u32 \<Rightarrow> u32 list \<Rightarrow> memory \<Rightarrow> (u32 list \<times> memory) option" where
  "parse_args_loop max_args p argv m =
     (if load8 m p \<noteq> 0 \<and> int (length argv) < max_args then
        Option.bind (parse_arg p m) (\<lambda>(arg, p, m).
        Option.bind (clear_blanks p m) (\<lambda>(p, m).
        parse_args_loop max_args p (argv @ [arg]) m))
      else Some (argv, m))"

definition parse_line :: "u32 \<Rightarrow> int \<Rightarrow> memory \<Rightarrow> (u32 list \<times> memory) option" where
  "parse_line line max_args m =
     Option.bind (ltrim m line) (\<lambda>p.
     Option.bind (rtrim p m) (\<lambda>m.
     if load8 m p = 0 then Some ([], m) else parse_args_loop max_args p [] m))"

subsection \<open>The arguments of a line\<close>

definition next_token :: "u8 list \<Rightarrow> u8 list \<times> u8 list" where
  "next_token bs =
     (if bs \<noteq> [] \<and> hd bs = 34
      then (takeWhile (\<lambda>c. c \<noteq> 34) (tl bs), dropWhile blank (tl (dropWhile (\<lambda>c. c \<noteq> 34) (tl bs))))
      else (takeWhile (\<lambda>c. \<not> blank c) bs, dropWhile blank (dropWhile (\<lambda>c. \<not> blank c) bs)))"

fun split_tokens :: "nat \<Rightarrow> u8 list \<Rightarrow> u8 list list" where
  "split_tokens 0 bs = []"
| "split_tokens (Suc n) bs =
     (if bs = [] then [] else fst (next_token bs) # split_tokens n (snd (next_token bs)))"

definition strip :: "u8 list \<Rightarrow> u8 list" where
  "strip bs = rev (dropWhile trailing (rev (dropWhile blank bs)))"

definition tokens :: "nat \<Rightarrow> u8 list \<Rightarrow> u8 list list" where
  "tokens n bs = split_tokens n (strip bs)"

subsection \<open>Strings under stores\<close>

lemma cstring_iff:
  "cstring m a bs \<longleftrightarrow> (\<forall>j < length bs. m (a + of_nat j) = bs ! j \<and> bs ! j \<noteq> 0) \<and> m (a + of_nat (length bs)) = 0"
proof (induction bs arbitrary: a)
  case (Cons b bs)
  show ?case unfolding cstring.simps Cons.IH
    by (auto simp: less_Suc_eq_0_disj add.assoc)
qed simp

text \<open>\<open>m'\<close> differs from \<open>m\<close> only at the offsets from \<open>i\<close> up to \<open>k\<close> behind \<open>p\<close>.\<close>

definition changed_within :: "u32 \<Rightarrow> nat \<Rightarrow> nat \<Rightarrow> memory \<Rightarrow> memory \<Rightarrow> bool" where
  "changed_within p i k m m' \<longleftrightarrow> (\<forall>x. m' x \<noteq> m x \<longrightarrow> (\<exists>j. i \<le> j \<and> j < k \<and> x = p + of_nat j))"

lemma changed_within_refl [simp]: "changed_within p i k m m"
  by (simp add: changed_within_def)

lemma changed_within_trans:
  "changed_within p i k m m1 \<Longrightarrow> changed_within p i k m1 m2 \<Longrightarrow> changed_within p i k m m2"
  unfolding changed_within_def by metis

lemma changed_within_mono:
  "changed_within p i k m m' \<Longrightarrow> i' \<le> i \<Longrightarrow> k \<le> k' \<Longrightarrow> changed_within p i' k' m m'"
  unfolding changed_within_def by (meson le_trans less_le_trans)

lemma changed_within_shift:
  assumes "changed_within (p + of_nat d) i k m m'"
  shows "changed_within p (d + i) (d + k) m m'"
  unfolding changed_within_def
proof (intro allI impI)
  fix x
  assume "m' x \<noteq> m x"
  with assms obtain j where "i \<le> j" "j < k" "x = p + of_nat d + of_nat j" unfolding changed_within_def by blast
  then show "\<exists>j. d + i \<le> j \<and> j < d + k \<and> x = p + of_nat j"
    by (intro exI [of _ "d + j"]) (simp add: add.assoc)
qed

lemma changed_within_store: "i \<le> j \<Longrightarrow> j < k \<Longrightarrow> changed_within p i k m (store8 m (p + of_nat j) v)"
  unfolding changed_within_def store8_def by auto

lemma offset_eq_iff: "j < 2 ^ 32 \<Longrightarrow> k < 2 ^ 32 \<Longrightarrow> (p :: u32) + of_nat j = p + of_nat k \<longleftrightarrow> j = k"
proof -
  assume "j < 2 ^ 32" "k < 2 ^ 32"
  then have "unat (of_nat j :: u32) = j" "unat (of_nat k :: u32) = k" by (simp_all add: unat_of_nat_small)
  then show ?thesis by (metis add_left_cancel)
qed

lemma changed_within_apply:
  assumes "changed_within p i k m m'" and "j < i \<or> k \<le> j" and "j < 2 ^ 32" and "k \<le> 2 ^ 32"
  shows "m' (p + of_nat j) = m (p + of_nat j)"
proof (rule ccontr)
  assume "m' (p + of_nat j) \<noteq> m (p + of_nat j)"
  with assms(1) obtain l where "i \<le> l" "l < k" "p + of_nat j = p + of_nat l" unfolding changed_within_def by blast
  then show False using assms offset_eq_iff [of j l p] by simp
qed

lemma cstring_changed:
  assumes "cstring m (p + of_nat d) bs" and "changed_within p i k m m'"
    and "d + length bs < i \<or> k \<le> d" and "d + length bs < 2 ^ 32" and "k \<le> 2 ^ 32"
  shows "cstring m' (p + of_nat d) bs"
proof -
  have "m' (p + of_nat d + of_nat j) = m (p + of_nat d + of_nat j)" if "j \<le> length bs" for j
    using changed_within_apply [OF assms(2), of "d + j"] assms(3-) that by (auto simp: add.assoc)
  with assms(1) show ?thesis by (auto simp: cstring_iff)
qed

lemma cstring_cut:
  assumes "cstring m p (xs @ ys)" and "length xs + length ys < 2 ^ 32"
  shows "cstring (store8 m (p + of_nat (length xs)) 0) p xs"
proof -
  have "p + of_nat j \<noteq> p + of_nat (length xs)" if "j < length xs" for j
    using that assms(2) offset_eq_iff [of j "length xs" p] by auto
  moreover have "m (p + of_nat j) = xs ! j \<and> xs ! j \<noteq> 0" if "j < length xs" for j
  proof -
    have "m (p + of_nat j) = (xs @ ys) ! j \<and> (xs @ ys) ! j \<noteq> 0"
      using assms(1) that unfolding cstring_iff by (simp add: trans_less_add1)
    then show ?thesis using that by (simp add: nth_append)
  qed
  ultimately show ?thesis by (simp add: cstring_iff store8_def)
qed

lemma cstring_drop: "cstring m p bs \<Longrightarrow> k \<le> length bs \<Longrightarrow> cstring m (p + of_nat k) (drop k bs)"
  using cstring_append [of m p "take k bs" "drop k bs"] by simp

lemma drop_takeWhile: "drop (length (takeWhile P xs)) xs = dropWhile P xs"
  by (metis dropWhile_eq_drop)

subsection \<open>The loops\<close>

lemma ltrim_spec: "cstring m p bs \<Longrightarrow> ltrim m p = Some (p + of_nat (length (takeWhile blank bs)))"
proof (induction bs arbitrary: p)
  case Nil
  then show ?case by (subst ltrim.simps) (simp add: load8_def blank_def)
next
  case (Cons b bs)
  then show ?case by (subst ltrim.simps) (simp add: load8_def add.assoc)
qed

lemma skip_quoted_spec:
  "cstring m p bs \<Longrightarrow> skip_quoted m p = Some (p + of_nat (length (takeWhile (\<lambda>c. c \<noteq> 34) bs)))"
proof (induction bs arbitrary: p)
  case Nil
  then show ?case by (subst skip_quoted.simps) (simp add: load8_def)
next
  case (Cons b bs)
  then show ?case by (subst skip_quoted.simps) (simp add: load8_def add.assoc)
qed

lemma skip_word_spec:
  "cstring m p bs \<Longrightarrow> skip_word m p = Some (p + of_nat (length (takeWhile (\<lambda>c. \<not> blank c) bs)))"
proof (induction bs arbitrary: p)
  case Nil
  then show ?case by (subst skip_word.simps) (simp add: load8_def)
next
  case (Cons b bs)
  then show ?case by (subst skip_word.simps) (simp add: load8_def add.assoc)
qed

lemma clear_blanks_spec:
  assumes "cstring m p bs" and "length bs < 2 ^ 32"
  shows "\<exists>m'. clear_blanks p m = Some (p + of_nat (length (takeWhile blank bs)), m') \<and>
    changed_within p 0 (length (takeWhile blank bs)) m m' \<and>
    (takeWhile blank bs \<noteq> [] \<longrightarrow> m' p = 0) \<and>
    cstring m' (p + of_nat (length (takeWhile blank bs))) (dropWhile blank bs)"
  using assms
proof (induction bs arbitrary: p m)
  case Nil
  then show ?case by (subst clear_blanks.simps) (simp add: load8_def blank_def)
next
  case (Cons b bs)
  show ?case
  proof (cases "blank b")
    case False
    with Cons.prems show ?thesis by (subst clear_blanks.simps) (simp add: load8_def)
  next
    case True
    let ?m = "store8 m p 0" and ?n = "length (takeWhile blank bs)"
    have ch: "changed_within p 0 1 m ?m" using changed_within_store [of 0 0 1 p m 0] by simp
    have "cstring m (p + of_nat 1) bs" using Cons.prems(1) by simp
    then have "cstring ?m (p + of_nat 1) bs"
      by (rule cstring_changed [OF _ ch]) (use Cons.prems(2) in simp_all)
    then obtain m' where m': "clear_blanks (p + 1) ?m = Some (p + 1 + of_nat ?n, m')"
      "changed_within (p + 1) 0 ?n ?m m'" "cstring m' (p + 1 + of_nat ?n) (dropWhile blank bs)"
      using Cons.IH [of ?m "p + 1"] Cons.prems(2) by auto
    have ch': "changed_within p 1 (1 + ?n) ?m m'" using changed_within_shift [of p 1 0 ?n] m'(2) by simp
    have "?n \<le> length bs" by (rule length_takeWhile_le)
    then have "m' p = 0"
      using changed_within_apply [OF ch', of 0] Cons.prems(2) by (simp add: store8_def)
    moreover have "changed_within p 0 (1 + ?n) m m'"
      using changed_within_trans [OF changed_within_mono [OF ch] changed_within_mono [OF ch']] by simp
    ultimately show ?thesis
      using True m'(1,3) Cons.prems(1) by (subst clear_blanks.simps) (simp add: load8_def add.assoc)
  qed
qed

text \<open>
  One round of the loop takes the token \<open>tok\<close> off the line and leaves \<open>rest\<close>: the token is a
  terminated string at the offset \<open>d\<close>, the round ends at the offset \<open>k\<close>, and only bytes
  before \<open>k\<close> have changed.
\<close>

definition takes :: "u32 \<Rightarrow> memory \<Rightarrow> u8 list \<Rightarrow> u8 list \<Rightarrow> u8 list \<Rightarrow> bool" where
  "takes p m bs tok rest \<longleftrightarrow> (\<exists>d k p1 m1 m2. parse_arg p m = Some (p + of_nat d, p1, m1) \<and>
    clear_blanks p1 m1 = Some (p + of_nat k, m2) \<and> changed_within p 0 k m m2 \<and> 0 < k \<and> k \<le> length bs \<and>
    cstring m2 (p + of_nat d) tok \<and> (d + length tok < k \<or> k = length bs \<and> d + length tok \<le> k) \<and>
    rest = drop k bs \<and> cstring m2 (p + of_nat k) rest)"

lemma takeWhile_unquoted:
  "x \<notin> set q \<Longrightarrow> takeWhile (\<lambda>c. c \<noteq> x) q = q"
  "x \<notin> set q \<Longrightarrow> takeWhile (\<lambda>c. c \<noteq> x) (q @ x # r) = q"
  "x \<notin> set q \<Longrightarrow> dropWhile (\<lambda>c. c \<noteq> x) q = []"
  "x \<notin> set q \<Longrightarrow> dropWhile (\<lambda>c. c \<noteq> x) (q @ x # r) = x # r"
  by (induction q) auto

lemma takes_open_quote:
  assumes cs: "cstring m p (34 # q)" and q: "34 \<notin> set q" and len: "length q < 2 ^ 31"
  shows "takes p m (34 # q) q []"
proof -
  have "skip_quoted m (p + 1) = Some (p + 1 + of_nat (length q))"
    using skip_quoted_spec [of m "p + 1" q] cs q by (simp add: takeWhile_unquoted)
  moreover have e: "cstring m (p + 1 + of_nat (length q)) []"
    using cstring_append [of m "p + 1" q "[]"] cs by simp
  ultimately have "parse_arg p m = Some (p + of_nat 1, p + 1 + of_nat (length q), m)"
    using cs by (simp add: parse_arg_def load8_def Let_def)
  moreover have "clear_blanks (p + 1 + of_nat (length q)) m = Some (p + of_nat (1 + length q), m)"
    using e by (subst clear_blanks.simps) (simp add: load8_def blank_def add.assoc)
  ultimately show ?thesis
    unfolding takes_def using cs e by (intro exI [of _ 1] exI [of _ "1 + length q"] exI) (auto simp: add.assoc)
qed

lemma takes_quoted:
  assumes cs: "cstring m p (34 # q @ 34 # r)" and q: "34 \<notin> set q" and len: "length q + length r < 2 ^ 31"
  shows "takes p m (34 # q @ 34 # r) q (dropWhile blank r)"
proof -
  let ?m1 = "store8 m (p + of_nat (1 + length q)) 0" and ?n = "length (takeWhile blank r)"
  let ?k = "2 + length q + ?n"
  have n: "?n \<le> length r" by (rule length_takeWhile_le)
  have cs1: "cstring m (p + 1) (q @ 34 # r)" using cs by simp
  have tw: "takeWhile (\<lambda>c. c \<noteq> 34) (q @ 34 # r) = q" using q by (rule takeWhile_unquoted)
  have "skip_quoted m (p + 1) = Some (p + 1 + of_nat (length q))"
    using skip_quoted_spec [OF cs1] tw by simp
  moreover have e: "cstring m (p + 1 + of_nat (length q)) (34 # r)" by (rule cstring_append [OF cs1])
  ultimately have arg: "parse_arg p m = Some (p + of_nat 1, p + of_nat (2 + length q), ?m1)"
    using cs by (simp add: parse_arg_def load8_def Let_def algebra_simps)
  have ch1: "changed_within p (1 + length q) (2 + length q) m ?m1" by (rule changed_within_store) simp_all
  have q1: "cstring ?m1 (p + 1) q" using cstring_cut [OF cs1] len by (simp add: add.assoc)
  have "cstring m (p + of_nat (2 + length q)) r" using e by (simp add: algebra_simps)
  then have r1: "cstring ?m1 (p + of_nat (2 + length q)) r"
    by (rule cstring_changed [OF _ ch1]) (use len in simp_all)
  obtain m2 where m2: "clear_blanks (p + of_nat (2 + length q)) ?m1 = Some (p + of_nat (2 + length q) + of_nat ?n, m2)"
    "changed_within (p + of_nat (2 + length q)) 0 ?n ?m1 m2"
    "cstring m2 (p + of_nat (2 + length q) + of_nat ?n) (dropWhile blank r)"
    using clear_blanks_spec [OF r1] len by auto
  have ch2: "changed_within p (2 + length q) ?k ?m1 m2" using changed_within_shift [OF m2(2)] by simp
  have "changed_within p 0 ?k m m2"
    using changed_within_trans [OF changed_within_mono [OF ch1] changed_within_mono [OF ch2]] by simp
  moreover have "cstring m2 (p + of_nat 1) q"
    by (rule cstring_changed [OF _ ch2]) (use q1 len n in simp_all)
  ultimately show ?thesis
    unfolding takes_def using arg m2(1,3) n
    by (intro exI [of _ 1] exI [of _ ?k] exI) (auto simp: add.assoc drop_takeWhile)
qed

lemma takes_word:
  assumes cs: "cstring m p bs" and ne: "bs \<noteq> []" "hd bs \<noteq> 34" "\<not> blank (hd bs)" and len: "length bs < 2 ^ 31"
  defines "w \<equiv> takeWhile (\<lambda>c. \<not> blank c) bs" and "r \<equiv> dropWhile (\<lambda>c. \<not> blank c) bs"
  shows "takes p m bs w (dropWhile blank r)"
proof -
  let ?n = "length (takeWhile blank r)" and ?k = "length w + length (takeWhile blank r)"
  have split: "bs = w @ r" by (simp add: w_def r_def)
  then have l: "length bs = length w + length r" by simp
  have n: "?n \<le> length r" by (rule length_takeWhile_le)
  have w: "w \<noteq> []" using ne by (cases bs) (simp_all add: w_def)
  have "load8 m p \<noteq> 34" using cs ne by (cases bs) (simp_all add: load8_def)
  then have arg: "parse_arg p m = Some (p + of_nat 0, p + of_nat (length w), m)"
    using skip_word_spec [OF cs] by (simp add: parse_arg_def w_def)
  have r1: "cstring m (p + of_nat (length w)) r" using cstring_append [of m p w r] cs split by simp
  obtain m2 where m2: "clear_blanks (p + of_nat (length w)) m = Some (p + of_nat (length w) + of_nat ?n, m2)"
    "changed_within (p + of_nat (length w)) 0 ?n m m2" "takeWhile blank r \<noteq> [] \<longrightarrow> m2 (p + of_nat (length w)) = 0"
    "cstring m2 (p + of_nat (length w) + of_nat ?n) (dropWhile blank r)"
    using clear_blanks_spec [OF r1] len l by auto
  have ch: "changed_within p (length w) ?k m m2" using changed_within_shift [OF m2(2)] by simp
  have rb: "r = [] \<or> takeWhile blank r \<noteq> []"
    using hd_dropWhile [of "\<lambda>c. \<not> blank c" bs] unfolding r_def [symmetric] by (cases r) auto
  have zero: "m2 (p + of_nat (length w)) = 0" using rb m2(3,4) by auto
  have "m2 (p + of_nat j) = w ! j \<and> w ! j \<noteq> 0" if "j < length w" for j
  proof -
    have "m2 (p + of_nat j) = m (p + of_nat j)"
      by (rule changed_within_apply [OF ch]) (use that len l n in simp_all)
    moreover have "m (p + of_nat j) = bs ! j \<and> bs ! j \<noteq> 0" using cs that l by (simp add: cstring_iff)
    ultimately show ?thesis using that split by (simp add: nth_append)
  qed
  with zero have tok: "cstring m2 p w" by (simp add: cstring_iff)
  have "length w < ?k \<or> ?k = length bs" using rb l by auto
  moreover have "drop ?k bs = dropWhile blank r" using split by (simp add: drop_takeWhile)
  ultimately show ?thesis
    unfolding takes_def using arg m2(1,4) ch tok n l w changed_within_mono [OF ch, of 0 ?k]
    by (intro exI [of _ 0] exI [of _ ?k] exI) (auto simp: add.assoc)
qed

lemma next_token_takes:
  assumes "cstring m p bs" and "bs \<noteq> []" and "\<not> blank (hd bs)" and "length bs < 2 ^ 31"
  shows "takes p m bs (fst (next_token bs)) (snd (next_token bs))"
proof (cases "hd bs = 34")
  case False
  then show ?thesis using takes_word [of m p bs] assms by (simp add: next_token_def)
next
  case True
  then obtain cs where bs: "bs = 34 # cs" using assms(2) by (cases bs) auto
  show ?thesis
  proof (cases "34 \<in> set cs")
    case False
    then show ?thesis using takes_open_quote [of m p cs] assms bs by (simp add: next_token_def takeWhile_unquoted)
  next
    case True
    then obtain q r where "cs = q @ 34 # r" "34 \<notin> set q" by (metis split_list_first)
    then show ?thesis using takes_quoted [of m p q r] assms bs by (simp add: next_token_def takeWhile_unquoted)
  qed
qed

lemma next_token_rest:
  "snd (next_token bs) = [] \<or> \<not> blank (hd (snd (next_token bs)))"
  using hd_dropWhile [of blank] by (auto simp: next_token_def)

lemma parse_args_loop_spec:
  assumes "cstring m p bs" and "bs = [] \<or> \<not> blank (hd bs)" and "length bs < 2 ^ 31"
    and "n = nat (mx - int (length argv))"
  shows "\<exists>args m'. parse_args_loop mx p argv m = Some (argv @ args, m') \<and>
    changed_within p 0 (length bs) m m' \<and> list_all2 (cstring m') args (split_tokens n bs)"
  using assms
proof (induction n arbitrary: m p bs argv)
  case 0
  then show ?case by (subst parse_args_loop.simps) simp
next
  case (Suc n)
  have room: "int (length argv) < mx" using Suc.prems(4) by linarith
  show ?case
  proof (cases "bs = []")
    case True
    then show ?thesis using Suc.prems(1) by (subst parse_args_loop.simps) (simp add: load8_def)
  next
    case False
    define tok rest where "tok = fst (next_token bs)" and "rest = snd (next_token bs)"
    have "takes p m bs tok rest"
      using next_token_takes [OF Suc.prems(1) False] Suc.prems(2,3) False by (simp add: tok_def rest_def)
    then obtain d k p1 m1 m2 where t: "parse_arg p m = Some (p + of_nat d, p1, m1)"
      "clear_blanks p1 m1 = Some (p + of_nat k, m2)" "changed_within p 0 k m m2" "0 < k" "k \<le> length bs"
      "cstring m2 (p + of_nat d) tok" "d + length tok < k \<or> k = length bs \<and> d + length tok \<le> k"
      "rest = drop k bs" "cstring m2 (p + of_nat k) rest" unfolding takes_def by blast
    have "rest = [] \<or> \<not> blank (hd rest)" unfolding rest_def by (rule next_token_rest)
    moreover have "length rest < 2 ^ 31" using Suc.prems(3) t(8) by simp
    moreover have "n = nat (mx - int (length (argv @ [p + of_nat d])))" using Suc.prems(4) by simp
    ultimately obtain args m' where m': "parse_args_loop mx (p + of_nat k) (argv @ [p + of_nat d]) m2 = Some (argv @ [p + of_nat d] @ args, m')"
      "changed_within (p + of_nat k) 0 (length rest) m2 m'" "list_all2 (cstring m') args (split_tokens n rest)"
      using Suc.IH [OF t(9), of "argv @ [p + of_nat d]"] by (auto simp del: nat_diff_distrib)
    have ch: "changed_within p k (length bs) m2 m'" using changed_within_shift [OF m'(2)] t(5,8) by simp
    have "cstring m' (p + of_nat d) tok"
    proof (cases "k = length bs")
      case True
      then have "m' = m2" using ch by (fastforce simp: changed_within_def)
      then show ?thesis using t(6) by simp
    next
      case False
      then show ?thesis using cstring_changed [OF t(6) ch] t(5,7) Suc.prems(3) by simp
    qed
    moreover have "changed_within p 0 (length bs) m m'"
      using changed_within_trans [OF changed_within_mono [OF t(3)] changed_within_mono [OF ch]] t(5) by simp
    moreover have "load8 m p \<noteq> 0" using Suc.prems(1) False by (cases bs) (simp_all add: load8_def)
    ultimately show ?thesis
      using room t(1,2) m'(1,3) False
      by (subst parse_args_loop.simps) (auto simp: tok_def [symmetric] rest_def [symmetric])
  qed
qed

lemma rtrim_loop_spec:
  assumes "cstring m p bs" and "length bs < 2 ^ 31"
  shows "cstring (rtrim_loop p (int (length bs) - 1) m) p (rev (dropWhile trailing (rev bs))) \<and>
    changed_within p 0 (length bs) m (rtrim_loop p (int (length bs) - 1) m)"
  using assms
proof (induction bs arbitrary: m rule: rev_induct)
  case Nil
  then show ?case by (subst (1 2) rtrim_loop.simps) simp
next
  case (snoc b bs)
  let ?m = "store8 m (p + of_nat (length bs)) 0"
  have at: "load8 m (p + of_nat (length bs)) = b" using cstring_append [OF snoc.prems(1)] by (simp add: load8_def)
  show ?case
  proof (cases "trailing b")
    case False
    then show ?thesis using at snoc.prems(1) by (subst (1 2) rtrim_loop.simps) simp
  next
    case True
    have "cstring ?m p bs" using cstring_cut [OF snoc.prems(1)] snoc.prems(2) by simp
    note IH = snoc.IH [OF this]
    have step: "rtrim_loop p (int (length (bs @ [b])) - 1) m = rtrim_loop p (int (length bs) - 1) ?m"
      using True at by (subst rtrim_loop.simps) simp
    have first: "changed_within p 0 (length (bs @ [b])) m ?m" by (rule changed_within_store) simp_all
    have "changed_within p 0 (length (bs @ [b])) m (rtrim_loop p (int (length bs) - 1) ?m)"
      by (rule changed_within_trans [OF first changed_within_mono]) (use IH snoc.prems(2) in auto)
    then show ?thesis unfolding step using IH snoc.prems(2) True by simp
  qed
qed

lemma rtrim_spec:
  assumes "cstring m p bs" and "length bs < 2 ^ 31" and "p \<noteq> 0"
  shows "\<exists>m'. rtrim p m = Some m' \<and> cstring m' p (rev (dropWhile trailing (rev bs))) \<and>
    changed_within p 0 (length bs) m m'"
proof -
  have "sint (of_nat (length bs) :: u32) = int (length bs)"
    using assms(2) by (simp add: signed_of_nat signed_take_bit_int_eq_self)
  moreover have "strlen m p = Some (of_nat (length bs))"
    using strlen_loop_cstring [of m p 0 bs] assms by (simp add: strlen_def)
  ultimately show ?thesis using rtrim_loop_spec [OF assms(1,2)] by (simp add: rtrim_def)
qed

lemma strip_head: "strip bs = [] \<or> \<not> blank (hd (strip bs))"
proof (cases "strip bs")
  case (Cons x xs)
  have "dropWhile blank bs = strip bs @ rev (takeWhile trailing (rev (dropWhile blank bs)))"
    unfolding strip_def by (metis rev_append rev_rev_ident takeWhile_dropWhile_id)
  then obtain ys where "dropWhile blank bs = x # ys" using Cons by (metis append_Cons)
  then have "hd (dropWhile blank bs) = x" "dropWhile blank bs \<noteq> []" by (simp_all del: dropWhile_eq_Nil_conv)
  then show ?thesis using hd_dropWhile [of blank bs] Cons by simp
qed simp

subsection \<open>Properties\<close>

lemma parse_line_spec:
  assumes line: "cstring m line bs" "line \<noteq> 0" "unat line + length bs < 2 ^ 32" "length bs < 2 ^ 31"
  shows "\<exists>argv m'. parse_line line mx m = Some (argv, m') \<and>
    list_all2 (cstring m') argv (tokens (nat mx) bs) \<and> changed_within line 0 (length bs) m m'"
proof -
  let ?k = "length (takeWhile blank bs)" and ?cs = "dropWhile blank bs"
  let ?p = "line + of_nat ?k"
  have k: "?k \<le> length bs" by (rule length_takeWhile_le)
  have len: "length ?cs = length bs - ?k" by (simp add: dropWhile_eq_drop)
  have cs: "cstring m ?p ?cs" using cstring_drop [OF line(1) k] by (simp add: drop_takeWhile)
  have "unat ?p = unat line + ?k"
    using line(3) k by (simp add: unat_word_ariths unat_of_nat_small)
  then have "?p \<noteq> 0" using line(2) by (metis add_eq_0_iff_both_eq_0 unat_eq_zero unat_0)
  moreover have small: "length ?cs < 2 ^ 31" using line(4) len by linarith
  ultimately obtain m1 where m1: "rtrim ?p m = Some m1" "cstring m1 ?p (strip bs)" "changed_within ?p 0 (length ?cs) m m1"
    using rtrim_spec [OF cs] by (auto simp: strip_def)
  have sl: "length (strip bs) \<le> length ?cs"
    unfolding strip_def by (metis length_rev length_dropWhile_le)
  obtain argv m' where m': "parse_args_loop mx ?p [] m1 = Some (argv, m')" "changed_within ?p 0 (length (strip bs)) m1 m'"
    "list_all2 (cstring m') argv (split_tokens (nat mx) (strip bs))"
    using parse_args_loop_spec [OF m1(2) strip_head _ refl, of mx "[]"] sl small by auto
  have "changed_within ?p 0 (length ?cs) m m'"
    by (rule changed_within_trans [OF m1(3) changed_within_mono [OF m'(2)]]) (use sl in simp_all)
  then have ch: "changed_within line 0 (length bs) m m'"
    by (rule changed_within_mono [OF changed_within_shift]) (use k len in simp_all)
  show ?thesis
  proof (cases "load8 m1 ?p = 0")
    case True
    then have "parse_line line mx m = Some ([], m1)" using m1(1) ltrim_spec [OF line(1)] by (simp add: parse_line_def)
    moreover have "parse_args_loop mx ?p [] m1 = Some ([], m1)" using True by (subst parse_args_loop.simps) simp
    ultimately show ?thesis using m' ch by (simp add: tokens_def)
  next
    case False
    then have "parse_line line mx m = Some (argv, m')"
      using m1(1) m'(1) ltrim_spec [OF line(1)] by (simp add: parse_line_def)
    then show ?thesis using m'(3) ch by (simp add: tokens_def)
  qed
qed

text \<open>A command line on which every argument is quoted.\<close>

fun quote_line :: "u8 list list \<Rightarrow> u8 list" where
  "quote_line [] = []"
| "quote_line (a # as) = 34 # a @ 34 # (if as = [] then [] else 32 # quote_line as)"

lemma quote_line_Nil [simp]: "quote_line as = [] \<longleftrightarrow> as = []"
  by (cases as) simp_all

lemma quote_line_ends: "quote_line as = [] \<or> hd (quote_line as) = 34 \<and> last (quote_line as) = 34"
  by (induction as) auto

lemma dropWhile_hd: "xs = [] \<or> \<not> P (hd xs) \<Longrightarrow> dropWhile P xs = xs"
  by (cases xs) simp_all

lemma strip_quote_line: "strip (quote_line as) = quote_line as"
proof (cases "quote_line as = []")
  case False
  then have "hd (quote_line as) = 34" "hd (rev (quote_line as)) = 34"
    using quote_line_ends [of as] by (auto simp: hd_rev)
  then have "dropWhile blank (quote_line as) = quote_line as"
    "dropWhile trailing (rev (quote_line as)) = rev (quote_line as)"
    by (simp_all add: dropWhile_hd blank_def trailing_def)
  then show ?thesis by (simp add: strip_def)
qed (simp add: strip_def)

lemma split_quote_line:
  "(\<And>a. a \<in> set as \<Longrightarrow> 34 \<notin> set a) \<Longrightarrow> split_tokens n (quote_line as) = take n as"
proof (induction as arbitrary: n)
  case Nil
  then show ?case by (cases n) simp_all
next
  case (Cons a as)
  have "dropWhile blank (quote_line as) = quote_line as"
    using quote_line_ends [of as] by (intro dropWhile_hd) (auto simp: blank_def)
  then have "next_token (quote_line (a # as)) = (a, quote_line as)"
    using Cons.prems [of a] by (simp add: next_token_def takeWhile_unquoted blank_def)
  with Cons show ?case by (cases n) (simp_all del: quote_line.simps(2))
qed

lemma length_split_tokens: "length (split_tokens n bs) \<le> n"
  by (induction n arbitrary: bs) simp_all

text \<open>
  C17. Command lines: on a terminated line the parser returns at most \<^verbatim>\<open>max_args\<close> addresses,
  at which the arguments of the line stand as terminated strings, and changes no byte outside
  the line; a line of quoted arguments gives back exactly these arguments.
\<close>

theorem parse_line_tokens:
  assumes "cstring m line bs" and "line \<noteq> 0" and "unat line + length bs < 2 ^ 32" and "length bs < 2 ^ 31"
  shows "\<exists>argv m'. parse_line line mx m = Some (argv, m') \<and> length argv \<le> nat mx \<and>
    list_all2 (cstring m') argv (tokens (nat mx) bs) \<and> changed_within line 0 (length bs) m m' \<and>
    (\<forall>as. bs = quote_line as \<and> (\<forall>a \<in> set as. 34 \<notin> set a) \<longrightarrow>
      list_all2 (cstring m') argv (take (nat mx) as))"
proof -
  obtain argv m' where r: "parse_line line mx m = Some (argv, m')"
    "list_all2 (cstring m') argv (tokens (nat mx) bs)" "changed_within line 0 (length bs) m m'"
    using parse_line_spec [OF assms] by blast
  have "length argv \<le> nat mx"
    using list_all2_lengthD [OF r(2)] length_split_tokens [of "nat mx" "strip bs"] by (simp add: tokens_def)
  moreover have "tokens (nat mx) bs = take (nat mx) as" if "bs = quote_line as" "\<forall>a \<in> set as. 34 \<notin> set a" for as
    using that split_quote_line [of as "nat mx"] by (simp add: tokens_def strip_quote_line)
  ultimately show ?thesis using r by (intro exI conjI allI impI) auto
qed

definition line_demo :: memory where
  "line_demo = (\<lambda>_. 0)(100 := 32, 101 := 108, 102 := 115, 103 := 9, 104 := 34, 105 := 97, 106 := 32, 107 := 34, 108 := 10)"

theorem parse_line_tokens_witness:
  "\<exists>argv m'. parse_line 100 8 line_demo = Some (argv, m') \<and> length argv \<le> 8 \<and>
     list_all2 (cstring m') argv [[108, 115], [97, 32]] \<and> changed_within 100 0 9 line_demo m'"
proof -
  have line: "cstring line_demo 100 [32, 108, 115, 9, 34, 97, 32, 34, 10]" by (simp add: line_demo_def)
  have toks: "tokens (nat 8) [32, 108, 115, 9, 34, 97, 32, 34, 10] = [[108, 115], [97, 32]]" by code_simp
  have len: "length [32, 108, 115, 9, 34, 97, 32, 34, 10 :: u8] = 9" by simp
  obtain argv m' where "parse_line 100 8 line_demo = Some (argv, m')" "length argv \<le> nat 8"
    "list_all2 (cstring m') argv [[108, 115], [97, 32]]" "changed_within 100 0 9 line_demo m'"
    using parse_line_tokens [OF line, of 8, unfolded toks len] by (auto simp del: list_all2_Cons2)
  then show ?thesis by (intro exI conjI) simp_all
qed

end
