(* ===== verification/Shell.thy ===== *)
theory Shell
  imports Shell_Parser Ramfs_Properties Fat Keyboard Frame_Allocator
begin

text \<open>
  The kernel shell (\<^verbatim>\<open>src/user/shell.c\<close>). Its state joins the console, the RAM file system
  with the memory, the FAT file system and the frame allocator; the line buffer and the buffer
  of \<^verbatim>\<open>cat\<close> lie on the stack, at the addresses \<open>line\<close> and \<open>buf\<close>. A command receives its
  arguments as the bytes before the terminators; a comparison with \<^verbatim>\<open>strcmp\<close> is equality
  (\<open>strcmp_order\<close>). Formatted output is the sequence of bytes the format renders
  (\<open>kvprintf_renders\<close>). \<open>None\<close> stands for not returning.
\<close>

record 'd shell =
  console :: monitor
  files :: ramfs
  fat_vol :: "'d fat_state"
  frames :: frame_state

subsection \<open>Output\<close>

definition shell_write :: "u8 list \<Rightarrow> 'd shell \<Rightarrow> 'd shell option" where
  "shell_write bs s = map_option (\<lambda>mon. s\<lparr>console := mon\<rparr>) (monitor_write bs (console s))"

abbreviation ln :: "string \<Rightarrow> u8 list" where
  "ln t \<equiv> bytes t @ [10]"

definition shell_usage :: "u8 list \<Rightarrow> 'd shell \<Rightarrow> 'd shell option" where
  "shell_usage usage s = Option.bind (shell_write usage s) (shell_write [10])"

text \<open>What \<^verbatim>\<open>%u\<close> renders.\<close>

definition dec :: "u32 \<Rightarrow> u8 list" where
  "dec v = print_uint_base (ucast v) 10 0 32 False"

fun write_lines :: "u8 list list \<Rightarrow> 'd shell \<Rightarrow> 'd shell option" where
  "write_lines [] s = Some s"
| "write_lines (l # ls) s = Option.bind (shell_write l s) (write_lines ls)"

definition help_lines :: "u8 list list" where
  "help_lines =
     [ln ''Commands:'', ln ''  help [cmd]'', ln ''  ls [path]'', ln ''  cat <path>'', ln ''  fatls'',
      ln ''  fatcat <file>'', ln ''  fatwrite <file> <text>'', ln ''  mkdir <name>'', ln ''  touch <name>'',
      ln ''  rm <name>'', ln ''  heap'', ln ''  mem'']"

definition shell_help :: "'d shell \<Rightarrow> 'd shell option" where
  "shell_help s = write_lines help_lines s"

definition shell_help_cmd :: "u8 list option \<Rightarrow> 'd shell \<Rightarrow> 'd shell option" where
  "shell_help_cmd cmd s =
     (case cmd of
        None \<Rightarrow> shell_help s
      | Some cmd \<Rightarrow>
          if cmd = [] then shell_help s
          else if cmd = bytes ''ls'' then shell_usage (bytes ''usage: ls [path]'') s
          else if cmd = bytes ''cat'' then shell_usage (bytes ''usage: cat <path>'') s
          else if cmd = bytes ''fatls'' then shell_usage (bytes ''usage: fatls'') s
          else if cmd = bytes ''fatcat'' then shell_usage (bytes ''usage: fatcat <file>'') s
          else if cmd = bytes ''fatwrite'' then shell_usage (bytes ''usage: fatwrite <file> <text>'') s
          else if cmd = bytes ''mkdir'' then shell_usage (bytes ''usage: mkdir <name>'') s
          else if cmd = bytes ''touch'' then shell_usage (bytes ''usage: touch <name>'') s
          else if cmd = bytes ''rm'' then shell_usage (bytes ''usage: rm <name>'') s
          else if cmd = bytes ''heap'' then shell_usage (bytes ''usage: heap'') s
          else if cmd = bytes ''mem'' then shell_usage (bytes ''usage: mem'') s
          else shell_write (ln ''unknown command'') s)"

subsection \<open>The RAM file system\<close>

partial_function (option) ls_loop :: "nat \<Rightarrow> u32 \<Rightarrow> 'd shell \<Rightarrow> 'd shell option" where
  "ls_loop node i s =
     (let (more, fs) = vfs_readdir (Some node) i (files s); s = s\<lparr>files := fs\<rparr> in
      if \<not> more then Some s
      else Option.bind (shell_write (d_name (dirent_tmp fs) @ [10]) s) (ls_loop node (i + 1)))"

definition shell_ls_path :: "u8 list option \<Rightarrow> 'd shell \<Rightarrow> 'd shell option" where
  "shell_ls_path path s =
     (let node = (if path = None \<or> path = Some [] then vfs_root (files s) else vfs_lookup path (files s)) in
      case node of
        None \<Rightarrow> shell_write (ln ''not found'') s
      | Some i \<Rightarrow>
          if flags (vfs (nodes (files s) ! i)) AND VFS_DIR = 0 then shell_write (ln ''not a directory'') s
          else ls_loop i 0 s)"

definition shell_ls :: "'d shell \<Rightarrow> 'd shell option" where
  "shell_ls s = shell_ls_path None s"

partial_function (option) cat_loop :: "u32 \<Rightarrow> nat \<Rightarrow> u32 \<Rightarrow> 'd shell \<Rightarrow> 'd shell option" where
  "cat_loop buf node off s =
     (let (n, fs) = vfs_read (Some node) off 512 buf (files s); s = s\<lparr>files := fs\<rparr> in
      if n = 0 then Some s
      else Option.bind (shell_write (buffer_bytes (fs_mem fs) buf n) s) (cat_loop buf node (off + n)))"

definition shell_cat :: "u32 \<Rightarrow> u8 list option \<Rightarrow> 'd shell \<Rightarrow> 'd shell option" where
  "shell_cat buf path s =
     (if path = None \<or> path = Some [] then shell_write (ln ''usage: cat <path>'') s
      else
        case vfs_lookup path (files s) of
          None \<Rightarrow> shell_write (ln ''not found'') s
        | Some node \<Rightarrow> Option.bind (cat_loop buf node 0 s) (shell_write [10]))"

subsection \<open>The FAT file system, the heap and the frames\<close>

definition shell_fatls :: "'d shell \<Rightarrow> 'd shell option" where
  "shell_fatls s =
     (let (count, list) = fat_list_root True 16 (fat_vol s) in
      if count \<le> 0 then shell_write (ln ''fat: no entries'') s
      else write_lines (map (\<lambda>fi. fi_name fi @ bytes '' ('' @ dec (fi_size fi) @ ln '')'') (take (nat count) list)) s)"

definition shell_fatcat :: "u8 list option \<Rightarrow> 'd shell \<Rightarrow> 'd shell option" where
  "shell_fatcat nm s =
     (if nm = None \<or> nm = Some [] then shell_write (ln ''usage: fatcat <file>'') s
      else
        Option.bind (fat_read_file nm True 1024 (fat_vol s)) (\<lambda>(n, buf).
          if n \<le> 0 then shell_write (ln ''fat: not found or read failed'') s
          else Option.bind (shell_write (take (nat n) buf) s) (shell_write [10])))"

definition shell_fatwrite :: "u8 list option \<Rightarrow> u8 list option \<Rightarrow> 'd shell \<Rightarrow> 'd shell option" where
  "shell_fatwrite nm text_arg s =
     (case text_arg of
        None \<Rightarrow> shell_write (ln ''usage: fatwrite <file> <text>'') s
      | Some txt_bytes \<Rightarrow>
          if nm = None \<or> nm = Some [] then shell_write (ln ''usage: fatwrite <file> <text>'') s
          else
            Option.bind (fat_write_file nm (Some txt_bytes) (of_nat (length txt_bytes)) (fat_vol s)) (\<lambda>(r, v).
              let s = s\<lparr>fat_vol := v\<rparr> in
              if r = 0 then shell_write (ln ''ok'') s else shell_write (ln ''fatwrite failed'') s))"

definition shell_heap :: "'d shell \<Rightarrow> 'd shell option" where
  "shell_heap s =
     Option.bind (heap_stats (fs_heap (files s))) (\<lambda>(used, free, blocks, free_blocks).
       shell_write (bytes ''heap: used='' @ dec used @ bytes '' free='' @ dec free @ bytes '' blocks='' @ dec blocks @
         bytes '' free_blocks='' @ dec free_blocks @ [10]) s)"

definition shell_mem :: "'d shell \<Rightarrow> 'd shell option" where
  "shell_mem s =
     (let total = frame_total (frames s); used = frame_used (frames s); free = frame_free_count (frames s);
          largest = frame_largest_free_run (frames s)
      in shell_write (bytes ''frames: total='' @ dec total @ bytes '' used='' @ dec used @ bytes '' free='' @ dec free @
           bytes '' largest_run='' @ dec largest @ [10]) s)"

subsection \<open>The command loop\<close>

text \<open>The commands \<^verbatim>\<open>mkdir\<close>, \<^verbatim>\<open>touch\<close> and \<^verbatim>\<open>rm\<close> report what the file system returns.\<close>

definition report :: "u8 list \<Rightarrow> (int \<times> ramfs) option \<Rightarrow> 'd shell \<Rightarrow> 'd shell option" where
  "report failed result s =
     Option.bind result (\<lambda>(r, fs).
       let s = s\<lparr>files := fs\<rparr> in if r = 0 then shell_write (ln ''ok'') s else shell_write failed s)"

definition shell_command :: "u32 \<Rightarrow> u8 list list \<Rightarrow> 'd shell \<Rightarrow> 'd shell option" where
  "shell_command buf argv s =
     (let argc = length argv; cmd = argv ! 0 in
      if cmd = bytes ''help'' then shell_help_cmd (if argc > 1 then Some (argv ! 1) else None) s
      else if cmd = bytes ''ls'' then
        if argc > 1 then shell_ls_path (Some (argv ! 1)) s else shell_ls s
      else if cmd = bytes ''cat'' then
        if argc < 2 then shell_usage (bytes ''usage: cat <path>'') s else shell_cat buf (Some (argv ! 1)) s
      else if cmd = bytes ''fatls'' then shell_fatls s
      else if cmd = bytes ''fatcat'' then
        if argc < 2 then shell_usage (bytes ''usage: fatcat <file>'') s else shell_fatcat (Some (argv ! 1)) s
      else if cmd = bytes ''fatwrite'' then
        if argc < 3 then shell_usage (bytes ''usage: fatwrite <file> <text>'') s
        else shell_fatwrite (Some (argv ! 1)) (Some (argv ! 2)) s
      else if cmd = bytes ''mkdir'' then
        if argc < 2 then shell_usage (bytes ''usage: mkdir <name>'') s
        else report (ln ''mkdir failed'') (Some (ramfs_mkdir (Some (argv ! 1)) (files s))) s
      else if cmd = bytes ''touch'' then
        if argc < 2 then shell_usage (bytes ''usage: touch <name>'') s
        else report (ln ''touch failed'') (Some (ramfs_create (Some (argv ! 1)) (files s))) s
      else if cmd = bytes ''rm'' then
        if argc < 2 then shell_usage (bytes ''usage: rm <name>'') s
        else report (ln ''rm failed'') (ramfs_unlink (Some (argv ! 1)) (files s)) s
      else if cmd = bytes ''heap'' then shell_heap s
      else if cmd = bytes ''mem'' then shell_mem s
      else shell_write (ln ''unknown command'') s)"

text \<open>The bytes \<^verbatim>\<open>keyboard_readline\<close> stores in the line buffer.\<close>

fun store_bytes :: "memory \<Rightarrow> u32 \<Rightarrow> u8 list \<Rightarrow> memory" where
  "store_bytes m a [] = m"
| "store_bytes m a (b # bs) = store_bytes (store8 m a b) (a + 1) bs"

fun load_strings :: "memory \<Rightarrow> u32 list \<Rightarrow> u8 list list option" where
  "load_strings m [] = Some []"
| "load_strings m (a # as) = Option.bind (string_bytes m a) (\<lambda>b. Option.bind (load_strings m as) (\<lambda>bs. Some (b # bs)))"

text \<open>
  One round of the loop in \<^verbatim>\<open>shell_run\<close> on the characters typed ahead: the characters left
  and the state.
\<close>

definition shell_round :: "u32 \<Rightarrow> u32 \<Rightarrow> int list \<Rightarrow> 'd shell \<Rightarrow> (int list \<times> 'd shell) option" where
  "shell_round line buf cs s =
     Option.bind (shell_write (10 # bytes ''> '') s) (\<lambda>s.
     Option.bind (keyboard_readline 128 cs) (\<lambda>(len, out, echo, cs).
     Option.bind (shell_write echo (s\<lparr>files := set_fs_mem (store_bytes (fs_mem (files s)) line out) (files s)\<rparr>)) (\<lambda>s.
     if len \<le> 0 then Some (cs, s)
     else
       Option.bind (parse_line line 8 (fs_mem (files s))) (\<lambda>(argv, m).
         let s = s\<lparr>files := set_fs_mem m (files s)\<rparr> in
         if argv = [] then Some (cs, s)
         else
           Option.bind (load_strings m argv) (\<lambda>args.
             map_option (\<lambda>s. (cs, s)) (shell_command buf args s))))))"

text \<open>The state of \<^verbatim>\<open>shell_run\<close> after a number of rounds; the loop never ends.\<close>

primrec shell_rounds :: "u32 \<Rightarrow> u32 \<Rightarrow> nat \<Rightarrow> int list \<Rightarrow> 'd shell \<Rightarrow> (int list \<times> 'd shell) option" where
  "shell_rounds line buf 0 cs s = Some (cs, s)"
| "shell_rounds line buf (Suc n) cs s =
     Option.bind (shell_round line buf cs s) (\<lambda>(cs, s). shell_rounds line buf n cs s)"

definition shell_run :: "u32 \<Rightarrow> u32 \<Rightarrow> nat \<Rightarrow> int list \<Rightarrow> 'd shell \<Rightarrow> (int list \<times> 'd shell) option" where
  "shell_run line buf n cs s = Option.bind (shell_help s) (shell_rounds line buf n cs)"

end
