(* ===== verification/Shell_Properties.thy ===== *)
theory Shell_Properties
  imports Shell
begin

text \<open>
  What the shell guarantees: \<^verbatim>\<open>ls\<close> prints the names of a directory and \<^verbatim>\<open>cat\<close> the contents
  of a file, and every line that can be typed is executed and leaves the shell in a state in
  which the next one can be.
\<close>

subsection \<open>Output\<close>

lemma shell_write_append: "shell_write (xs @ ys) s = Option.bind (shell_write xs s) (shell_write ys)"
  by (cases "monitor_write xs (console s)") (simp_all add: shell_write_def monitor_write_append option.map_comp comp_def)

lemma shell_write_Nil [simp]: "shell_write [] s = Some s"
  by (simp add: shell_write_def)

lemma shell_write_files:
  "shell_write bs (s\<lparr>files := fs\<rparr>) = map_option (\<lambda>s. s\<lparr>files := fs\<rparr>) (shell_write bs s)"
  by (cases "monitor_write bs (console s)") (simp_all add: shell_write_def)

lemma shell_write_frame:
  assumes "shell_write bs s = Some s'"
  shows "files s' = files s" "fat_vol s' = fat_vol s" "frames s' = frames s"
  using assms by (auto simp: shell_write_def)

lemma shell_write_ok:
  assumes "on_screen (console s)"
  shows "\<exists>mon. shell_write bs s = Some (s\<lparr>console := mon\<rparr>) \<and> on_screen mon \<and> monitor_write bs (console s) = Some mon"
  using monitor_write_spec [OF assms, of bs] by (auto simp: shell_write_def)

lemma write_lines_concat: "write_lines ls s = shell_write (concat ls) s"
proof (induction ls arbitrary: s)
  case (Cons l ls)
  show ?case by (cases "shell_write l s") (simp_all add: Cons.IH shell_write_append)
qed simp

subsection \<open>Listing a directory\<close>

lemma ls_loop_spec:
  assumes "links_ok cnt node (nodes (files s) ! node)" and "readdir_fn (vfs (nodes (files s) ! node))"
  shows "\<exists>d. ls_loop node i s = map_option (\<lambda>s'. s'\<lparr>files := (files s)\<lparr>dirent_tmp := d\<rparr>\<rparr>)
    (shell_write (concat (map (\<lambda>c. take 127 (name (vfs (nodes (files s) ! c))) @ [10])
       (drop (unat i) (kids (nodes (files s) ! node))))) s)"
  using assms
proof (induction "unat (child_count (nodes (files s) ! node)) - unat i" arbitrary: i s)
  case 0
  let ?n = "nodes (files s) ! node"
  have "child_count ?n \<le> i" using "0.hyps" by (simp add: word_le_nat_alt)
  moreover have "drop (unat i) (kids ?n) = []" using "0.hyps" length_kids [OF "0.prems"(1)] by simp
  ultimately show ?case using "0.prems"
    by (subst ls_loop.simps) (auto simp: vfs_readdir_def ramfs_readdir_def links_ok_def intro!: exI [of _ "dirent_tmp (files s)"])
next
  case (Suc k)
  let ?n = "nodes (files s) ! node"
  let ?line = "\<lambda>c. take 127 (name (vfs (nodes (files s) ! c))) @ [10]"
  have lt: "i < child_count ?n" using Suc.hyps(2) by (simp add: word_less_nat_alt)
  then have lt': "unat i < unat (child_count ?n)" by (simp add: word_less_nat_alt)
  have succ: "unat (i + 1) = Suc (unat i)" using unat_succ_less [OF lt] by simp
  let ?c = "kids ?n ! unat i"
  let ?d = "\<lparr>d_name = take 127 (name (vfs (nodes (files s) ! ?c))), ino = inode (vfs (nodes (files s) ! ?c))\<rparr>"
  let ?s = "s\<lparr>files := (files s)\<lparr>dirent_tmp := ?d\<rparr>\<rparr>"
  have kid: "children ?n ! unat i = Some ?c" by (rule kids_nth [OF Suc.prems(1) lt'])
  have step: "ls_loop node i s = Option.bind (shell_write (?line ?c) ?s) (ls_loop node (i + 1))"
    using Suc.prems lt kid by (subst ls_loop.simps) (auto simp: vfs_readdir_def ramfs_readdir_def links_ok_def)
  have drop: "drop (unat i) (kids ?n) = ?c # drop (unat (i + 1)) (kids ?n)"
    using lt' length_kids [OF Suc.prems(1)] succ by (simp add: Cons_nth_drop_Suc)
  note split = shell_write_append [of "?line ?c" "concat (map ?line (drop (unat (i + 1)) (kids ?n)))" s]
  show ?case
  proof (cases "shell_write (?line ?c) s")
    case None
    then show ?thesis using step drop split by (simp add: shell_write_files)
  next
    case (Some s1)
    let ?s1 = "s1\<lparr>files := (files s)\<lparr>dirent_tmp := ?d\<rparr>\<rparr>"
    have "\<exists>d. ls_loop node (i + 1) ?s1 = map_option (\<lambda>s'. s'\<lparr>files := (files ?s1)\<lparr>dirent_tmp := d\<rparr>\<rparr>)
        (shell_write (concat (map ?line (drop (unat (i + 1)) (kids ?n)))) ?s1)"
      using Suc.hyps(1) [of ?s1 "i + 1"] Suc.hyps(2) Suc.prems succ by simp
    then show ?thesis
      using step drop split Some by (simp add: shell_write_files option.map_comp comp_def)
  qed
qed

subsection \<open>Printing a file\<close>

lemma buffer_ok_set_mem [simp]: "buffer_ok (set_fs_mem m s) b n = buffer_ok s b n"
  by (simp add: buffer_ok_def)

lemma set_fs_mem_twice [simp]: "set_fs_mem m (set_fs_mem m' s) = set_fs_mem m s"
  by (simp add: set_fs_mem_def)

lemma set_fs_mem_same [simp]: "set_fs_mem (fs_mem s) s = s"
  by (simp add: set_fs_mem_def)

lemma content_room:
  assumes inv: "ram_inv fs L" and node: "node < unat (node_count fs)" and b: "buffer_ok fs buf 512" "buf \<noteq> 0"
  shows "length (content fs node) < 2 ^ 32 - 512"
proof (cases "data (nodes fs ! node) = 0")
  case True
  then show ?thesis by (simp add: file_content_def)
next
  case False
  have "unat buf + 512 \<le> 2 ^ 32" using b(1) by (simp add: buffer_ok_def outside_heap_def)
  moreover have "0 < unat buf" "0 < unat (data (nodes fs ! node))" using b(2) False by (simp_all add: unat_gt_0)
  ultimately show ?thesis
    using data_apart [OF inv node False b(1)] False by (auto simp: file_content_def)
qed

lemma cat_loop_spec:
  assumes "ram_inv (files s) L" and "node < unat (node_count (files s))" and "buffer_ok (files s) buf 512" "buf \<noteq> 0"
    and "read_fn (vfs (nodes (files s) ! node))" and "unat off \<le> length (content (files s) node)"
  shows "\<exists>m. cat_loop buf node off s = map_option (\<lambda>s'. s'\<lparr>files := set_fs_mem m (files s)\<rparr>)
      (shell_write (drop (unat off) (content (files s) node)) s) \<and> ram_inv (set_fs_mem m (files s)) L \<and>
    (\<forall>j < unat (node_count (files s)). content (set_fs_mem m (files s)) j = content (files s) j)"
  using assms
proof (induction "length (content (files s) node) - unat off" arbitrary: off s rule: less_induct)
  case less
  let ?fs = "files s" and ?c = "content (files s) node"
  have room: "length ?c < 2 ^ 32 - 512" using content_room less.prems by blast
  have nowrap: "unat off < length ?c \<Longrightarrow> unat off + unat (512 :: u32) < 2 ^ 32" using room by simp
  obtain n m where n: "ramfs_read node off 512 buf ?fs = (n, set_fs_mem m ?fs)" "ram_inv (set_fs_mem m ?fs) L"
    "buffer_bytes m buf n = take 512 (drop (unat off) ?c)"
    "\<forall>j < unat (node_count ?fs). content (set_fs_mem m ?fs) j = content ?fs j"
    using read_slice [OF less.prems(1,2,3) nowrap] by auto
  have len: "unat n = min 512 (length ?c - unat off)"
    using arg_cong [OF n(3), of length] by (simp add: buffer_bytes_def min.commute)
  let ?s = "s\<lparr>files := set_fs_mem m ?fs\<rparr>"
  have step: "cat_loop buf node off s = (if n = 0 then Some ?s
      else Option.bind (shell_write (take 512 (drop (unat off) ?c)) ?s) (cat_loop buf node (off + n)))"
    using less.prems(5) n(1,3) by (subst cat_loop.simps) (simp add: vfs_read_def)
  show ?case
  proof (cases "n = 0")
    case True
    then have "drop (unat off) ?c = []" using len by simp
    then show ?thesis using step True n(2,4) by auto
  next
    case False
    then have pos: "0 < unat n" by (simp add: unat_gt_0)
    have off: "unat (off + n) = unat off + unat n"
      using len less.prems(6) room by (intro unat_plus_no_wrap) simp
    have rest: "take 512 (drop (unat off) ?c) @ drop (unat (off + n)) ?c = drop (unat off) ?c"
    proof (cases "512 \<le> length ?c - unat off")
      case True
      then have "unat (off + n) = 512 + unat off" using len off by simp
      then show ?thesis by (metis append_take_drop_id drop_drop)
    next
      case False
      then show ?thesis using len off less.prems(6) by simp
    qed
    have split: "shell_write (drop (unat off) ?c) s =
        Option.bind (shell_write (take 512 (drop (unat off) ?c)) s) (shell_write (drop (unat (off + n)) ?c))"
      using shell_write_append [of "take 512 (drop (unat off) ?c)" "drop (unat (off + n)) ?c" s] unfolding rest .
    show ?thesis
    proof (cases "shell_write (take 512 (drop (unat off) ?c)) s")
      case None
      then show ?thesis using step False split n(2,4) by (auto simp: shell_write_files)
    next
      case (Some s1)
      let ?s1 = "s1\<lparr>files := set_fs_mem m ?fs\<rparr>"
      have same: "content (set_fs_mem m ?fs) node = ?c" using n(4) less.prems(2) by blast
      have next_off: "length ?c - unat (off + n) < length ?c - unat off" "unat (off + n) \<le> length ?c"
        using off len pos by linarith+
      obtain m' where m': "cat_loop buf node (off + n) ?s1 = map_option (\<lambda>s'. s'\<lparr>files := set_fs_mem m' (files ?s1)\<rparr>)
          (shell_write (drop (unat (off + n)) ?c) ?s1)" "ram_inv (set_fs_mem m' (files ?s1)) L"
        "\<forall>j < unat (node_count ?fs). content (set_fs_mem m' (files ?s1)) j = content (files ?s1) j"
        using less.hyps [of ?s1 "off + n"] less.prems(2-5) same next_off n(2) by auto
      then show ?thesis
        using step False split Some n(4) by (auto simp: shell_write_files option.map_comp comp_def)
    qed
  qed
qed

subsection \<open>Looking up paths\<close>

lemma walk_closed:
  assumes "\<And>c nm c'. P c \<Longrightarrow> finddir c nm = Some c' \<Longrightarrow> P c'"
  shows "P cur \<Longrightarrow> walk finddir cur ns = Some r \<Longrightarrow> P r"
proof (induction ns arbitrary: cur)
  case (Cons n ns)
  then show ?case using assms by (auto split: option.splits)
qed simp

lemma vfs_finddir_node:
  assumes inv: "ram_inv s L" and i: "i < unat (node_count s)" and f: "vfs_finddir (Some i) nm s = Some c"
  shows "c < unat (node_count s)"
proof -
  have ok: "links_ok (unat (node_count s)) i (nodes s ! i)" by (rule ram_invD(8) [OF inv i])
  with f obtain x j where j: "finddir_loop (nodes s) (nodes s ! i) x 0 = Some (j, c)"
    by (auto simp: vfs_finddir_def ramfs_finddir_def links_ok_def split: if_splits option.splits)
  then have "j < child_count (nodes s ! i)" "c = kids (nodes s ! i) ! unat j"
    using finddir_loop_spec [OF ok, where ns = "nodes s" and nm = x and i = 0] by auto
  then show ?thesis using kids_nth(3) [OF ok] by (simp add: word_less_nat_alt)
qed

lemma vfs_lookup_node:
  assumes inv: "ram_inv s L" and "vfs_lookup p s = Some i"
  shows "i < unat (node_count s)"
proof -
  let ?f = "\<lambda>i nm. vfs_finddir (Some i) (Some nm) s"
  have zero: "0 < unat (node_count s)" using ram_invD(12) [OF inv] .
  have closed: "i < unat (node_count s)" if r: "resolve_loop ?f 0 (skip_slashes q) = Some i" for q
  proof -
    have "skip_slashes q = [] \<or> hd (skip_slashes q) \<noteq> 47"
      using hd_dropWhile [of "\<lambda>c. c = 47" q] unfolding skip_slashes_eq by blast
    then have "walk ?f 0 (components (skip_slashes q)) = Some i" using r resolve_loop_walk by metis
    then show ?thesis using walk_closed [of "\<lambda>c. c < unat (node_count s)" ?f 0] vfs_finddir_node [OF inv] zero by blast
  qed
  then show ?thesis
    using assms(2) ram_invD(5) [OF inv] zero closed
    by (auto simp: vfs_lookup_def vfs_resolve_path_def Let_def split: option.splits if_splits)
qed

subsection \<open>Buffers under directory operations\<close>

lemma kfree_bounds: "kfree p h = Some h' \<Longrightarrow> heap_start h' = heap_start h \<and> heap_end h' = heap_end h"
  by (auto simp: kfree_def coalesce_def split: if_splits)

text \<open>Nothing but the file data moves: every node keeps its static data or has none.\<close>

lemma buffer_ok_nodes:
  assumes "buffer_ok s b n" and "heap_start (fs_heap s') = heap_start (fs_heap s)" "heap_end (fs_heap s') = heap_end (fs_heap s)"
    and "\<And>j. j < unat (node_count s') \<Longrightarrow> data (nodes s' ! j) \<noteq> 0 \<Longrightarrow> j < unat (node_count s) \<and>
      data (nodes s' ! j) = data (nodes s ! j) \<and> owns_data (nodes s' ! j) = owns_data (nodes s ! j) \<and>
      node_size (nodes s' ! j) = node_size (nodes s ! j)"
  shows "buffer_ok s' b n"
proof -
  have "unat b + unat n \<le> unat (data (nodes s' ! j)) \<or> unat (data (nodes s' ! j)) + unat (node_size (nodes s' ! j)) \<le> unat b"
    if "j < unat (node_count s')" "data (nodes s' ! j) \<noteq> 0" "\<not> owns_data (nodes s' ! j)" for j
    using assms(4) [OF that(1,2)] that(2,3) assms(1) by (simp add: buffer_ok_def)
  then show ?thesis using assms(1-3) by (simp add: buffer_ok_def outside_heap_def)
qed

lemma buffer_ok_upd_node:
  assumes "buffer_ok s b n"
    and "\<And>nd. data (f nd) = 0 \<or> data (f nd) = data nd \<and> owns_data (f nd) = owns_data nd \<and> node_size (f nd) = node_size nd"
  shows "buffer_ok (upd_node i f s) b n"
proof (rule buffer_ok_nodes [OF assms(1)])
  fix j
  assume j: "j < unat (node_count (upd_node i f s))" "data (nodes (upd_node i f s) ! j) \<noteq> 0"
  show "j < unat (node_count s) \<and> data (nodes (upd_node i f s) ! j) = data (nodes s ! j) \<and>
    owns_data (nodes (upd_node i f s) ! j) = owns_data (nodes s ! j) \<and>
    node_size (nodes (upd_node i f s) ! j) = node_size (nodes s ! j)"
  proof -
    have "nodes (upd_node i f s) ! j = nodes s ! j \<or> nodes (upd_node i f s) ! j = f (nodes s ! j)"
      by (cases "i < length (nodes s)"; cases "i = j") (simp_all add: not_less list_update_beyond)
    then show ?thesis using j assms(2) [of "nodes s ! j"] by auto
  qed
qed simp_all

lemma buffer_ok_heap:
  "buffer_ok s b n \<Longrightarrow> kfree p (fs_heap s) = Some h \<Longrightarrow> buffer_ok (s\<lparr>fs_heap := h\<rparr>) b n"
  by (rule buffer_ok_nodes) (simp_all add: kfree_bounds)

lemma run_op_buffer:
  assumes inv: "ram_inv s L" and run: "run_op x s = Some (r, s')" and b: "buffer_ok s b n"
  shows "buffer_ok s' b n"
proof -
  have added: "buffer_ok (added s nd) b n" if "node_count s < 9" "data nd = 0" for nd
  proof (rule buffer_ok_nodes [OF b])
    fix j
    assume j: "j < unat (node_count (added s nd))" "data (nodes (added s nd) ! j) \<noteq> 0"
    have c: "unat (node_count s + 1) = Suc (unat (node_count s))" using unat_succ_less [OF that(1)] by simp
    have len: "unat (node_count s) < 9" "length (nodes s) = 9"
      using that(1) ram_invD(1) [OF inv] by (simp_all add: word_less_nat_alt)
    show "j < unat (node_count s) \<and> data (nodes (added s nd) ! j) = data (nodes s ! j) \<and>
      owns_data (nodes (added s nd) ! j) = owns_data (nodes s ! j) \<and>
      node_size (nodes (added s nd) ! j) = node_size (nodes s ! j)"
      using j that(2) len ram_invD(12) [OF inv]
      by (auto simp: added_def c less_Suc_eq nth_list_update link_child_def split: if_splits)
  qed (simp_all add: added_def)
  have create: "buffer_ok s' b n" if x: "x = Create nm \<or> x = Mkdir nm" for nm
  proof (cases "nm = [] \<or> nm \<in> set (dir_names s) \<or> node_count s = 9")
    case True
    then show ?thesis using ramfs_create_fails [OF inv True] x run b by auto
  next
    case False
    then have room: "node_count s < 9" using ram_invD(2) [OF inv] by (simp add: order.not_eq_order_implies_strict)
    with False ramfs_create_ok [OF inv _ _ room, of nm] x run added new_node_ok show ?thesis by auto
  qed
  show ?thesis
  proof (cases x)
    case (Unlink nm)
    then show ?thesis
      using run b
      by (auto simp: ramfs_unlink_def Let_def remove_child_def split: option.splits list.splits if_splits
          intro!: buffer_ok_upd_node intro: buffer_ok_heap)
  qed (use create in auto)
qed

subsection \<open>Every command returns to the prompt\<close>

text \<open>
  The state between two commands: the cursor is on the screen, the file system satisfies its
  invariant, the buffers on the stack are apart from the heap and from static file data, and
  no FAT volume is mounted, as \<open>ata_init_registers_nothing\<close> shows of the start-up.
\<close>

definition shell_ok :: "u32 \<Rightarrow> u32 \<Rightarrow> 'd shell \<Rightarrow> bool" where
  "shell_ok line buf s \<longleftrightarrow> on_screen (console s) \<and> (\<exists>L. ram_inv (files s) L) \<and>
     buffer_ok (files s) line 128 \<and> line \<noteq> 0 \<and> buffer_ok (files s) buf 512 \<and> buf \<noteq> 0 \<and>
     dev (fat (fat_vol s)) = None \<and> fat_files (fat_vol s) = []"

definition runs :: "u32 \<Rightarrow> u32 \<Rightarrow> ('d shell \<Rightarrow> 'd shell option) \<Rightarrow> bool" where
  "runs line buf f \<longleftrightarrow> (\<forall>s. shell_ok line buf s \<longrightarrow> (\<exists>s'. f s = Some s' \<and> shell_ok line buf s'))"

lemma runsI: "(\<And>s. shell_ok line buf s \<Longrightarrow> \<exists>s'. f s = Some s' \<and> shell_ok line buf s') \<Longrightarrow> runs line buf f"
  by (simp add: runs_def)

lemma runsD: "runs line buf f \<Longrightarrow> shell_ok line buf s \<Longrightarrow> \<exists>s'. f s = Some s' \<and> shell_ok line buf s'"
  by (simp add: runs_def)

lemma shell_ok_write:
  "shell_ok line buf s \<Longrightarrow> \<exists>s'. shell_write bs s = Some s' \<and> shell_ok line buf s'"
  using shell_write_ok [of s bs] by (auto simp: shell_ok_def)

lemma runs_write [inv_intros]: "runs line buf (shell_write bs)"
  by (rule runsI) (rule shell_ok_write)

lemma runs_bind [inv_intros]:
  fixes f g :: "'d shell \<Rightarrow> 'd shell option"
  assumes "runs line buf f" and "runs line buf g"
  shows "runs line buf (\<lambda>s. Option.bind (f s) g)"
proof (rule runsI)
  fix s :: "'d shell"
  assume "shell_ok line buf s"
  then obtain s1 where "f s = Some s1" "shell_ok line buf s1" using runsD [OF assms(1)] by blast
  then show "\<exists>s'. Option.bind (f s) g = Some s' \<and> shell_ok line buf s'" using runsD [OF assms(2)] by simp
qed

lemma runs_if [inv_intros]:
  "runs line buf f \<Longrightarrow> runs line buf g \<Longrightarrow> runs line buf (\<lambda>s. if c then f s else g s)"
  by (cases c) simp_all

lemma runs_lines [inv_intros]: "runs line buf (write_lines ls)"
  using runs_write by (simp add: write_lines_concat runs_def)

lemma runs_usage [inv_intros]: "runs line buf (shell_usage u)"
  unfolding shell_usage_def by (intro inv_intros)

lemma runs_help [inv_intros]: "runs line buf shell_help" "runs line buf (shell_help_cmd cmd)"
proof -
  show h: "runs line buf shell_help" unfolding shell_help_def by (rule runs_lines)
  show "runs line buf (shell_help_cmd cmd)"
    unfolding shell_help_cmd_def [abs_def] by (cases cmd) (simp_all only: option.case, (intro inv_intros h)+)
qed

lemma runs_ls [inv_intros]: "runs line buf (shell_ls_path path :: 'd shell \<Rightarrow> 'd shell option)"
proof (rule runsI)
  fix s :: "'d shell"
  assume ok: "shell_ok line buf s"
  then obtain L where inv: "ram_inv (files s) L" by (auto simp: shell_ok_def)
  let ?node = "if path = None \<or> path = Some [] then vfs_root (files s) else vfs_lookup path (files s)"
  have list: "\<exists>s'. ls_loop i 0 s = Some s' \<and> shell_ok line buf s'" if i: "i < unat (node_count (files s))" for i
  proof (cases "readdir_fn (vfs (nodes (files s) ! i))")
    case False
    then have "ls_loop i 0 s = Some s" by (subst ls_loop.simps) (simp add: vfs_readdir_def)
    then show ?thesis using ok by simp
  next
    case True
    obtain d where d: "ls_loop i 0 s = map_option (\<lambda>s'. s'\<lparr>files := (files s)\<lparr>dirent_tmp := d\<rparr>\<rparr>)
      (shell_write (concat (map (\<lambda>c. take 127 (name (vfs (nodes (files s) ! c))) @ [10])
       (drop (unat (0 :: u32)) (kids (nodes (files s) ! i))))) s)"
      using ls_loop_spec [OF ram_invD(8) [OF inv i] True, of 0] by blast
    obtain s1 where "shell_write (concat (map (\<lambda>c. take 127 (name (vfs (nodes (files s) ! c))) @ [10])
       (drop (unat (0 :: u32)) (kids (nodes (files s) ! i))))) s = Some s1" "shell_ok line buf s1"
      using shell_ok_write [OF ok] by blast
    then show ?thesis using d ok shell_write_frame by (auto simp: shell_ok_def ram_inv_def buffer_ok_def)
  qed
  have bound: "?node = Some i \<Longrightarrow> i < unat (node_count (files s))" for i
    using vfs_lookup_node [OF inv] ram_invD(5,12) [OF inv] by (auto split: if_splits)
  show "\<exists>s'. shell_ls_path path s = Some s' \<and> shell_ok line buf s'"
  proof (cases ?node)
    case None
    then show ?thesis unfolding shell_ls_path_def Let_def using shell_ok_write [OF ok] by simp
  next
    case (Some i)
    then show ?thesis
      unfolding shell_ls_path_def Let_def using list [OF bound [OF Some]] shell_ok_write [OF ok] by simp
  qed
qed

lemma runs_cat [inv_intros]: "runs line buf (shell_cat buf path :: 'd shell \<Rightarrow> 'd shell option)"
proof (rule runsI)
  fix s :: "'d shell"
  assume ok: "shell_ok line buf s"
  then obtain L where inv: "ram_inv (files s) L" by (auto simp: shell_ok_def)
  have print: "\<exists>s'. cat_loop buf i 0 s = Some s' \<and> shell_ok line buf s'" if i: "i < unat (node_count (files s))" for i
  proof (cases "read_fn (vfs (nodes (files s) ! i))")
    case False
    then have "cat_loop buf i 0 s = Some s" by (subst cat_loop.simps) (simp add: vfs_read_def)
    then show ?thesis using ok by simp
  next
    case True
    obtain s1 where s1: "shell_write (drop (unat (0 :: u32)) (content (files s) i)) s = Some s1" "shell_ok line buf s1"
      using shell_ok_write [OF ok] by blast
    with cat_loop_spec [OF inv i _ _ True, of buf 0] ok shell_write_frame [OF s1(1)]
    show ?thesis by (auto simp: shell_ok_def)
  qed
  show "\<exists>s'. shell_cat buf path s = Some s' \<and> shell_ok line buf s'"
  proof (cases "path = None \<or> path = Some [] \<or> vfs_lookup path (files s) = None")
    case True
    then show ?thesis using shell_ok_write [OF ok] by (auto simp: shell_cat_def)
  next
    case False
    then obtain i s1 where "vfs_lookup path (files s) = Some i" "cat_loop buf i 0 s = Some s1" "shell_ok line buf s1"
      using print vfs_lookup_node [OF inv] by blast
    then show ?thesis using False shell_ok_write by (auto simp: shell_cat_def)
  qed
qed

lemma runs_fat [inv_intros]:
  "runs line buf (shell_fatls :: 'd shell \<Rightarrow> 'd shell option)"
  "runs line buf (shell_fatcat nm :: 'd shell \<Rightarrow> 'd shell option)"
  "runs line buf (shell_fatwrite nm t :: 'd shell \<Rightarrow> 'd shell option)"
proof -
  show "runs line buf (shell_fatls :: 'd shell \<Rightarrow> 'd shell option)"
  proof (rule runsI)
    fix s :: "'d shell" assume ok: "shell_ok line buf s"
    then have "fst (fat_list_root True 16 (fat_vol s)) \<le> 0" by (simp add: fat_list_root_def shell_ok_def)
    then show "\<exists>s'. shell_fatls s = Some s' \<and> shell_ok line buf s'"
      using shell_ok_write [OF ok] by (auto simp: shell_fatls_def split_beta)
  qed
  show "runs line buf (shell_fatcat nm :: 'd shell \<Rightarrow> 'd shell option)"
  proof (rule runsI)
    fix s :: "'d shell" assume ok: "shell_ok line buf s"
    then have "nm \<noteq> None \<Longrightarrow> fat_read_file nm True 1024 (fat_vol s) = Some (-1, [])"
      by (auto simp: fat_read_file_def find_file_def shell_ok_def)
    then show "\<exists>s'. shell_fatcat nm s = Some s' \<and> shell_ok line buf s'"
      using shell_ok_write [OF ok] by (auto simp: shell_fatcat_def)
  qed
  show "runs line buf (shell_fatwrite nm t :: 'd shell \<Rightarrow> 'd shell option)"
  proof (rule runsI)
    fix s :: "'d shell" assume ok: "shell_ok line buf s"
    then have "fat_write_file nm t n (fat_vol s) = Some (-1, fat_vol s)" for n
      by (auto simp: fat_write_file_def Let_def shell_ok_def split: option.splits)
    then show "\<exists>s'. shell_fatwrite nm t s = Some s' \<and> shell_ok line buf s'"
      using shell_ok_write [OF ok] by (auto simp: shell_fatwrite_def split: option.splits)
  qed
qed

lemma heap_stats_returns:
  assumes "heap_rel h L"
  shows "heap_stats h \<noteq> None"
proof -
  obtain bs where "heap_inv h bs" using assms by (auto simp: heap_rel_def)
  note I = heap_invD [OF this]
  show ?thesis using heap_stats_loop_chain [OF I(5,4,2,8)] I(3) by (simp add: heap_stats_def)
qed

lemma runs_heap [inv_intros]: "runs line buf (shell_heap :: 'd shell \<Rightarrow> 'd shell option)"
proof (rule runsI)
  fix s :: "'d shell" assume ok: "shell_ok line buf s"
  then obtain L where "heap_rel (fs_heap (files s)) L" using ram_invD(7) by (auto simp: shell_ok_def)
  then have "heap_stats (fs_heap (files s)) \<noteq> None" using heap_stats_returns by auto
  then show "\<exists>s'. shell_heap s = Some s' \<and> shell_ok line buf s'"
    using shell_ok_write [OF ok] by (auto simp: shell_heap_def)
qed

lemma runs_mem [inv_intros]: "runs line buf shell_mem"
  using shell_ok_write by (intro runsI) (simp add: shell_mem_def Let_def)

lemma runs_report:
  assumes "\<And>fs. run fs = run_op x fs"
  shows "runs line buf (\<lambda>s. report failed (run (files s)) s :: 'd shell option)"
proof (rule runsI)
  fix s :: "'d shell" assume ok: "shell_ok line buf s"
  then obtain L where inv: "ram_inv (files s) L" by (auto simp: shell_ok_def)
  obtain r fs L' where fs: "run (files s) = Some (r, fs)" "ram_inv fs L'"
    using run_op_step [OF inv, of x] assms by auto
  then have "shell_ok line buf (s\<lparr>files := fs\<rparr>)"
    using ok run_op_buffer [OF inv] assms by (auto simp: shell_ok_def)
  then have "\<exists>s'. shell_write bs (s\<lparr>files := fs\<rparr>) = Some s' \<and> shell_ok line buf s'" for bs by (rule shell_ok_write)
  then show "\<exists>s'. report failed (run (files s)) s = Some s' \<and> shell_ok line buf s'"
    using fs(1) by (simp add: report_def Let_def)
qed

lemma runs_command: "runs line buf (shell_command buf argv)"
  unfolding shell_command_def [abs_def] Let_def shell_ls_def
  by (intro inv_intros runs_report [of _ "Create (argv ! 1)"] runs_report [of _ "Mkdir (argv ! 1)"]
      runs_report [of _ "Unlink (argv ! 1)"]) simp_all

subsection \<open>Lines\<close>

lemma store_bytes_apply:
  "length bs \<le> 2 ^ 32 \<Longrightarrow> store_bytes m a bs x = (if unat (x - a) < length bs then bs ! unat (x - a) else m x)"
proof (induction bs arbitrary: m a)
  case (Cons b bs)
  show ?case
  proof (cases "x = a")
    case True
    have "unat (a - (a + 1)) = 2 ^ 32 - 1" by (simp add: unsigned_minus_1_eq_mask mask_eq_exp_minus_1)
    then show ?thesis using Cons True by (simp add: store8_def)
  next
    case False
    then have "x - a \<noteq> 0" by simp
    then have "unat (x - (a + 1)) = unat (x - a) - 1" "0 < unat (x - a)"
      using unat_minus_one [of "x - a"] by (simp_all add: diff_diff_eq unat_gt_0)
    then show ?thesis using Cons False by (auto simp: store8_def nth_Cons')
  qed
qed simp

lemma cstring_store_bytes:
  assumes "length bs < 2 ^ 31"
  shows "cstring (store_bytes m a (bs @ [0])) a (takeWhile (\<lambda>c. c \<noteq> 0) bs)"
proof -
  let ?w = "takeWhile (\<lambda>c. c \<noteq> 0) bs"
  have at: "store_bytes m a (bs @ [0]) (a + of_nat j) = (bs @ [0]) ! j" if "j \<le> length bs" for j
  proof -
    have "unat (of_nat j :: u32) = j" using that assms by (simp add: unat_of_nat_small)
    then show ?thesis using that assms by (simp add: store_bytes_apply)
  qed
  have w: "length ?w \<le> length bs" by (rule length_takeWhile_le)
  have "?w ! j = bs ! j \<and> bs ! j \<noteq> 0" if "j < length ?w" for j
    using that takeWhile_nth [of j "\<lambda>c. c \<noteq> 0" bs] nth_mem [of j ?w] set_takeWhileD [of "?w ! j" "\<lambda>c. c \<noteq> 0" bs] by auto
  moreover have "(bs @ [0]) ! length ?w = 0"
    using nth_length_takeWhile [of "\<lambda>c. c \<noteq> 0" bs] w by (cases "length ?w < length bs") (auto simp: nth_append)
  ultimately show ?thesis using at w by (auto simp: cstring_iff nth_append)
qed

lemma string_bytes_cstring: "cstring m a bs \<Longrightarrow> string_bytes m a = Some bs"
proof (induction bs arbitrary: a)
  case Nil
  then show ?case by (subst string_bytes.simps) (simp add: load8_def)
next
  case (Cons b bs)
  then show ?case by (subst string_bytes.simps) (simp add: load8_def)
qed

lemma load_strings_cstring: "list_all2 (cstring m) argv args \<Longrightarrow> load_strings m argv = Some args"
  by (induction rule: list_all2_induct) (simp_all add: string_bytes_cstring)

text \<open>Memory that changes inside the line buffer only.\<close>

lemma shell_ok_line:
  assumes ok: "shell_ok line buf s" and m: "changed_within line 0 128 (fs_mem (files s)) m"
  shows "shell_ok line buf (s\<lparr>files := set_fs_mem m (files s)\<rparr>)"
proof -
  obtain L where inv: "ram_inv (files s) L" using ok by (auto simp: shell_ok_def)
  have b: "buffer_ok (files s) line 128" using ok by (simp add: shell_ok_def)
  then have "unat line + 128 \<le> 2 ^ 32" by (simp add: buffer_ok_def outside_heap_def)
  have "m (ad x) = fs_mem (files s) (ad x)" if x: "x < 2 ^ 32" "x < unat line \<or> unat line + unat (128 :: u32) \<le> x" for x
  proof (rule ccontr)
    assume "m (ad x) \<noteq> fs_mem (files s) (ad x)"
    then obtain j where j: "j < 128" "ad x = line + of_nat j" using m by (auto simp: changed_within_def)
    then have "ad x = ad (unat line + j)" by (simp add: ad_def)
    moreover have "unat line + j < 2 ^ 32" using j(1) \<open>unat line + 128 \<le> 2 ^ 32\<close> by linarith
    ultimately have "x = unat line + j" using ad_inj x(1) by blast
    then show False using x(2) j(1) by simp
  qed
  then have "ram_inv (set_fs_mem m (files s)) L" using outside_write_kept(1) [OF inv b] by blast
  then show ?thesis using ok by (auto simp: shell_ok_def)
qed

lemma readline_loop_newline:
  "10 \<in> set cs \<Longrightarrow> \<exists>l e rest. readline_loop sz cs line echo = Some (l, e, rest) \<and>
     count_list cs 10 \<le> count_list rest 10 + 1"
proof (induction sz cs line echo rule: readline_loop.induct)
  case (2 sz c cs line echo)
  then show ?case by (auto 0 3)
qed simp

lemma keyboard_readline_newline:
  assumes "10 \<in> set cs"
  shows "\<exists>l e rest. keyboard_readline 128 cs = Some (int (length l), l @ [0], e, rest) \<and> length l \<le> 127 \<and>
    count_list cs 10 \<le> count_list rest 10 + 1"
proof -
  obtain l e rest where r: "readline_loop 128 cs [] [] = Some (l, e, rest)" "count_list cs 10 \<le> count_list rest 10 + 1"
    using readline_loop_newline [OF assms, of 128 "[]" "[]"] by blast
  moreover have "length l \<le> 127" using readline_loop_bound [OF r(1)] by simp
  ultimately show ?thesis by (simp add: keyboard_readline_def)
qed

lemma changed_store_bytes:
  assumes "length bs \<le> k" and "k \<le> 2 ^ 32"
  shows "changed_within a 0 k m (store_bytes m a bs)"
  unfolding changed_within_def
proof (intro allI impI)
  fix x
  assume "store_bytes m a bs x \<noteq> m x"
  then have "unat (x - a) < length bs" using store_bytes_apply [of bs m a x] assms by (auto split: if_splits)
  then show "\<exists>j\<ge>0. j < k \<and> x = a + of_nat j" using assms(1) by (intro exI [of _ "unat (x - a)"]) simp
qed

lemma shell_round_ok:
  assumes ok: "shell_ok line buf s" and nl: "10 \<in> set cs"
  shows "\<exists>rest s'. shell_round line buf cs s = Some (rest, s') \<and> shell_ok line buf s' \<and>
    count_list cs 10 \<le> count_list rest 10 + 1"
proof -
  obtain s1 where s1: "shell_write (10 # bytes ''> '') s = Some s1" "shell_ok line buf s1"
    using shell_ok_write [OF ok] by blast
  obtain l e rest where r: "keyboard_readline 128 cs = Some (int (length l), l @ [0], e, rest)" "length l \<le> 127"
    "count_list cs 10 \<le> count_list rest 10 + 1" using keyboard_readline_newline [OF nl] by blast
  let ?m = "store_bytes (fs_mem (files s1)) line (l @ [0])" and ?w = "takeWhile (\<lambda>c. c \<noteq> 0) l"
  have "shell_ok line buf (s1\<lparr>files := set_fs_mem ?m (files s1)\<rparr>)"
    using r(2) by (intro shell_ok_line [OF s1(2)] changed_store_bytes) simp_all
  then obtain s2 where s2: "shell_write e (s1\<lparr>files := set_fs_mem ?m (files s1)\<rparr>) = Some s2" "shell_ok line buf s2"
    using shell_ok_write by blast
  have mem: "fs_mem (files s2) = ?m" using shell_write_frame(1) [OF s2(1)] by simp
  show ?thesis
  proof (cases "int (length l) \<le> 0")
    case True
    then show ?thesis using s1(1) r s2 by (simp add: shell_round_def)
  next
    case False
    have w: "length ?w \<le> 127" using length_takeWhile_le [of "\<lambda>c. c \<noteq> 0" l] r(2) by linarith
    have line: "line \<noteq> 0" "unat line + length ?w < 2 ^ 32"
      using s2(2) w by (auto simp: shell_ok_def buffer_ok_def outside_heap_def)
    have "cstring ?m line ?w" using r(2) by (intro cstring_store_bytes) simp
    then obtain argv m where p: "parse_line line 8 ?m = Some (argv, m)"
      "list_all2 (cstring m) argv (tokens (nat 8) ?w)" "changed_within line 0 (length ?w) ?m m"
      using parse_line_spec [of ?m line ?w 8] line w by auto
    let ?s = "s2\<lparr>files := set_fs_mem m (files s2)\<rparr>"
    have ok3: "shell_ok line buf ?s"
      using changed_within_mono [OF p(3), of 0 128] w mem by (intro shell_ok_line [OF s2(2)]) simp
    obtain s4 where s4: "shell_command buf (tokens (nat 8) ?w) ?s = Some s4" "shell_ok line buf s4"
      using runsD [OF runs_command ok3] by blast
    show ?thesis
      using s1(1) r s2 False p(1) mem load_strings_cstring [OF p(2)] ok3 s4
      by (cases "argv = []") (auto simp: shell_round_def Let_def)
  qed
qed

lemma shell_rounds_ok:
  "shell_ok line buf s \<Longrightarrow> n \<le> count_list cs 10 \<Longrightarrow>
   \<exists>rest s'. shell_rounds line buf n cs s = Some (rest, s') \<and> shell_ok line buf s'"
proof (induction n arbitrary: cs s)
  case (Suc n)
  then have "10 \<in> set cs" by (metis count_notin not_less_eq_eq zero_le)
  then obtain rest s' where "shell_round line buf cs s = Some (rest, s')" "shell_ok line buf s'"
    "count_list cs 10 \<le> count_list rest 10 + 1" using shell_round_ok [OF Suc.prems(1)] by blast
  then show ?case using Suc by fastforce
qed simp

subsection \<open>Properties\<close>



text \<open>
  \<^verbatim>\<open>touch\<close> and \<^verbatim>\<open>ls\<close>: after creating a file under a new name the listing printed for
  the root directory is the old one followed by the new name.
\<close>

theorem shell_touch_ls:
  fixes s :: "'d shell"
  assumes inv: "ram_inv (files s) L" and scr: "on_screen (console s)" and room: "node_count (files s) < 9"
    and nm: "nm \<noteq> []" "nm \<notin> set (dir_names (files s))"
    and root: "readdir_fn (vfs (nodes (files s) ! 0))" "flags (vfs (nodes (files s) ! 0)) = VFS_DIR"
  shows "\<exists>s1 s2. shell_command buf [bytes ''touch'', nm] s = Some s1 \<and> shell_command buf [bytes ''ls''] s1 = Some s2 \<and>
    monitor_write (ln ''ok'' @ concat (map (\<lambda>n. take 127 n @ [10]) (dir_names (files s) @ [nm]))) (console s) =
      Some (console s2)"
proof -
  let ?fs = "added (files s) (new_file nm (unat (node_count (files s))))"
  have cr: "ramfs_create (Some nm) (files s) = (0, ?fs)" by (rule ramfs_create_ok [OF inv nm room])
  note A = added_ok [OF inv room, of "new_file nm (unat (node_count (files s)))", OF new_node_ok(1-4)]
  have root': "readdir_fn (vfs (nodes ?fs ! 0))" "flags (vfs (nodes ?fs ! 0)) = VFS_DIR"
    using root ram_invD(1) [OF inv] by (simp_all add: added_def link_child_def)
  let ?out = "concat (map (\<lambda>n. take 127 n @ [10]) (dir_names ?fs))"
  obtain mon1 where w1: "shell_write (ln ''ok'') (s\<lparr>files := ?fs\<rparr>) = Some (s\<lparr>files := ?fs, console := mon1\<rparr>)"
    "on_screen mon1" "monitor_write (ln ''ok'') (console s) = Some mon1"
    using shell_write_ok [of "s\<lparr>files := ?fs\<rparr>" "ln ''ok''"] scr by auto
  let ?s1 = "s\<lparr>files := ?fs, console := mon1\<rparr>"
  obtain mon2 where w2: "shell_write ?out ?s1 = Some (?s1\<lparr>console := mon2\<rparr>)" "monitor_write ?out mon1 = Some mon2"
    using shell_write_ok [of ?s1 ?out] w1(2) by auto
  have touch: "shell_command buf [bytes ''touch'', nm] s = Some ?s1"
    using cr w1(1) by (simp add: shell_command_def report_def)
  obtain d where d: "ls_loop 0 0 ?s1 = map_option (\<lambda>s'. s'\<lparr>files := (files ?s1)\<lparr>dirent_tmp := d\<rparr>\<rparr>) (shell_write ?out ?s1)"
    using ls_loop_spec [of _ 0 ?s1 0] root_links [OF A(1)] root'(1) by (auto simp: dir_names_def comp_def)
  have "shell_command buf [bytes ''ls''] ?s1 = ls_loop 0 0 ?s1"
    using ram_invD(5) [OF A(1)] root'(2) by (simp add: shell_command_def shell_ls_def shell_ls_path_def)
  with d w2(1) have ls: "shell_command buf [bytes ''ls''] ?s1 = Some (?s1\<lparr>console := mon2, files := ?fs\<lparr>dirent_tmp := d\<rparr>\<rparr>)" by simp
  have out: "monitor_write (ln ''ok'' @ ?out) (console s) = Some mon2"
    by (simp only: monitor_write_append [of "ln ''ok''"] w1(3) w2(2) bind.simps)
  have names: "?out = concat (map (\<lambda>n. take 127 n @ [10]) (dir_names (files s) @ [nm]))"
    unfolding A(2) by (simp add: new_node_ok)
  show ?thesis
    by (rule exI [of _ ?s1], rule exI, intro conjI, rule touch, rule ls) (use out names in simp)
qed

subsection \<open>Witnesses\<close>

text \<open>A shell right after the initialisation of a small file system; no volume is mounted.\<close>

definition demo_shell :: "ramfs \<Rightarrow> unit shell" where
  "demo_shell fs = \<lparr>console = blank_monitor, files = fs, fat_vol = \<lparr>fat = \<lparr>dev = None, bytes_per_sector = 0, sectors_per_cluster = 0,
     reserved_sectors = 0, num_fats = 0, fat_size = 0, root_entries = 0, root_dir_sectors = 0, first_fat_sector = 0, first_data_sector = 0,
     root_dir_sector = 0, root_cluster = 0, fat_type = 0, total_clusters = 0\<rparr>, fat_files = [], disk = ()\<rparr>,
     frames = frames_demo\<rparr>"

lemma demo_shell_ok:
  "\<exists>fs. shell_ok 12288 16384 (demo_shell fs) \<and> ram_inv fs {} \<and> dir_names fs = [hello_name] \<and> node_count fs = 2 \<and>
     flags (vfs (nodes fs ! 0)) = VFS_DIR \<and> readdir_fn (vfs (nodes fs ! 0)) \<and> read_fn (vfs (nodes fs ! 1)) \<and>
     vfs_lookup (Some (47 # hello_name)) fs = Some 1"
proof -
  obtain fs where fs: "ram_inv fs {}" "dir_names fs = [hello_name]" "fs_heap fs = heap_demo" "node_count fs = 2"
    "flags (vfs (nodes fs ! 0)) = VFS_DIR" "readdir_fn (vfs (nodes fs ! 0))" "data (nodes fs ! 0) = 0"
    "data (nodes fs ! 1) = 8192" "node_size (nodes fs ! 1) = 17" "read_fn (vfs (nodes fs ! 1))" using ram_demo by blast
  have "buffer_ok fs 12288 128" "buffer_ok fs 16384 512"
    using fs by (auto simp: buffer_ok_def outside_heap_def heap_demo_bounds less_2_cases_iff)
  then have "shell_ok 12288 16384 (demo_shell fs)"
    using fs(1) blank_monitor_on_screen by (auto simp: shell_ok_def demo_shell_def)
  moreover have "vfs_lookup (Some (47 # hello_name)) fs = Some 1"
  proof -
    have "hello_name \<noteq> []" "47 \<notin> set hello_name" "length hello_name \<le> 127" by (simp_all add: hello_name_def)
    then have "vfs_lookup (Some (47 # hello_name)) fs = ramfs_finddir 0 (Some hello_name) fs" by (rule vfs_lookup_root [OF fs(1)])
    also have "\<dots> = Some (last (kids (nodes fs ! 0)))"
      using fs(2) by (intro ramfs_finddir_last [OF fs(1), of "[]"]) simp_all
    also have "last (kids (nodes fs ! 0)) = 1"
    proof -
      have "length (kids (nodes fs ! 0)) = 1" using arg_cong [OF fs(2), of length] by (simp add: dir_names_def)
      moreover have "0 < kids (nodes fs ! 0) ! 0" "kids (nodes fs ! 0) ! 0 < 2"
        using kids_nth(2,3) [OF root_links [OF fs(1)], of 0] length_kids [OF root_links [OF fs(1)]] calculation fs(4) by auto
      ultimately show ?thesis by (cases "kids (nodes fs ! 0)") auto
    qed
    finally show ?thesis .
  qed
  ultimately show ?thesis using fs by blast
qed



theorem shell_touch_ls_witness:
  "\<exists>fs s1 s2. shell_command 16384 [bytes ''touch'', [97]] (demo_shell fs) = Some s1 \<and>
     shell_command 16384 [bytes ''ls''] s1 = Some s2 \<and>
     monitor_write (ln ''ok'' @ hello_name @ [10, 97, 10]) blank_monitor = Some (console s2)"
proof -
  obtain fs where fs: "ram_inv fs {}" "dir_names fs = [hello_name]" "node_count fs = 2"
    "flags (vfs (nodes fs ! 0)) = VFS_DIR" "readdir_fn (vfs (nodes fs ! 0))" using demo_shell_ok by blast
  have d: "files (demo_shell fs) = fs" "console (demo_shell fs) = blank_monitor" by (simp_all add: demo_shell_def)
  have t: "take 127 hello_name = hello_name" by (simp add: hello_name_def)
  show ?thesis
    using shell_touch_ls [of "demo_shell fs" "{}" "[97]" 16384] fs d t blank_monitor_on_screen hello_other by auto
qed

end
