(* ===== verification/Pci.thy ===== *)
theory Pci
  imports Ports
begin

text \<open>
  Access to the PCI configuration space (\<^verbatim>\<open>src/net/pci.c\<close>) and the search for a device, over
  32-bit ports whose hardware is an arbitrary state. The reference at the end lists the
  functions the search probes and takes the first that matches.
\<close>

record 'h pci_ports = "'h ports" +
  in32 :: "u16 \<Rightarrow> 'h \<Rightarrow> u32 \<times> 'h"
  out32 :: "u16 \<Rightarrow> u32 \<Rightarrow> 'h \<Rightarrow> 'h"

subsection \<open>The code\<close>

definition pci_address :: "u8 \<Rightarrow> u8 \<Rightarrow> u8 \<Rightarrow> u8 \<Rightarrow> u32" where
  "pci_address bus slot func offset =
     push_bit 31 1 OR push_bit 16 (ucast bus) OR push_bit 11 (ucast slot) OR push_bit 8 (ucast func) OR
     (ucast offset AND 0xFC)"

definition pci_read_dword :: "'h pci_ports \<Rightarrow> u8 \<Rightarrow> u8 \<Rightarrow> u8 \<Rightarrow> u8 \<Rightarrow> 'h \<Rightarrow> u32 \<times> 'h" where
  "pci_read_dword P bus slot func offset h =
     in32 P 0xCFC (out32 P 0xCF8 (pci_address bus slot func offset) h)"

definition pci_write_dword :: "'h pci_ports \<Rightarrow> u8 \<Rightarrow> u8 \<Rightarrow> u8 \<Rightarrow> u8 \<Rightarrow> u32 \<Rightarrow> 'h \<Rightarrow> 'h" where
  "pci_write_dword P bus slot func offset value h =
     out32 P 0xCFC value (out32 P 0xCF8 (pci_address bus slot func offset) h)"

text \<open>
  The three loops of \<^verbatim>\<open>pci_find_device\<close>: the location found and the hardware. An absent
  function 0 ends the innermost loop.
\<close>

function func_loop :: "'h pci_ports \<Rightarrow> u16 \<Rightarrow> u16 \<Rightarrow> u16 \<Rightarrow> u8 \<Rightarrow> u8 \<Rightarrow> 'h \<Rightarrow> (u8 \<times> u8 \<times> u8) option \<times> 'h" where
  "func_loop P vendor device bus slot func h =
     (if func < 8 then
        let (val, h) = pci_read_dword P (ucast bus) slot func 0x00 h in
        if val AND 0xFFFF = 0xFFFF then
          if func = 0 then (None, h) else func_loop P vendor device bus slot (func + 1) h
        else
          let ven = ucast (val AND 0xFFFF); dv = ucast (drop_bit 16 val AND 0xFFFF) in
          if ven = vendor \<and> dv = device then (Some (ucast bus, slot, func), h)
          else func_loop P vendor device bus slot (func + 1) h
      else (None, h))"
  by pat_completeness auto
termination
  by (relation "measure (\<lambda>(P, vendor, device, bus, slot, func, h). 8 - unat func)")
    (auto simp: word_less_nat_alt unat_word_ariths)

function slot_loop :: "'h pci_ports \<Rightarrow> u16 \<Rightarrow> u16 \<Rightarrow> u16 \<Rightarrow> u8 \<Rightarrow> 'h \<Rightarrow> (u8 \<times> u8 \<times> u8) option \<times> 'h" where
  "slot_loop P vendor device bus slot h =
     (if slot < 32 then
        case func_loop P vendor device bus slot 0 h of
          (Some r, h) \<Rightarrow> (Some r, h)
        | (None, h) \<Rightarrow> slot_loop P vendor device bus (slot + 1) h
      else (None, h))"
  by pat_completeness auto
termination
  by (relation "measure (\<lambda>(P, vendor, device, bus, slot, h). 32 - unat slot)")
    (auto simp: word_less_nat_alt unat_word_ariths)

function bus_loop :: "'h pci_ports \<Rightarrow> u16 \<Rightarrow> u16 \<Rightarrow> u16 \<Rightarrow> 'h \<Rightarrow> (u8 \<times> u8 \<times> u8) option \<times> 'h" where
  "bus_loop P vendor device bus h =
     (if bus < 256 then
        case slot_loop P vendor device bus 0 h of
          (Some r, h) \<Rightarrow> (Some r, h)
        | (None, h) \<Rightarrow> bus_loop P vendor device (bus + 1) h
      else (None, h))"
  by pat_completeness auto
termination
  by (relation "measure (\<lambda>(P, vendor, device, bus, h). 256 - unat bus)")
    (auto simp: word_less_nat_alt unat_word_ariths)

declare func_loop.simps [simp del] slot_loop.simps [simp del] bus_loop.simps [simp del]

definition pci_find_device :: "'h pci_ports \<Rightarrow> u16 \<Rightarrow> u16 \<Rightarrow> 'h \<Rightarrow> (u8 \<times> u8 \<times> u8) option \<times> 'h" where
  "pci_find_device P vendor device h = bus_loop P vendor device 0 h"

subsection \<open>The reference\<close>

text \<open>
  A configuration space that can be read: writing an address to the first port and reading
  the second delivers the register at the address.
\<close>

definition config_space :: "'h pci_ports \<Rightarrow> (u32 \<Rightarrow> u32) \<Rightarrow> bool" where
  "config_space P cfg \<longleftrightarrow> (\<forall>a h. fst (in32 P 0xCFC (out32 P 0xCF8 a h)) = cfg a)"

definition ids :: "(u32 \<Rightarrow> u32) \<Rightarrow> nat \<times> nat \<times> nat \<Rightarrow> u32" where
  "ids cfg = (\<lambda>(b, s, f). cfg (pci_address (of_nat b) (of_nat s) (of_nat f) 0))"

definition present :: "(u32 \<Rightarrow> u32) \<Rightarrow> nat \<times> nat \<times> nat \<Rightarrow> bool" where
  "present cfg l \<longleftrightarrow> take_bit 16 (ids cfg l) \<noteq> 0xFFFF"

definition matches :: "(u32 \<Rightarrow> u32) \<Rightarrow> u16 \<Rightarrow> u16 \<Rightarrow> nat \<times> nat \<times> nat \<Rightarrow> bool" where
  "matches cfg vendor device l \<longleftrightarrow> present cfg l \<and> ucast (ids cfg l) = vendor \<and> ucast (drop_bit 16 (ids cfg l)) = device"

text \<open>The functions probed, in order: all eight of every slot whose function 0 is present.\<close>

definition probed_slot :: "(u32 \<Rightarrow> u32) \<Rightarrow> nat \<Rightarrow> nat \<Rightarrow> (nat \<times> nat \<times> nat) list" where
  "probed_slot cfg b s = (if present cfg (b, s, 0) then map (\<lambda>f. (b, s, f)) [0..<8] else [])"

definition probed :: "(u32 \<Rightarrow> u32) \<Rightarrow> (nat \<times> nat \<times> nat) list" where
  "probed cfg = concat (map (\<lambda>b. concat (map (probed_slot cfg b) [0..<32])) [0..<256])"

definition location_words :: "nat \<times> nat \<times> nat \<Rightarrow> u8 \<times> u8 \<times> u8" where
  "location_words = (\<lambda>(b, s, f). (of_nat b, of_nat s, of_nat f))"

subsection \<open>The loops\<close>

lemma pci_read_ids:
  "config_space P cfg \<Longrightarrow> b < 256 \<Longrightarrow>
   fst (pci_read_dword P (ucast (of_nat b :: u16)) (of_nat s) (of_nat f) 0 h) = ids cfg (b, s, f)"
  by (simp add: pci_read_dword_def config_space_def ids_def unsigned_of_nat take_bit_nat_eq_self)

lemma low_half: "val AND 0xFFFF = take_bit 16 (val :: u32)"
  by (simp add: take_bit_eq_mask mask_eq_exp_minus_1)

lemma id_word: "ucast (take_bit 16 (val :: u32)) = (ucast val :: u16)"
  by (auto intro!: bit_word_eqI simp: bit_simps)

lemma func_loop_spec:
  assumes cfg: "config_space P cfg" and b: "b < 256"
  shows "f \<le> 8 \<Longrightarrow> 0 < f \<or> present cfg (b, s, 0) \<Longrightarrow>
    fst (func_loop P vendor device (of_nat b) (of_nat s) (of_nat f) h) =
      map_option location_words (find (matches cfg vendor device) (map (\<lambda>f. (b, s, f)) [f..<8]))"
proof (induction "8 - f" arbitrary: f h)
  case 0
  then show ?case by (subst func_loop.simps) simp
next
  case (Suc n)
  then have f: "f < 8" by simp
  have lt: "(of_nat f :: u8) < 8" and zero: "(of_nat f :: u8) = 0 \<longleftrightarrow> f = 0"
    using f by (simp_all add: word_less_nat_alt word_unat_eq_iff unat_of_nat_small)
  obtain h' where h': "pci_read_dword P (ucast (of_nat b :: u16)) (of_nat s) (of_nat f) 0 h = (ids cfg (b, s, f), h')"
    using pci_read_ids [OF cfg b, of s f h] by (metis prod.collapse)
  have up: "[f..<8] = f # [Suc f..<8]" using f by (simp add: upt_conv_Cons)
  have IH: "fst (func_loop P vendor device (of_nat b) (of_nat s) (of_nat f + 1) h') =
      map_option location_words (find (matches cfg vendor device) (map (\<lambda>f. (b, s, f)) [Suc f..<8]))"
    using Suc.hyps(1) [of "Suc f" h'] Suc.hyps(2) by (simp add: add.commute)
  have loc: "location_words (b, s, f) = (ucast (of_nat b :: u16), of_nat s, of_nat f)"
    using b by (simp add: location_words_def unsigned_of_nat take_bit_nat_eq_self)
  let ?next = "func_loop P vendor device (of_nat b) (of_nat s) (of_nat f + 1) h'"
  have step: "func_loop P vendor device (of_nat b) (of_nat s) (of_nat f) h =
      (if \<not> present cfg (b, s, f) then if f = 0 then (None, h') else ?next
       else if matches cfg vendor device (b, s, f) then (Some (location_words (b, s, f)), h') else ?next)"
    by (subst func_loop.simps) (simp only: lt zero h' loc prod.case Let_def id_word low_half matches_def present_def if_True
        not_not if_not_P split: if_splits, blast)
  have "\<not> present cfg (b, s, f) \<Longrightarrow> f \<noteq> 0" using Suc.prems(2) by (cases f) auto
  then have "func_loop P vendor device (of_nat b) (of_nat s) (of_nat f) h =
      (if matches cfg vendor device (b, s, f) then (Some (location_words (b, s, f)), h') else ?next)"
    unfolding step by (auto simp: matches_def)
  then show ?case using IH up by simp
qed

lemma func_loop_absent:
  assumes "config_space P cfg" and "b < 256" and "\<not> present cfg (b, s, 0)"
  shows "fst (func_loop P vendor device (of_nat b) (of_nat s) 0 h) = None"
  using pci_read_ids [OF assms(1,2), of s 0 h] assms(3)
  by (subst func_loop.simps) (auto simp: present_def low_half split_beta)

lemma slot_loop_spec:
  assumes cfg: "config_space P cfg" and b: "b < 256"
  shows "s \<le> 32 \<Longrightarrow> fst (slot_loop P vendor device (of_nat b) (of_nat s) h) =
    map_option location_words (find (matches cfg vendor device) (concat (map (probed_slot cfg b) [s..<32])))"
proof (induction "32 - s" arbitrary: s h)
  case 0
  then show ?case by (subst slot_loop.simps) simp
next
  case (Suc n)
  then have s: "s < 32" by simp
  have lt: "(of_nat s :: u8) < 32" using s by (simp add: word_less_nat_alt unat_of_nat_small)
  have up: "[s..<32] = s # [Suc s..<32]" using s by (simp add: upt_conv_Cons)
  have one: "fst (func_loop P vendor device (of_nat b) (of_nat s) 0 h) =
      map_option location_words (find (matches cfg vendor device) (probed_slot cfg b s))"
    using func_loop_spec [OF cfg b, of 0 s vendor device h] func_loop_absent [OF cfg b, of s vendor device h]
    by (cases "present cfg (b, s, 0)") (simp_all add: probed_slot_def)
  have IH: "fst (slot_loop P vendor device (of_nat b) (of_nat s + 1) h') =
      map_option location_words (find (matches cfg vendor device) (concat (map (probed_slot cfg b) [Suc s..<32])))" for h'
    using Suc.hyps(1) [of "Suc s" h'] Suc.hyps(2) by (simp add: add.commute)
  show ?case
    using one IH lt unfolding up
    by (subst slot_loop.simps) (auto simp: find_append split: prod.splits option.splits)
qed

lemma bus_loop_spec:
  assumes cfg: "config_space P cfg"
  shows "b \<le> 256 \<Longrightarrow> fst (bus_loop P vendor device (of_nat b) h) =
    map_option location_words
      (find (matches cfg vendor device) (concat (map (\<lambda>b. concat (map (probed_slot cfg b) [0..<32])) [b..<256])))"
proof (induction "256 - b" arbitrary: b h)
  case 0
  then show ?case by (subst bus_loop.simps) simp
next
  case (Suc n)
  then have b: "b < 256" by simp
  have lt: "(of_nat b :: u16) < 256" using b by (simp add: word_less_nat_alt unat_of_nat_small)
  have up: "[b..<256] = b # [Suc b..<256]" using b by (simp add: upt_conv_Cons)
  have one: "fst (slot_loop P vendor device (of_nat b) 0 h) =
      map_option location_words (find (matches cfg vendor device) (concat (map (probed_slot cfg b) [0..<32])))"
    using slot_loop_spec [OF cfg b, of 0 vendor device h] by simp
  have IH: "fst (bus_loop P vendor device (of_nat b + 1) h') =
      map_option location_words (find (matches cfg vendor device)
        (concat (map (\<lambda>b. concat (map (probed_slot cfg b) [0..<32])) [Suc b..<256])))" for h'
    using Suc.hyps(1) [of "Suc b" h'] Suc.hyps(2) by (simp add: add.commute)
  show ?case
    using one IH lt unfolding up
    by (subst bus_loop.simps) (auto simp: find_append split: prod.splits option.splits)
qed

subsection \<open>Properties\<close>

text \<open>
  C27. The search for a device terminates and finds the first function, in the order of bus,
  slot and function, that carries the wanted identification, among the functions of the slots
  whose function 0 is present; it reports failure exactly when there is none.
\<close>

theorem pci_find_device_first:
  assumes "config_space P cfg"
  shows "fst (pci_find_device P vendor device h) = map_option location_words (find (matches cfg vendor device) (probed cfg))"
  using bus_loop_spec [OF assms, of 0 vendor device h] by (simp add: pci_find_device_def probed_def)

text \<open>A bus with a network card as function 1 of slot 3; the hardware remembers the address.\<close>

definition demo_config :: "u32 \<Rightarrow> u32" where
  "demo_config a = (if a = pci_address 0 3 0 0 then 0x12378086 else if a = pci_address 0 3 1 0 then 0x813910EC else 0xFFFFFFFF)"

definition demo_bus :: "u32 pci_ports" where
  "demo_bus = \<lparr>in8 = \<lambda>_ h. (0, h), in16 = \<lambda>_ h. (0, h), out8 = \<lambda>_ _ h. h, out16 = \<lambda>_ _ h. h,
     in32 = \<lambda>_ h. (demo_config h, h), out32 = \<lambda>port v h. if port = 0xCF8 then v else h\<rparr>"

theorem pci_find_device_first_witness:
  "fst (pci_find_device demo_bus 0x10EC 0x8139 0) = Some (0, 3, 1)"
proof -
  have cfg: "config_space demo_bus demo_config" by (simp add: config_space_def demo_bus_def)
  have p0: "probed_slot demo_config 0 0 = []" "probed_slot demo_config 0 1 = []" "probed_slot demo_config 0 2 = []"
    "probed_slot demo_config 0 3 = map (\<lambda>f. (0, 3, f)) [0..<8]"
    "\<not> matches demo_config 0x10EC 0x8139 (0, 3, 0)" "matches demo_config 0x10EC 0x8139 (0, 3, 1)" by code_simp+
  have "[0..<256] = 0 # [1..<256]" "[0..<32] = 0 # 1 # 2 # 3 # [4..<32 :: nat]" "[0..<8] = 0 # 1 # [2..<8 :: nat]" by (simp_all add: upt_conv_Cons)
  then have "find (matches demo_config 0x10EC 0x8139) (probed demo_config) = Some (0, 3, 1)"
    using p0 by (auto simp: probed_def find_append)
  then show ?thesis using pci_find_device_first [OF cfg, of "0x10EC" "0x8139" 0] by (simp add: location_words_def)
qed

end
