(* ===== verification/Rtl8139.thy ===== *)
theory Rtl8139
  imports Pci Frame_Allocator
begin

text \<open>
  The driver of the RTL8139 network card (\<^verbatim>\<open>src/net/rtl8139.c\<close>). The static variables, the
  frame allocator with the memory and the hardware behind the ports form its state; the loop
  that waits for the end of a reset is partial, since only the card ends it. Log messages are
  not modelled.
\<close>

record 'h rtl =
  rtl_io :: u16
  rx_buffer :: u32
  tx_buffer :: u32
  tx_buf_phys :: u32
  rtl_frames :: frame_state
  hw :: 'h

subsection \<open>The code\<close>

definition rtl_outb :: "'h pci_ports \<Rightarrow> u16 \<Rightarrow> u8 \<Rightarrow> 'h rtl \<Rightarrow> 'h rtl" where
  "rtl_outb P reg val s = s\<lparr>hw := out8 P (rtl_io s + reg) val (hw s)\<rparr>"

definition rtl_outw :: "'h pci_ports \<Rightarrow> u16 \<Rightarrow> u16 \<Rightarrow> 'h rtl \<Rightarrow> 'h rtl" where
  "rtl_outw P reg val s = s\<lparr>hw := out16 P (rtl_io s + reg) val (hw s)\<rparr>"

definition rtl_outl :: "'h pci_ports \<Rightarrow> u16 \<Rightarrow> u32 \<Rightarrow> 'h rtl \<Rightarrow> 'h rtl" where
  "rtl_outl P reg val s = s\<lparr>hw := out32 P (rtl_io s + reg) val (hw s)\<rparr>"

definition rtl_inb :: "'h pci_ports \<Rightarrow> u16 \<Rightarrow> 'h rtl \<Rightarrow> u8 \<times> 'h rtl" where
  "rtl_inb P reg s = (let (v, h) = in8 P (rtl_io s + reg) (hw s) in (v, s\<lparr>hw := h\<rparr>))"

partial_function (option) reset_loop :: "'h pci_ports \<Rightarrow> 'h rtl \<Rightarrow> 'h rtl option" where
  "reset_loop prt s = (let (v, s) = rtl_inb prt 0x37 s in if v AND 0x10 \<noteq> 0 then reset_loop prt s else Some s)"

text \<open>The registers written once the reset has ended.\<close>

definition rtl_program :: "'h pci_ports \<Rightarrow> u32 \<Rightarrow> 'h rtl \<Rightarrow> 'h rtl" where
  "rtl_program P rx_phys s =
     (let s = rtl_outl P 0x30 rx_phys s;
          s = rtl_outl P 0x44 0x0000000F s;
          s = rtl_outl P 0x40 0x00000000 s;
          s = rtl_outw P 0x3C 0x0000 s;
          s = rtl_outw P 0x3E 0xFFFF s
      in rtl_outb P 0x37 0x0C s)"

text \<open>The buffers and the reset of a card whose registers are at \<^verbatim>\<open>rtl_io\<close>.\<close>

definition rtl_start :: "'h pci_ports \<Rightarrow> 'h rtl \<Rightarrow> (int \<times> 'h rtl) option" where
  "rtl_start P s =
     Option.bind (frame_alloc_contiguous 3 (rtl_frames s)) (\<lambda>(rx_phys, fr).
       let s = s\<lparr>rtl_frames := fr\<rparr> in
       if rx_phys = 0 then Some (-1, s)
       else
         let s = s\<lparr>rx_buffer := rx_phys\<rparr> in
         Option.bind (frame_alloc_contiguous 1 (rtl_frames s)) (\<lambda>(tx_phys, fr).
           let s = s\<lparr>rtl_frames := fr, tx_buf_phys := tx_phys\<rparr> in
           if tx_phys = 0 then Some (-1, s)
           else
             let s = s\<lparr>tx_buffer := tx_buf_phys s\<rparr>;
                 s = rtl_outb P 0x37 0x10 s
             in map_option (\<lambda>s. (0, rtl_program P rx_phys s)) (reset_loop P s)))"

definition rtl8139_init :: "'h pci_ports \<Rightarrow> 'h rtl \<Rightarrow> (int \<times> 'h rtl) option" where
  "rtl8139_init P s =
     (case pci_find_device P 0x10EC 0x8139 (hw s) of
        (None, h) \<Rightarrow> Some (-1, s\<lparr>hw := h\<rparr>)
      | (Some (bus, slot, func), h) \<Rightarrow>
          let (bar0, h) = pci_read_dword P bus slot func 0x10 h in
          if bar0 AND 1 = 0 then Some (-1, s\<lparr>hw := h\<rparr>)
          else
            let s = s\<lparr>rtl_io := ucast (bar0 AND NOT 3)\<rparr>;
                (cmd, h) = pci_read_dword P bus slot func 0x04 h;
                cmd = cmd OR (push_bit 2 1 OR push_bit 0 1)
            in rtl_start P (s\<lparr>hw := pci_write_dword P bus slot func 0x04 cmd h\<rparr>))"

definition rtl8139_send :: "'h pci_ports \<Rightarrow> u32 \<Rightarrow> u32 \<Rightarrow> 'h rtl \<Rightarrow> int \<times> 'h rtl" where
  "rtl8139_send P data len s =
     (if rtl_io s = 0 \<or> tx_buffer s = 0 \<or> data = 0 \<or> len = 0 then (-1, s)
      else
        let len = (if len > 1500 then 1500 else len);
            s = s\<lparr>rtl_frames := (rtl_frames s)\<lparr>fr_mem := memcpy (fr_mem (rtl_frames s)) (tx_buffer s) data len\<rparr>\<rparr>;
            s = rtl_outl P 0x20 (tx_buf_phys s) s
        in (0, rtl_outl P 0x10 len s))"

subsection \<open>Lemmas\<close>

lemma rtl_out_frame [simp]:
  "rtl_frames (rtl_outb P r b s) = rtl_frames s" "rtl_frames (rtl_outw P r w s) = rtl_frames s"
  "rtl_frames (rtl_outl P r l s) = rtl_frames s"
  "tx_buffer (rtl_outb P r b s) = tx_buffer s" "tx_buffer (rtl_outw P r w s) = tx_buffer s"
  "tx_buffer (rtl_outl P r l s) = tx_buffer s"
  "rx_buffer (rtl_outb P r b s) = rx_buffer s" "rx_buffer (rtl_outw P r w s) = rx_buffer s"
  "rx_buffer (rtl_outl P r l s) = rx_buffer s"
  "tx_buf_phys (rtl_outb P r b s) = tx_buf_phys s" "tx_buf_phys (rtl_outw P r w s) = tx_buf_phys s"
  "tx_buf_phys (rtl_outl P r l s) = tx_buf_phys s"
  by (simp_all add: rtl_outb_def rtl_outw_def rtl_outl_def)

lemma rtl_program_frame [simp]:
  "rtl_frames (rtl_program P rx s) = rtl_frames s" "tx_buffer (rtl_program P rx s) = tx_buffer s"
  "rx_buffer (rtl_program P rx s) = rx_buffer s" "tx_buf_phys (rtl_program P rx s) = tx_buf_phys s"
  by (simp_all add: rtl_program_def Let_def)

definition same_buffers :: "'h rtl \<Rightarrow> 'h rtl \<Rightarrow> bool" where
  "same_buffers s s' \<longleftrightarrow> rtl_frames s' = rtl_frames s \<and> tx_buffer s' = tx_buffer s \<and> rx_buffer s' = rx_buffer s \<and>
     tx_buf_phys s' = tx_buf_phys s"

lemma reset_loop_frame:
  assumes "reset_loop P s = Some s'"
  shows "same_buffers s s'"
  by (rule reset_loop.raw_induct [OF _ assms, where P = "\<lambda>_. same_buffers"])
    (auto simp: rtl_inb_def same_buffers_def split_beta split: if_splits)

lemma memcpy_loop_frame: "\<not> a - dest < count \<Longrightarrow> memcpy_loop m dest src count i a = m a"
proof (induction m dest src count i rule: memcpy_loop.induct)
  case (1 m d s count i)
  show ?case
  proof (cases "i < count")
    case True
    then have "a \<noteq> d + i" using 1(2) by auto
    then show ?thesis using 1(1) [OF True 1(2)] True by (subst memcpy_loop.simps) (simp add: store8_def fun_upd_def)
  qed (subst memcpy_loop.simps, simp)
qed

text \<open>The two outcomes of an allocation when frame 0 is in use.\<close>

lemma alloc_run_cases:
  assumes wf: "frames_wf fr" and zero: "0 \<in> used_set fr" and n: "n \<noteq> 0"
  obtains (full) "frame_alloc_contiguous n fr = Some (0, fr)" "\<And>st. \<not> free_run fr st (unat n)"
  | (run) p fr' st where "frame_alloc_contiguous n fr = Some (p, fr')" "p \<noteq> 0" "unat p = 4096 * st"
      "free_run fr st (unat n)" "frames_wf fr'" "used_set fr' = used_set fr \<union> {st..<st + unat n}"
proof (cases "\<exists>st. free_run fr st (unat n)")
  case False
  then show thesis using contiguous_alloc_spec [OF wf n] full by auto
next
  case True
  then obtain p fr' st where p: "frame_alloc_contiguous n fr = Some (p, fr')" "free_run fr st (unat n)" "unat p = st * 4096"
    "frames_wf fr'" "used_set fr' = used_set fr \<union> {st..<st + unat n}" using contiguous_alloc_spec [OF wf n] by auto
  have "0 < unat n" using n by (simp add: unat_gt_0)
  then have "st \<noteq> 0" using p(2) zero by (cases st) (auto simp: free_run_def dest: spec [of _ 0])
  then have "p \<noteq> 0" using p(3) by auto
  then show thesis using run p by (simp add: mult.commute)
qed

lemma send_inside:
  assumes "unat (tx_buffer s) = 4096 * tx" and "fr_mem (rtl_frames (snd (rtl8139_send P data len s))) a \<noteq> fr_mem (rtl_frames s) a"
  shows "unat a div 4096 = tx"
proof -
  define k where "k = (if len > 1500 then 1500 else len)"
  have "k \<le> 1500" by (auto simp: k_def)
  then have k: "unat k \<le> 1500" by (simp add: word_le_nat_alt)
  have "memcpy (fr_mem (rtl_frames s)) (tx_buffer s) data k a \<noteq> fr_mem (rtl_frames s) a"
    using assms(2) by (auto simp: rtl8139_send_def k_def Let_def split: if_splits)
  then have "a - tx_buffer s < k" using memcpy_loop_frame unfolding memcpy_def by blast
  then have d: "unat (a - tx_buffer s) < 1500" using k by (simp add: word_less_nat_alt)
  have "unat a = unat (tx_buffer s + (a - tx_buffer s))" by simp
  also have "\<dots> = unat (tx_buffer s) + unat (a - tx_buffer s)"
  proof (rule unat_plus_no_wrap)
    have "4096 * tx < 4096 * 2 ^ 20" using less_le_trans [OF unat_u32, of "2 ^ 32" "tx_buffer s"] assms(1) by simp
    then have "4096 * tx + 4096 \<le> 2 ^ 32" by simp
    then show "unat (tx_buffer s) + unat (a - tx_buffer s) < 2 ^ LENGTH(32)" using d assms(1) by simp
  qed
  finally show ?thesis using d assms(1) by simp
qed

definition started :: "'h pci_ports \<Rightarrow> 'h rtl \<Rightarrow> int \<Rightarrow> 'h rtl \<Rightarrow> bool" where
  "started P s r s' \<longleftrightarrow> frames_wf (rtl_frames s') \<and>
    (r = -1 \<and> rtl_frames s' = rtl_frames s \<or>
     r = -1 \<and> (\<exists>rx. free_run (rtl_frames s) rx 3 \<and> used_set (rtl_frames s') = used_set (rtl_frames s) \<union> {rx..<rx + 3} \<and>
       (\<forall>st. \<not> free_run (rtl_frames s') st 1)) \<or>
     r = 0 \<and> (\<exists>rx tx. unat (rx_buffer s') = 4096 * rx \<and> unat (tx_buffer s') = 4096 * tx \<and>
       free_run (rtl_frames s) rx 3 \<and> tx \<notin> used_set (rtl_frames s) \<and> tx \<notin> {rx..<rx + 3} \<and>
       used_set (rtl_frames s') = used_set (rtl_frames s) \<union> {rx..<rx + 3} \<union> {tx} \<and>
       (\<forall>data len a. fr_mem (rtl_frames (snd (rtl8139_send P data len s'))) a \<noteq> fr_mem (rtl_frames s') a \<longrightarrow>
          unat a div 4096 = tx)))"

lemma rtl_start_cases:
  assumes reset: "\<And>s. reset_loop P s \<noteq> None"
    and wf: "frames_wf (rtl_frames s)" and zero: "0 \<in> used_set (rtl_frames s)"
  shows "\<exists>r s'. rtl_start P s = Some (r, s') \<and> started P s r s'"
proof -
  have three: "(3 :: u32) \<noteq> 0" and one: "(1 :: u32) \<noteq> 0" by simp_all
  show ?thesis
  proof (rule alloc_run_cases [OF wf zero three], goal_cases full run)
    case full
    then show ?thesis using wf by (simp add: rtl_start_def started_def)
  next
    case (run p fr st)
    have zero': "0 \<in> used_set fr" using run(6) zero by simp
    show ?thesis
    proof (rule alloc_run_cases [OF run(5) zero' one], goal_cases full run)
      case full
      then show ?thesis using run by (auto simp: rtl_start_def started_def)
    next
      case (run q fr' st')
      note q = run
      let ?s = "rtl_outb P 0x37 0x10 (s\<lparr>rx_buffer := p, rtl_frames := fr', tx_buf_phys := q, tx_buffer := q\<rparr>)"
      obtain s' where s': "reset_loop P ?s = Some s'" using reset [of ?s] by blast
      note same = reset_loop_frame [OF s', unfolded same_buffers_def, simplified]
      have init: "rtl_start P s = Some (0, rtl_program P p s')"
        using \<open>frame_alloc_contiguous 3 (rtl_frames s) = Some (p, fr)\<close> \<open>p \<noteq> 0\<close> q(1,2) s' by (simp add: rtl_start_def)
      have "unat (tx_buffer (rtl_program P p s')) = 4096 * st'" using same q(3) by simp
      note send = send_inside [OF this, of P]
      have used: "used_set fr = used_set (rtl_frames s) \<union> {st..<st + 3}"
        using \<open>used_set fr = used_set (rtl_frames s) \<union> {st..<st + unat 3}\<close> by simp
      have "st' \<notin> used_set fr" using q(4) by (auto simp: free_run_def)
      then have new: "st' \<notin> used_set (rtl_frames s)" "st' \<notin> {st..<st + 3}" unfolding used by blast+
      have all: "used_set fr' = used_set (rtl_frames s) \<union> {st..<st + 3} \<union> {st'}" using q(6) used by auto
      have rx: "unat p = 4096 * st" "free_run (rtl_frames s) st 3"
        using \<open>unat p = 4096 * st\<close> \<open>free_run (rtl_frames s) st (unat 3)\<close> by simp_all
      have "started P s 0 (rtl_program P p s')"
        unfolding started_def
      proof (intro conjI disjI2 exI)
        show "\<forall>data len a. fr_mem (rtl_frames (snd (rtl8139_send P data len (rtl_program P p s')))) a \<noteq>
            fr_mem (rtl_frames (rtl_program P p s')) a \<longrightarrow> unat a div 4096 = st'" using send by blast
      qed (use rx new all same q(3,5) in simp_all)
      then show ?thesis using init by blast
    qed
  qed
qed

lemma rtl8139_init_cases:
  assumes reset: "\<And>s. reset_loop P s \<noteq> None"
    and wf: "frames_wf (rtl_frames s)" and zero: "0 \<in> used_set (rtl_frames s)"
  shows "\<exists>r s'. rtl8139_init P s = Some (r, s') \<and> started P s r s'"
proof -
  obtain f h where f: "pci_find_device P 0x10EC 0x8139 (hw s) = (f, h)" by fastforce
  have go: "\<exists>r s'. rtl_start P t = Some (r, s') \<and> started P s r s'" if "rtl_frames t = rtl_frames s" for t
    using rtl_start_cases [OF reset, of t] wf zero that by (simp add: started_def)
  show ?thesis using f wf go by (cases f) (auto simp: rtl8139_init_def started_def Let_def split_beta)
qed

subsection \<open>Properties\<close>


definition demo_rtl :: "u32 rtl" where
  "demo_rtl = \<lparr>rtl_io = 0, rx_buffer = 0, tx_buffer = 0, tx_buf_phys = 0, rtl_frames = frames_demo, hw = 0\<rparr>"


end
