(* ===== verification/Frame_Init.thy ===== *)
theory Frame_Init
  imports Frame_Regions
begin

text \<open>
  The frame allocator after \<^verbatim>\<open>frame_allocator_init\<close> of \<^verbatim>\<open>src/mm/memory.c\<close> on a memory map as
  the multiboot standard lays it out: which frames are free when the kernel starts.
\<close>

subsection \<open>The memory map\<close>

text \<open>The base, the length and the type of an entry.\<close>

type_synonym mmap_entry = "u64 \<times> u64 \<times> u32"

definition entry_at :: "memory \<Rightarrow> u32 \<Rightarrow> mmap_entry \<Rightarrow> bool" where
  "entry_at m a en \<longleftrightarrow> en = (load64 m (a + 4), load64 m (a + 12), load32 m (a + 20))"

text \<open>
  The entries from address \<open>a\<close> up to \<open>e\<close>: each has a size field of at least 20, which does
  not count itself, and ends at or before \<open>e\<close>.
\<close>

primrec mmap_at :: "memory \<Rightarrow> u32 \<Rightarrow> u32 \<Rightarrow> mmap_entry list \<Rightarrow> bool" where
  "mmap_at m a e [] \<longleftrightarrow> a = e"
| "mmap_at m a e (en # es) \<longleftrightarrow>
     20 \<le> unat (load32 m a) \<and> unat a + unat (load32 m a) + 4 \<le> unat e \<and> entry_at m a en \<and> mmap_at m (mmap_next m a) e es"

definition mmap_top :: "mmap_entry list \<Rightarrow> u64" where
  "mmap_top es = fold (\<lambda>(b, l, t) top. max top (b + l)) es 0"

lemma load64_cong:
  assumes "\<And>i. i < 8 \<Longrightarrow> m' (ad (A + i)) = m (ad (A + i))"
  shows "load64 m' (ad A) = load64 m (ad A)"
proof -
  have "load32 m' (ad A) = load32 m (ad A)" by (rule load32_cong) (use assms in simp)
  moreover have "load32 m' (ad (A + 4)) = load32 m (ad (A + 4))"
    using assms [of "4 + _"] by (intro load32_cong) (simp add: add.assoc)
  ultimately show ?thesis by (simp add: load64_def)
qed

lemma unat_mmap_next:
  fixes e :: u32
  assumes "unat a + unat (load32 m a) + 4 \<le> unat e"
  shows "unat (mmap_next m a) = unat a + unat (load32 m a) + 4"
proof -
  have "unat a + unat (load32 m a) + 4 < 2 ^ 32" by (rule le_less_trans [OF assms]) simp
  then have "unat (a + load32 m a) = unat a + unat (load32 m a)" "unat (a + load32 m a) + unat (4 :: u32) < 2 ^ 32"
    by (simp_all add: unat_plus_no_wrap)
  then show ?thesis unfolding mmap_next_def by (subst unat_plus_no_wrap) simp_all
qed

lemma mmap_at_cong:
  assumes "\<And>x. unat a \<le> x \<Longrightarrow> x < unat e \<Longrightarrow> m' (ad x) = m (ad x)" and "mmap_at m a e es"
  shows "mmap_at m' a e es"
  using assms
proof (induction es arbitrary: a)
  case (Cons en es)
  define A where "A = unat a"
  have a: "a = ad A" by (simp add: A_def)
  have fit: "20 \<le> unat (load32 m a)" "A + unat (load32 m a) + 4 \<le> unat e" using Cons.prems(2) by (simp_all add: A_def)
  have same: "m' (ad (A + i)) = m (ad (A + i))" if "i < 24" for i
    by (rule Cons.prems(1)) (use that fit in \<open>simp_all add: A_def\<close>)
  have size: "load32 m' a = load32 m a" unfolding a by (rule load32_cong) (use same in simp)
  have "load64 m' (ad (A + 4)) = load64 m (ad (A + 4))" "load64 m' (ad (A + 12)) = load64 m (ad (A + 12))"
    "load32 m' (ad (A + 20)) = load32 m (ad (A + 20))"
    using same [of "4 + _"] same [of "12 + _"] same [of "20 + _"]
    by (intro load64_cong load32_cong; simp add: add.assoc)+
  moreover have "mmap_at m' (mmap_next m a) e es"
    using Cons.prems unat_mmap_next [of a m e] by (intro Cons.IH) auto
  ultimately show ?case using Cons.prems(2) size by (simp add: entry_at_def mmap_next_def a)
qed simp

lemma mmap_max_top:
  "mmap_at m a e es \<Longrightarrow> mmap_max m a e x = Some (fold (\<lambda>(b, l, t) top. max top (b + l)) es x)"
proof (induction es arbitrary: a x)
  case Nil
  then show ?case by (subst mmap_max.simps) simp
next
  case (Cons en es)
  obtain b l t where en: "en = (b, l, t)" by (cases en)
  have "a < e" using Cons.prems unat_u32 [of e] by (simp add: word_less_nat_alt)
  moreover have "(if b + l > x then b + l else x) = max x (b + l)" by (auto simp: max_def)
  ultimately show ?case
    using Cons en by (subst mmap_max.simps) (simp add: Let_def entry_at_def)
qed

subsection \<open>What the region operations keep\<close>

definition in_bitmap :: "frame_state \<Rightarrow> nat \<Rightarrow> bool" where
  "in_bitmap s x \<longleftrightarrow> unat (frame_bitmap s) \<le> x \<and> x < unat (frame_bitmap s) + 4 * unat (bitmap_words s)"

definition kept :: "frame_state \<Rightarrow> frame_state \<Rightarrow> bool" where
  "kept s s' \<longleftrightarrow> frame_bitmap s' = frame_bitmap s \<and> total_frames s' = total_frames s \<and>
     bitmap_words s' = bitmap_words s \<and> placement_addr s' = placement_addr s \<and>
     (\<forall>x < 2 ^ 32. \<not> in_bitmap s x \<longrightarrow> fr_mem s' (ad x) = fr_mem s (ad x))"

lemma kept_refl [simp]: "kept s s"
  by (simp add: kept_def)

lemma kept_trans: "kept s t \<Longrightarrow> kept t u \<Longrightarrow> kept s u"
  by (simp add: kept_def in_bitmap_def)

lemma bitmap_store_outside:
  assumes wf: "frames_wf s" and fr: "fr < total_frames s" and x: "x < 2 ^ 32" "\<not> in_bitmap s x"
  shows "store32 (fr_mem s) (frame_bitmap s + 4 * (fr div 32)) v (ad x) = fr_mem s (ad x)"
proof -
  let ?A = "unat (frame_bitmap s) + 4 * (unat fr div 32)"
  have w1: "unat fr div 32 < unat (bitmap_words s)"
    using fr frames_wfD(4) [OF wf] by (auto simp: word_less_nat_alt)
  then have w: "?A + 4 \<le> unat (frame_bitmap s) + 4 * unat (bitmap_words s)" by linarith
  have "frame_bitmap s + 4 * (fr div 32) = ad ?A"
    by (simp add: ad_def frame_word)
  moreover have "x < ?A \<or> ?A + 4 \<le> x" using x(2) w by (auto simp: in_bitmap_def)
  moreover have "?A + 4 \<le> 2 ^ 32" using wf w by (simp add: frames_wf_def)
  ultimately show ?thesis using x(1) by (simp add: store32_byte)
qed

lemma kept_set_frame: "frames_wf s \<Longrightarrow> fr < total_frames s \<Longrightarrow> kept s (set_frame fr s)"
  by (simp add: kept_def) (simp add: set_frame_def bitmap_store_outside)

lemma kept_clear_frame: "frames_wf s \<Longrightarrow> fr < total_frames s \<Longrightarrow> kept s (clear_frame fr s)"
  by (simp add: kept_def) (simp add: clear_frame_def bitmap_store_outside)

lemma kept_fold:
  assumes step: "\<And>fr s. frames_wf s \<Longrightarrow> fr < total_frames s \<Longrightarrow> frames_wf (f fr s) \<and> kept s (f fr s)"
    and wf: "frames_wf s" and frs: "\<forall>fr \<in> set frs. fr < total_frames s"
  shows "kept s (fold f frs s)"
  using wf frs
proof (induction frs arbitrary: s)
  case (Cons fr frs)
  then have "frames_wf (f fr s)" "kept s (f fr s)" using step by simp_all
  moreover from this have "total_frames (f fr s) = total_frames s" by (simp add: kept_def)
  ultimately show ?case using Cons kept_trans by auto
qed simp

lemma region_below:
  assumes "frames_wf s" and "b \<le> unat (total_frames s)"
  shows "\<forall>fr \<in> set (map of_nat [a..<b]). fr < total_frames s"
  using assms frames_wfD(3) [OF assms(1)] by (auto simp: word_less_nat_alt unat_of_nat_small)

lemma region_ops_kept:
  assumes wf: "frames_wf s" and r: "unat start + unat len \<le> 4096 * unat (total_frames s)"
  shows "\<exists>s'. reserve_region start len s = Some s' \<and> frames_wf s' \<and> kept s s' \<and>
      used_set s' = used_set s \<union> region_frames start len"
    and "\<exists>s'. free_region start len s = Some s' \<and> frames_wf s' \<and> kept s s' \<and>
      used_set s' = used_set s - region_frames start len"
proof -
  note below = region_below [OF wf page_up_end_bound(1) [OF r frames_wfD(3) [OF wf]], where a = "page_up start"]
  have "kept s (fold set_frame (map of_nat [page_up start..<page_up (start + len)]) s)"
    by (rule kept_fold [OF _ wf below]) (simp add: set_frame_wf kept_set_frame)
  then show "\<exists>s'. reserve_region start len s = Some s' \<and> frames_wf s' \<and> kept s s' \<and>
      used_set s' = used_set s \<union> region_frames start len"
    using reserve_region_used [OF wf r] by (simp add: reserve_region_fold)
  have "kept s (fold clear_frame (map of_nat [page_up start..<page_up (start + len)]) s)"
    by (rule kept_fold [OF _ wf below]) (simp add: clear_frame_wf kept_clear_frame)
  then show "\<exists>s'. free_region start len s = Some s' \<and> frames_wf s' \<and> kept s s' \<and>
      used_set s' = used_set s - region_frames start len"
    using free_region_used [OF wf r] by (simp add: free_region_fold)
qed

subsection \<open>Freeing the available regions\<close>

definition entry_ok :: "nat \<Rightarrow> mmap_entry \<Rightarrow> bool" where
  "entry_ok T en \<longleftrightarrow> (case en of (b, l, t) \<Rightarrow> t = 1 \<and> unat b < 2 ^ 32 \<longrightarrow> unat b + unat l \<le> 4096 * T)"

definition available :: "mmap_entry \<Rightarrow> nat set" where
  "available en = (case en of (b, l, t) \<Rightarrow> if t = 1 \<and> unat b < 2 ^ 32 then region_frames (ucast b) (ucast l) else {})"

lemma mmap_free_entry_spec:
  assumes wf: "frames_wf s" and at: "entry_at (fr_mem s) a en" and ok: "entry_ok (unat (total_frames s)) en"
  shows "\<exists>s'. mmap_free_entry a s = Some s' \<and> frames_wf s' \<and> kept s s' \<and> used_set s' = used_set s - available en"
proof -
  obtain b l t where en: "en = (b, l, t)" by (cases en)
  note ld = at [unfolded entry_at_def en, simplified]
  show ?thesis
  proof (cases "t = 1 \<and> unat b < 2 ^ 32")
    case True
    have T: "unat (total_frames s) < 2 ^ 20" using frames_wfD(3) [OF wf] .
    have fit: "unat b + unat l \<le> 4096 * unat (total_frames s)" using ok en True by (simp add: entry_ok_def)
    then have small: "unat b + unat l < 2 ^ 32" using T by simp
    have u: "unat (b + l) = unat b + unat l" using small by (subst unat_plus_no_wrap) simp_all
    have "\<not> b + l > 0x100000000" "b < 0x100000000" using u small by (simp_all add: word_less_nat_alt)
    then have "mmap_free_entry a s = free_region (ucast b) (ucast l) s"
      using ld True by (simp add: mmap_free_entry_def Let_def)
    moreover have "unat (ucast b :: u32) = unat b" "unat (ucast l :: u32) = unat l"
      using small by (simp_all add: unsigned_ucast_eq take_bit_nat_eq_self)
    ultimately show ?thesis
      using region_ops_kept(2) [OF wf, of "ucast b" "ucast l"] fit True by (simp add: available_def en)
  next
    case False
    then have "mmap_free_entry a s = Some s"
      using ld by (auto simp: mmap_free_entry_def Let_def word_less_nat_alt)
    with wf False show ?thesis by (auto simp: available_def en)
  qed
qed

lemma mmap_free_spec:
  assumes "frames_wf s" and "mmap_at (fr_mem s) a e es" and "list_all (entry_ok (unat (total_frames s))) es"
    and "\<And>x. unat a \<le> x \<Longrightarrow> x < unat e \<Longrightarrow> \<not> in_bitmap s x"
  shows "\<exists>s'. mmap_free a e s = Some s' \<and> frames_wf s' \<and> kept s s' \<and>
    used_set s' = used_set s - (\<Union>en \<in> set es. available en)"
  using assms
proof (induction es arbitrary: a s)
  case Nil
  then show ?case by (subst mmap_free.simps) simp
next
  case (Cons en es)
  have lt: "a < e" using Cons.prems(2) unat_u32 [of e] by (simp add: word_less_nat_alt)
  obtain s1 where s1: "mmap_free_entry a s = Some s1" "frames_wf s1" "kept s s1"
    "used_set s1 = used_set s - available en"
    using mmap_free_entry_spec [of s a en] Cons.prems by auto
  have same: "fr_mem s1 (ad x) = fr_mem s (ad x)" if "unat a \<le> x" "x < unat e" for x
    using s1(3) Cons.prems(4) [OF that] less_trans [OF that(2) unat_u32] by (simp add: kept_def)
  have at1: "mmap_at (fr_mem s1) a e (en # es)" by (rule mmap_at_cong [OF same Cons.prems(2)])
  then have nx: "unat a \<le> unat (mmap_next (fr_mem s1) a)" using unat_mmap_next [of a "fr_mem s1" e] by simp
  obtain s' where s': "mmap_free (mmap_next (fr_mem s1) a) e s1 = Some s'" "frames_wf s'" "kept s1 s'"
    "used_set s' = used_set s1 - (\<Union>en \<in> set es. available en)"
    using Cons.IH [OF s1(2), of "mmap_next (fr_mem s1) a"] at1 Cons.prems(3,4) nx s1(3)
    by (auto simp: kept_def in_bitmap_def)
  have "mmap_free a e s = Some s'" using lt s1(1) s'(1) by (subst mmap_free.simps) simp
  moreover have "used_set s' = used_set s - (\<Union>en \<in> set (en # es). available en)" using s1(4) s'(4) by auto
  ultimately show ?case using s'(2) kept_trans [OF s1(3) s'(3)] by blast
qed

subsection \<open>The fresh bitmap\<close>

lemma page_base:
  assumes "unat ke + 4095 < 2 ^ 32"
  shows "align_up (align_up ke FRAME_SIZE) 4 = frame_base (page_up ke)"
proof -
  let ?p = "frame_base (page_up ke)"
  have p: "unat ?p = 4096 * page_up ke" using unat_frame_base [OF page_up_bound] .
  have "4096 * page_up ke \<le> 4096 * (2 ^ 20 - 1)" using page_up_bound [of ke] by simp
  then have "unat (?p + 3) = 4096 * page_up ke + 3" using p by (subst unat_plus_no_wrap) simp_all
  moreover have "(4 - 1 :: u32) = mask 2" by (simp add: mask_eq_exp_minus_1)
  ultimately have "unat (align_up ?p 4) = 4096 * page_up ke"
    using unat_and_not_mask [of "?p + 3" 2] by (simp add: align_up_def add.commute)
  then show ?thesis by (simp add: align_up_page word_unat_eq_iff p)
qed

lemma memset_bitmap:
  assumes "x < n" and "n < 2 ^ 32"
  shows "memset m p 0xFF (of_nat n) (p + of_nat x) = 0xFF"
  using assms by (simp add: memset_apply word_less_nat_alt unat_of_nat_small)

lemma fresh_bitmap_used:
  assumes m: "fr_mem s = memset m (frame_bitmap s) 0xFF (of_nat (4 * n))" and n: "4 * n < 2 ^ 32" and f: "f < 32 * n"
  shows "used_at s f"
proof -
  let ?i = "f div 32"
  have "?i < n" using f by (simp add: less_mult_imp_div_less mult.commute)
  then have i: "4 * ?i + 3 < 4 * n" by linarith
  have b: "fr_mem s (frame_bitmap s + 4 * of_nat ?i + of_nat j) = 0xFF" if "j < 4" for j
    using memset_bitmap [of "4 * ?i + j" "4 * n" m "frame_bitmap s"] that i n by (simp add: m add.assoc)
  have "bitmap_word s (of_nat ?i) = 0xFFFFFFFF"
    using b [of 0] b [of 1] b [of 2] b [of 3] by (simp add: bitmap_word_def load32_def)
  moreover have "(0xFFFFFFFF :: u32) = - 1" by simp
  ultimately show ?thesis by (simp only: used_at_def bit_minus_1_iff) simp
qed

lemma fresh_bitmap_wf:
  assumes m: "fr_mem s = memset m (frame_bitmap s) 0xFF (bitmap_words s * 4)" and p: "frame_bitmap s \<noteq> 0"
    and T: "0 < unat (total_frames s)" "unat (total_frames s) < 2 ^ 20" "used_frames s = total_frames s"
    and w: "bitmap_words s = (total_frames s + 31) div 32"
    and e: "unat (frame_bitmap s) + 4 * ((unat (total_frames s) + 31) div 32) \<le> 2 ^ 32"
  shows "frames_wf s" and "used_set s = {..<unat (total_frames s)}"
proof -
  let ?n = "(unat (total_frames s) + 31) div 32"
  have n: "unat (bitmap_words s) = ?n" using T(2) by (simp add: w unat_div_distrib unat_plus_no_wrap)
  have "bitmap_words s * 4 = of_nat (4 * ?n)" by (simp add: n [symmetric])
  then have u: "used_at s f" if "f < 32 * ?n" for f
    using fresh_bitmap_used [of s m ?n f] m that T(2) by simp
  have T32: "unat (total_frames s) \<le> 32 * ?n" by linarith
  show us: "used_set s = {..<unat (total_frames s)}" using u T32 by (auto simp: used_set_def)
  have "card {f. f < unat (total_frames s) \<and> used_at s f} = unat (total_frames s)"
    using us by (simp add: used_set_def)
  then show "frames_wf s" using T p e u unfolding frames_wf_def n by (simp add: word_less_nat_alt)
qed

lemma boot_loads:
  assumes "\<And>x. unat mb \<le> x \<Longrightarrow> x < unat mb + 52 \<Longrightarrow> m' (ad x) = m (ad x)"
  shows "load32 m' (mb + 48) = load32 m (mb + 48)" "load32 m' (mb + 44) = load32 m (mb + 44)"
proof -
  have "load32 m' (ad (unat mb + k)) = load32 m (ad (unat mb + k))" if "k + 4 \<le> 52" for k
    using that by (intro load32_cong assms) simp_all
  from this [of 48] this [of 44] ad_plus(1) [of "unat mb", symmetric]
  show "load32 m' (mb + 48) = load32 m (mb + 48)" "load32 m' (mb + 44) = load32 m (mb + 44)" by simp_all
qed

lemma kept_boot:
  assumes "kept s s'" and "unat mb + 52 \<le> 2 ^ 32" and "\<And>x. unat mb \<le> x \<Longrightarrow> x < unat mb + 52 \<Longrightarrow> \<not> in_bitmap s x"
  shows "load32 (fr_mem s') (mb + 48) = load32 (fr_mem s) (mb + 48)"
    "load32 (fr_mem s') (mb + 44) = load32 (fr_mem s) (mb + 44)"
proof -
  have same: "fr_mem s' (ad x) = fr_mem s (ad x)" if "unat mb \<le> x" "x < unat mb + 52" for x
    using assms(1) assms(3) [OF that] less_le_trans [OF that(2) assms(2)] by (simp add: kept_def)
  show "load32 (fr_mem s') (mb + 48) = load32 (fr_mem s) (mb + 48)" by (rule boot_loads(1)) (rule same)
  show "load32 (fr_mem s') (mb + 44) = load32 (fr_mem s) (mb + 44)" by (rule boot_loads(2)) (rule same)
qed

lemma memset_outside:
  assumes e: "P + unat n \<le> 2 ^ 32" and x: "x < P \<or> P + unat n \<le> x" "x < 2 ^ 32"
  shows "memset m (ad P) v n (ad x) = m (ad x)"
proof -
  have "\<not> ad x - ad P < n"
  proof
    assume d: "ad x - ad P < n"
    then have lt: "P + unat (ad x - ad P) < 2 ^ 32" using e by (simp add: word_less_nat_alt)
    have "ad x = ad (P + unat (ad x - ad P))" using ad_plus(2) [of P "unat (ad x - ad P)"] by simp
    then have "x = P + unat (ad x - ad P)" using ad_inj [OF x(2) lt] by simp
    with d x(1) show False by (auto simp: word_less_nat_alt)
  qed
  then show ?thesis by (simp add: memset_apply)
qed

subsection \<open>The steps of initialisation\<close>

text \<open>The state before the regions are freed.\<close>

definition init_bitmap :: "u32 \<Rightarrow> u32 \<Rightarrow> frame_state \<Rightarrow> frame_state" where
  "init_bitmap p n s =
     (let w = (n + 31) div 32 in
      s\<lparr>total_frames := n, bitmap_words := w, placement_addr := p + w * 4, frame_bitmap := p,
        fr_mem := memset (fr_mem s) p 0xFF (w * 4), used_frames := n\<rparr>)"

definition reserve_boot :: "u32 \<Rightarrow> frame_state \<Rightarrow> frame_state option" where
  "reserve_boot mb s =
     Option.bind (reserve_region 0 (placement_addr s) s) (\<lambda>s.
     Option.bind (reserve_region (load32 (fr_mem s) (mb + 48)) (load32 (fr_mem s) (mb + 44)) s) (reserve_region mb 52))"

lemma frame_allocator_init_steps:
  assumes mb: "mb \<noteq> 0" "load32 (fr_mem s) mb AND MULTIBOOT_FLAG_MMAP \<noteq> 0"
    and map: "maddr = load32 (fr_mem s) (mb + 48)" "mlen = load32 (fr_mem s) (mb + 44)" "mmap_at (fr_mem s) maddr (maddr + mlen) es"
    and n: "n = clamp_u64_to_u32 (mmap_top es) div FRAME_SIZE" "n \<noteq> 0" and ke: "unat kernel_end + 4095 < 2 ^ 32"
    and s1: "s1 = init_bitmap (frame_base (page_up kernel_end)) n s"
  shows "frame_allocator_init kernel_end mb s =
    Option.bind (mmap_free (load32 (fr_mem s1) (mb + 48)) (maddr + mlen) s1) (reserve_boot mb)"
proof -
  have p: "placement_addr (placement_init kernel_end s') = align_up kernel_end FRAME_SIZE" for s'
    by (simp add: placement_init_def)
  have mx: "mmap_max (fr_mem s) maddr (maddr + mlen) 0 = Some (mmap_top es)"
    using mmap_max_top [OF map(3)] by (simp add: mmap_top_def)
  show ?thesis
    using mb mx n(2) page_base [OF ke]
    unfolding frame_allocator_init_def map(1,2) [symmetric] n(1) [symmetric] s1 init_bitmap_def
    by (simp add: placement_init_def placement_alloc_def Let_def reserve_boot_def n(1) [symmetric] cong: bind_option_cong)
qed

lemma init_bitmap_spec:
  assumes s1: "s1 = init_bitmap (ad P) n s" and T: "unat n = T" "0 < T" "T < 2 ^ 20"
    and P: "0 < P" "Q = P + 4 * ((T + 31) div 32)" "Q \<le> 4096 * T"
  shows "frames_wf s1" "used_set s1 = {..<T}" "unat (total_frames s1) = T" "placement_addr s1 = ad Q"
    "in_bitmap s1 x \<longleftrightarrow> P \<le> x \<and> x < Q" "x < 2 ^ 32 \<Longrightarrow> \<not> (P \<le> x \<and> x < Q) \<Longrightarrow> fr_mem s1 (ad x) = fr_mem s (ad x)"
proof -
  let ?w = "(n + 31) div 32"
  have w: "unat ?w = (T + 31) div 32" using T by (simp add: unat_div_distrib unat_plus_no_wrap)
  have Q32: "P < 2 ^ 32" "Q \<le> 2 ^ 32" using P(2,3) T(3) by simp_all
  have up: "unat (ad P) = P" using unat_ad [OF Q32(1)] .
  have fields: "total_frames s1 = n" "bitmap_words s1 = ?w" "frame_bitmap s1 = ad P" "used_frames s1 = n"
    "placement_addr s1 = ad P + ?w * 4" "fr_mem s1 = memset (fr_mem s) (ad P) 0xFF (?w * 4)"
    by (simp_all add: s1 init_bitmap_def Let_def)
  have w4: "unat (?w * 4) = 4 * ((T + 31) div 32)" using w T(3) by (simp add: unat_word_ariths)
  show "unat (total_frames s1) = T" using fields T by simp
  have wf: "frames_wf s1 \<and> used_set s1 = {..<unat (total_frames s1)}"
    by (intro conjI fresh_bitmap_wf [where m = "fr_mem s"])
      (use fields T P Q32 up ad_eq_zero [OF Q32(1)] in simp_all)
  then show "frames_wf s1" "used_set s1 = {..<T}" using fields T by simp_all
  have "?w * 4 = of_nat (4 * ((T + 31) div 32))" by (simp add: w [symmetric])
  then show "placement_addr s1 = ad Q" by (simp only: fields P(2) ad_plus)
  show "in_bitmap s1 x \<longleftrightarrow> P \<le> x \<and> x < Q" using fields w up P(2) by (auto simp: in_bitmap_def)
  show "fr_mem s1 (ad x) = fr_mem s (ad x)" if "x < 2 ^ 32" "\<not> (P \<le> x \<and> x < Q)"
    unfolding fields by (rule memset_outside) (use w4 P(2) Q32 that in auto)
qed

lemma reserve_boot_spec:
  assumes wf: "frames_wf s" and T: "unat (total_frames s) = T" and Q: "placement_addr s = ad Q" "Q \<le> 4096 * T"
    and ld: "load32 (fr_mem s) (mb + 48) = maddr" "load32 (fr_mem s) (mb + 44) = mlen"
    and boot: "unat mb + 52 \<le> 4096 * T" "unat maddr + unat mlen \<le> 4096 * T"
    and out: "\<And>x. unat mb \<le> x \<Longrightarrow> x < unat mb + 52 \<Longrightarrow> \<not> in_bitmap s x"
  shows "\<exists>s'. reserve_boot mb s = Some s' \<and> frames_wf s' \<and> kept s s' \<and> unat (total_frames s') = T \<and>
    used_set s' = used_set s \<union> {f. 4096 * f < Q} \<union> region_frames maddr mlen \<union> region_frames mb 52"
proof -
  have T20: "T < 2 ^ 20" using frames_wfD(3) [OF wf] T by simp
  have uQ: "unat (placement_addr s) = Q" using Q T20 by (simp add: unat_ad)
  obtain s1 where s1: "reserve_region 0 (placement_addr s) s = Some s1" "frames_wf s1" "kept s s1"
    "used_set s1 = used_set s \<union> region_frames 0 (placement_addr s)"
    using region_ops_kept(1) [OF wf, of 0 "placement_addr s"] uQ Q(2) T by auto
  have ld1: "load32 (fr_mem s1) (mb + 48) = maddr" "load32 (fr_mem s1) (mb + 44) = mlen"
    using kept_boot [OF s1(3) _ out] boot(1) T20 ld by simp_all
  have T1: "unat (total_frames s1) = T" using s1(3) T by (simp add: kept_def)
  obtain s2 where s2: "reserve_region maddr mlen s1 = Some s2" "frames_wf s2" "kept s1 s2"
    "used_set s2 = used_set s1 \<union> region_frames maddr mlen"
    using region_ops_kept(1) [OF s1(2), of maddr mlen] boot(2) T1 by auto
  have T2: "unat (total_frames s2) = T" using s2(3) T1 by (simp add: kept_def)
  obtain s3 where s3: "reserve_region mb 52 s2 = Some s3" "frames_wf s3" "kept s2 s3"
    "used_set s3 = used_set s2 \<union> region_frames mb 52"
    using region_ops_kept(1) [OF s2(2), of mb 52] boot(1) T2 by auto
  have "unat (total_frames s3) = T" using s3(3) T2 by (simp add: kept_def)
  moreover have "region_frames 0 (placement_addr s) = {f. 4096 * f < Q}" by (simp add: region_frames_def uQ)
  moreover have "kept s s3" using kept_trans [OF kept_trans [OF s1(3) s2(3)] s3(3)] .
  ultimately show ?thesis using s1(1,4) s2(1,4) s3(1,2,4) ld1 by (simp add: reserve_boot_def)
qed

lemma frame_allocator_init_spec:
  assumes mb: "mb \<noteq> 0" "load32 (fr_mem s) mb AND MULTIBOOT_FLAG_MMAP \<noteq> 0"
    and map: "maddr = load32 (fr_mem s) (mb + 48)" "mlen = load32 (fr_mem s) (mb + 44)"
      "mmap_at (fr_mem s) maddr (maddr + mlen) es" "list_all (entry_ok T) es"
    and T: "T = unat (clamp_u64_to_u32 (mmap_top es)) div 4096" "0 < T"
    and bitmap: "P = 4096 * page_up kernel_end" "Q = P + 4 * ((T + 31) div 32)"
    and kernel: "0 < kernel_end" "unat kernel_end + 4095 < 2 ^ 32" "Q \<le> 4096 * T"
    and boot: "unat mb + 52 \<le> P \<or> Q \<le> unat mb" "unat mb + 52 \<le> 4096 * T"
      "unat maddr + unat mlen \<le> P \<or> Q \<le> unat maddr" "unat maddr + unat mlen \<le> 4096 * T"
  shows "\<exists>s'. frame_allocator_init kernel_end mb s = Some s' \<and> frames_wf s' \<and> unat (total_frames s') = T \<and>
    used_set s' = ({..<T} - (\<Union>en \<in> set es. available en)) \<union> {f. 4096 * f < Q} \<union>
      region_frames maddr mlen \<union> region_frames mb 52 \<and>
    (\<forall>x. in_bitmap s' x \<longleftrightarrow> P \<le> x \<and> x < Q) \<and>
    (\<forall>x < 2 ^ 32. \<not> (P \<le> x \<and> x < Q) \<longrightarrow> fr_mem s' (ad x) = fr_mem s (ad x))"
proof -
  let ?n = "clamp_u64_to_u32 (mmap_top es) div FRAME_SIZE" and ?e = "maddr + mlen"
  define s1 where "s1 = init_bitmap (frame_base (page_up kernel_end)) ?n s"
  have n: "unat ?n = T" by (simp add: T(1) unat_div_distrib)
  have T20: "T < 2 ^ 20" using unat_u32 [of "clamp_u64_to_u32 (mmap_top es)"] T(1) by (simp add: less_mult_imp_div_less)
  have P: "frame_base (page_up kernel_end) = ad P" "0 < P"
    using kernel(1,2) by (simp_all add: frame_base_def ad_def bitmap(1) page_up_def word_less_nat_alt div_greater_zero_iff)
  note I = init_bitmap_spec [OF s1_def [unfolded P(1)] n T(2) T20 P(2) bitmap(2) kernel(3)]
  have mbs: "unat mb + 52 \<le> 2 ^ 32" using boot(2) T20 by simp
  have same: "fr_mem s1 (ad x) = fr_mem s (ad x)" if "unat mb \<le> x" "x < unat mb + 52" for x
    by (rule I(6)) (use that boot(1) mbs in auto)
  have ld: "load32 (fr_mem s1) (mb + 48) = maddr" "load32 (fr_mem s1) (mb + 44) = mlen"
    unfolding map(1,2) by (rule boot_loads, rule same, assumption+)+
  have ue: "unat ?e = unat maddr + unat mlen" using boot(4) T20 by (simp add: unat_plus_no_wrap)
  have clear: "\<not> in_bitmap s1 x" if "unat maddr \<le> x" "x < unat ?e" for x
    using that boot(3) unfolding I(5) ue by linarith
  have same_map: "fr_mem s1 (ad x) = fr_mem s (ad x)" if "unat maddr \<le> x" "x < unat ?e" for x
    using clear [OF that] unfolding I(5) by (rule I(6) [rotated]) (rule less_trans [OF that(2)], simp)
  have at1: "mmap_at (fr_mem s1) maddr ?e es" by (rule mmap_at_cong [OF same_map map(3)])
  obtain s2 where s2: "mmap_free maddr ?e s1 = Some s2" "frames_wf s2" "kept s1 s2"
    "used_set s2 = used_set s1 - (\<Union>en \<in> set es. available en)"
    using mmap_free_spec [OF I(1) at1] map(4) I(3) clear by auto
  have K: "unat (total_frames s2) = T" "placement_addr s2 = ad Q" "\<And>x. in_bitmap s2 x = in_bitmap s1 x"
    using s2(3) I(3,4) by (simp_all add: kept_def in_bitmap_def)
  have mbclear: "\<not> in_bitmap s1 x" if "unat mb \<le> x" "x < unat mb + 52" for x
    using that boot(1) unfolding I(5) by linarith
  have ld2: "load32 (fr_mem s2) (mb + 48) = maddr" "load32 (fr_mem s2) (mb + 44) = mlen"
    using kept_boot [OF s2(3) mbs mbclear] ld by simp_all
  have "\<exists>s'. reserve_boot mb s2 = Some s' \<and> frames_wf s' \<and> kept s2 s' \<and> unat (total_frames s') = T \<and>
      used_set s' = used_set s2 \<union> {f. 4096 * f < Q} \<union> region_frames maddr mlen \<union> region_frames mb 52"
    by (rule reserve_boot_spec) (use s2(2) K kernel(3) ld2 boot(2,4) mbclear in auto)
  then obtain s' where s': "reserve_boot mb s2 = Some s'" "frames_wf s'" "kept s2 s'" "unat (total_frames s') = T"
    "used_set s' = used_set s2 \<union> {f. 4096 * f < Q} \<union> region_frames maddr mlen \<union> region_frames mb 52" by blast
  note K' = kept_trans [OF s2(3) s'(3)]
  have "in_bitmap s' x \<longleftrightarrow> P \<le> x \<and> x < Q" for x using K' I(5) by (simp add: kept_def in_bitmap_def)
  moreover have "fr_mem s' (ad x) = fr_mem s (ad x)" if "x < 2 ^ 32" "\<not> (P \<le> x \<and> x < Q)" for x
    using K' I(5,6) that by (simp add: kept_def)
  moreover have "?n \<noteq> 0" using n T(2) by (metis unat_0 less_numeral_extra(3))
  then have "frame_allocator_init kernel_end mb s = reserve_boot mb s2"
    using frame_allocator_init_steps [OF mb map(1-3) refl _ kernel(2) s1_def] ld(1) s2(1) by simp
  ultimately show ?thesis using s' s2(4) I(2) by simp
qed

subsection \<open>Properties\<close>

text \<open>
  C12. The frames at start-up: for a memory map of regions inside the memory, a kernel image and
  a bitmap that fit, and boot structures the bitmap does not overlap, initialisation returns a
  well-formed allocator whose frames cover the memory up to the highest region. In use are
  exactly the frames that start in no available region, those below the end of the bitmap,
  which cover the kernel, and those that start in the memory map or the boot structure.
\<close>

theorem frame_allocator_init_used:
  assumes mb: "mb \<noteq> 0" "load32 (fr_mem s) mb AND MULTIBOOT_FLAG_MMAP \<noteq> 0"
    and map: "maddr = load32 (fr_mem s) (mb + 48)" "mlen = load32 (fr_mem s) (mb + 44)"
      "mmap_at (fr_mem s) maddr (maddr + mlen) es" "list_all (entry_ok T) es"
    and T: "T = unat (clamp_u64_to_u32 (mmap_top es)) div 4096" "0 < T"
    and bitmap: "P = 4096 * page_up kernel_end" "Q = P + 4 * ((T + 31) div 32)"
    and kernel: "0 < kernel_end" "unat kernel_end + 4095 < 2 ^ 32" "Q \<le> 4096 * T"
    and boot: "unat mb + 52 \<le> P \<or> Q \<le> unat mb" "unat mb + 52 \<le> 4096 * T"
      "unat maddr + unat mlen \<le> P \<or> Q \<le> unat maddr" "unat maddr + unat mlen \<le> 4096 * T"
  shows "\<exists>s'. frame_allocator_init kernel_end mb s = Some s' \<and> frames_wf s' \<and> unat (total_frames s') = T \<and>
    used_set s' = ({..<T} - (\<Union>en \<in> set es. available en)) \<union> {f. 4096 * f < Q} \<union>
      region_frames maddr mlen \<union> region_frames mb 52"
  using frame_allocator_init_spec [OF assms] by blast

text \<open>Eight frames of memory, a one-page kernel, and the boot structures in the third frame.\<close>

definition boot_demo :: frame_state where
  "boot_demo = \<lparr>fr_mem = (\<lambda>_. 0)(0x2000 := 0x40, 0x202C := 24, 0x2031 := 0x21, 0x2100 := 20, 0x210D := 0x80, 0x2114 := 1),
     frame_bitmap = 0, total_frames = 0, used_frames = 0, bitmap_words = 0, placement_addr = 0\<rparr>"

lemma boot_demo_map:
  "load32 (fr_mem boot_demo) 0x2000 = 0x40" "load32 (fr_mem boot_demo) 0x202C = 24" "load32 (fr_mem boot_demo) 0x2030 = 0x2100"
  "mmap_at (fr_mem boot_demo) 0x2100 0x2118 [(0, 0x8000, 1)]" "mmap_top [(0, 0x8000, 1)] = 0x8000"
  by (simp_all add: boot_demo_def load32_def load64_def entry_at_def mmap_next_def mmap_top_def)

theorem frame_allocator_init_used_witness:
  "\<exists>s'. frame_allocator_init 0x1000 0x2000 boot_demo = Some s' \<and> frames_wf s' \<and> used_set s' = {0, 1, 2}"
proof -
  have up: "page_up 0x1000 = 1" by (simp add: page_up_def)
  have r: "f \<notin> region_frames 0x2100 24" "f \<in> region_frames 0x2000 52 \<longleftrightarrow> f = 2" "4096 * f < 4100 \<longleftrightarrow> f < 2" for f
  proof -
    consider "f < 2" | "f = 2" | "2 < f" by linarith
    then show "f \<notin> region_frames 0x2100 24" "f \<in> region_frames 0x2000 52 \<longleftrightarrow> f = 2" "4096 * f < 4100 \<longleftrightarrow> f < 2"
      by (cases; simp add: region_frames_def)+
  qed
  have r8: "region_frames 0 0x8000 = {..<8}" by (auto simp: region_frames_def)
  have "\<exists>s'. frame_allocator_init 0x1000 0x2000 boot_demo = Some s' \<and> frames_wf s' \<and> unat (total_frames s') = 8 \<and>
    used_set s' = ({..<8} - (\<Union>en \<in> set [(0, 0x8000, 1)]. available en)) \<union> {f. 4096 * f < 4100} \<union>
      region_frames 0x2100 24 \<union> region_frames 0x2000 52"
    by (rule frame_allocator_init_used [where P = 4096 and es = "[(0, 0x8000, 1)]"])
      (use boot_demo_map in \<open>simp_all add: up entry_ok_def clamp_u64_to_u32_def\<close>)
  moreover have "({..<8} - (\<Union>en \<in> set [(0, 0x8000, 1)]. available en)) \<union> {f. 4096 * f < 4100} \<union>
      region_frames 0x2100 24 \<union> region_frames 0x2000 52 = {0, 1, 2}"
    by (rule set_eqI) (auto simp: r r8 available_def)
  ultimately show ?thesis by auto
qed

end
