(* ===== verification/Logger.thy ===== *)
theory Logger
  imports Kprintf
begin

text \<open>
  The kernel log (\<^verbatim>\<open>src/lib/logger.c\<close>): messages below the current level are dropped, the
  others go to the console with the name of their level in front. The levels are ordered by
  their numbers in \<^verbatim>\<open>enum log_level\<close>.
\<close>

datatype log_level = LOG_INFO | LOG_WARN | LOG_ERR

primrec level_number :: "log_level \<Rightarrow> nat" where
  "level_number LOG_INFO = 0"
| "level_number LOG_WARN = 1"
| "level_number LOG_ERR = 2"

lemma level_number_inject: "level_number a = level_number b \<longleftrightarrow> a = b"
  by (cases a; cases b) simp_all

instantiation log_level :: linorder
begin

definition less_eq_log_level :: "log_level \<Rightarrow> log_level \<Rightarrow> bool" where
  "less_eq_log_level a b \<longleftrightarrow> level_number a \<le> level_number b"

definition less_log_level :: "log_level \<Rightarrow> log_level \<Rightarrow> bool" where
  "less_log_level a b \<longleftrightarrow> level_number a < level_number b"

instance
  by standard (auto simp: less_eq_log_level_def less_log_level_def level_number_inject)

end

lemma level_less_iff: "a < b \<longleftrightarrow> level_number a < level_number b"
  by (simp add: less_log_level_def)

subsection \<open>The code\<close>

record logs =
  current_level :: log_level
  log_console :: monitor

definition level_names :: "string list" where
  "level_names = [''INFO'', ''WARN'', ''ERR'']"

text \<open>What \<^verbatim>\<open>kprintf("[%s] ", level_names[level])\<close> writes.\<close>

definition log_prefix :: "log_level \<Rightarrow> u8 list" where
  "log_prefix level = bytes ''['' @ bytes (level_names ! level_number level) @ bytes ''] ''"

definition vlog_message :: "memory \<Rightarrow> log_level \<Rightarrow> u32 \<Rightarrow> u32 list \<Rightarrow> logs \<Rightarrow> logs option" where
  "vlog_message m level fmt args s =
     (if level < current_level s then Some s
      else
        Option.bind (monitor_write (log_prefix level) (log_console s)) (\<lambda>mon.
        Option.bind (kprintf m fmt args mon) (\<lambda>mon. Some (s\<lparr>log_console := mon\<rparr>))))"

definition log_set_level :: "log_level \<Rightarrow> logs \<Rightarrow> logs" where
  "log_set_level level s = s\<lparr>current_level := level\<rparr>"

definition log_message :: "memory \<Rightarrow> log_level \<Rightarrow> u32 \<Rightarrow> u32 list \<Rightarrow> logs \<Rightarrow> logs option" where
  "log_message m level fmt args s = vlog_message m level fmt args s"

definition log_info :: "memory \<Rightarrow> u32 \<Rightarrow> u32 list \<Rightarrow> logs \<Rightarrow> logs option" where
  "log_info m fmt args s = vlog_message m LOG_INFO fmt args s"

definition log_warn :: "memory \<Rightarrow> u32 \<Rightarrow> u32 list \<Rightarrow> logs \<Rightarrow> logs option" where
  "log_warn m fmt args s = vlog_message m LOG_WARN fmt args s"

definition log_err :: "memory \<Rightarrow> u32 \<Rightarrow> u32 list \<Rightarrow> logs \<Rightarrow> logs option" where
  "log_err m fmt args s = vlog_message m LOG_ERR fmt args s"

subsection \<open>A log of rendered messages\<close>

text \<open>
  The effect of a message whose format renders to given bytes; components that only log
  constant formats use it in place of the format in memory.
\<close>

definition log_bytes :: "log_level \<Rightarrow> u8 list \<Rightarrow> logs \<Rightarrow> logs option" where
  "log_bytes level out s =
     (if level < current_level s then Some s
      else map_option (\<lambda>mon. s\<lparr>log_console := mon\<rparr>) (monitor_write (log_prefix level @ out) (log_console s)))"

lemma vlog_message_bytes:
  "kvprintf m fmt args = Some out \<Longrightarrow> vlog_message m level fmt args s = log_bytes level out s"
  by (cases "monitor_write (log_prefix level) (log_console s)")
    (simp_all add: vlog_message_def log_bytes_def kprintf_def monitor_write_append map_option_case
      split: option.split)

text \<open>What a message adds to the log, given the level in force.\<close>

definition log_entry :: "log_level \<Rightarrow> log_level \<Rightarrow> u8 list \<Rightarrow> u8 list" where
  "log_entry threshold level out = (if level < threshold then [] else log_prefix level @ out)"

lemma log_bytes_entry:
  "log_bytes level out s = map_option (\<lambda>mon. s\<lparr>log_console := mon\<rparr>)
     (monitor_write (log_entry (current_level s) level out) (log_console s))"
  by (simp add: log_bytes_def log_entry_def)

text \<open>A program run as a sequence of calls of the log, with formats in memory.\<close>

datatype log_call = Set_Level log_level | Message log_level u32 "u32 list"

primrec log_calls :: "memory \<Rightarrow> log_call list \<Rightarrow> logs \<Rightarrow> logs option" where
  "log_calls m [] s = Some s"
| "log_calls m (c # cs) s =
     (case c of
        Set_Level l \<Rightarrow> log_calls m cs (log_set_level l s)
      | Message l fmt args \<Rightarrow> Option.bind (log_message m l fmt args s) (log_calls m cs))"

primrec log_text :: "memory \<Rightarrow> log_level \<Rightarrow> log_call list \<Rightarrow> u8 list" where
  "log_text m threshold [] = []"
| "log_text m threshold (c # cs) =
     (case c of
        Set_Level l \<Rightarrow> log_text m l cs
      | Message l fmt args \<Rightarrow> log_entry threshold l (the (kvprintf m fmt args)) @ log_text m threshold cs)"

primrec log_level_after :: "log_level \<Rightarrow> log_call list \<Rightarrow> log_level" where
  "log_level_after l [] = l"
| "log_level_after l (c # cs) = (case c of Set_Level l' \<Rightarrow> log_level_after l' cs | Message _ _ _ \<Rightarrow> log_level_after l cs)"

lemma log_calls_spec:
  assumes "on_screen (log_console s)" and "\<forall>l fmt args. Message l fmt args \<in> set cs \<longrightarrow> kvprintf m fmt args \<noteq> None"
  shows "log_calls m cs s = map_option (\<lambda>mon. \<lparr>current_level = log_level_after (current_level s) cs, log_console = mon\<rparr>)
    (monitor_write (log_text m (current_level s) cs) (log_console s))"
  using assms
proof (induction cs arbitrary: s)
  case Nil
  then show ?case by simp
next
  case (Cons c cs)
  show ?case
  proof (cases c)
    case (Set_Level l)
    with Cons show ?thesis by (simp add: log_set_level_def)
  next
    case (Message l fmt args)
    obtain out where out: "kvprintf m fmt args = Some out" using Cons.prems(2) Message by fastforce
    let ?e = "log_entry (current_level s) l out"
    obtain mon where mon: "monitor_write ?e (log_console s) = Some mon" "on_screen mon"
      using monitor_write_spec [OF Cons.prems(1)] by blast
    have "log_calls m cs (s\<lparr>log_console := mon\<rparr>) =
        map_option (\<lambda>mon. \<lparr>current_level = log_level_after (current_level s) cs, log_console = mon\<rparr>)
          (monitor_write (log_text m (current_level s) cs) mon)"
      using Cons.IH [of "s\<lparr>log_console := mon\<rparr>"] mon(2) Cons.prems(2) by simp
    then show ?thesis
      using Message mon(1)
      by (simp add: log_message_def vlog_message_bytes [OF out] log_bytes_entry out monitor_write_append)
  qed
qed

subsection \<open>Properties\<close>

text \<open>
  The log: for any sequence of messages with formats that render and of changes of the
  level, every call returns, the last level set is in force, and what goes out over the serial
  line is, in order, each message at or above the level in force at its time, with its prefix.
\<close>

theorem log_filters:
  assumes "on_screen (log_console s)" and "serial_enabled (log_console s)"
    and "\<forall>l fmt args. Message l fmt args \<in> set cs \<longrightarrow> kvprintf m fmt args \<noteq> None"
  shows "\<exists>s'. log_calls m cs s = Some s' \<and> current_level s' = log_level_after (current_level s) cs \<and>
    serial_out (log_console s') = serial_out (log_console s) @ log_text m (current_level s) cs"
  using log_calls_spec [OF assms(1,3)] monitor_write_spec [OF assms(1), of "log_text m (current_level s) cs"] assms(2)
  by auto

definition log_demo :: "log_call list" where
  "log_demo = [Message LOG_INFO 100 [42], Set_Level LOG_WARN, Message LOG_INFO 100 [42], Message LOG_ERR 100 [7]]"

theorem log_filters_witness:
  "\<exists>s'. log_calls format_demo log_demo \<lparr>current_level = LOG_INFO, log_console = blank_monitor\<rparr> = Some s' \<and>
     current_level s' = LOG_WARN \<and> serial_out (log_console s') = bytes ''[INFO] x=0042[ERR] x=0007''"
proof -
  have str: "cstring format_demo 100 (concat (map piece_text [Lit 120, Lit 61, Conv True 4 117]))"
    by (simp add: format_demo_def width_digits_def nat_digits.simps)
  have r: "kvprintf format_demo 100 [v] = Some (bytes ''x='' @ print_uint_base (ucast v) 10 4 48 False)" for v
    using kvprintf_loop_render [of format_demo 100 0 "[Lit 120, Lit 61, Conv True 4 117]" "[v]" "[]"] str
    by (simp add: kvprintf_def is_digit_def convert_def va_arg32_def)
  have d: "print_uint_base 42 10 4 48 False = bytes ''0042''" "print_uint_base 7 10 4 48 False = bytes ''0007''"
    using print_uint_base_digits [of 10 42 4 48 False] print_uint_base_digits [of 10 7 4 48 False]
    by (simp_all add: nat_digits.simps digit_chars_def replicate_2 numeral_3_eq_3)
  have "\<exists>s'. log_calls format_demo log_demo \<lparr>current_level = LOG_INFO, log_console = blank_monitor\<rparr> = Some s' \<and>
    current_level s' = log_level_after LOG_INFO log_demo \<and> serial_out (log_console s') =
      serial_out blank_monitor @ log_text format_demo LOG_INFO log_demo"
    using log_filters [of "\<lparr>current_level = LOG_INFO, log_console = blank_monitor\<rparr>" log_demo format_demo]
      blank_monitor_on_screen r by (simp add: log_demo_def blank_monitor_def)
  then show ?thesis
    by (simp add: log_demo_def r d log_entry_def log_prefix_def level_names_def level_less_iff blank_monitor_def)
qed

end
