(* ===== verification/Multiboot.thy ===== *)
theory Multiboot
  imports Logger Frame_Init
begin

text \<open>
  The report on the boot information (\<^verbatim>\<open>src/boot/multiboot.c\<close>) and the processor check
  (\<^verbatim>\<open>src/boot/smp.c\<close>). Messages are the bytes their formats render; \<^verbatim>\<open>cpuid\<close> is a parameter
  that returns the four registers.
\<close>

subsection \<open>The code\<close>

abbreviation MULTIBOOT_MAGIC :: u32 where
  "MULTIBOOT_MAGIC \<equiv> 0x2BADB002"

definition hex_text :: "u32 \<Rightarrow> u8 list" where
  "hex_text v = print_uint_base (ucast v) 16 0 32 True"

definition mmap_line :: "mmap_entry \<Rightarrow> u8 list" where
  "mmap_line en =
     (case en of (b, l, t) \<Rightarrow>
        bytes ''  base='' @ print_uint_base b 10 0 32 False @ bytes '' len='' @ print_uint_base l 10 0 32 False @
        bytes '' type='' @ print_uint_base (ucast t) 10 0 32 False @ [10])"

partial_function (option) multiboot_loop :: "memory \<Rightarrow> u32 \<Rightarrow> u32 \<Rightarrow> monitor \<Rightarrow> monitor option" where
  "multiboot_loop m entry mmap_end mon =
     (if entry < mmap_end then
        Option.bind
          (monitor_write (mmap_line (load64 m (entry + 4), load64 m (entry + 12), load32 m (entry + 20))) mon)
          (multiboot_loop m (mmap_next m entry) mmap_end)
      else Some mon)"

definition multiboot_init :: "u32 \<Rightarrow> u32 \<Rightarrow> memory \<Rightarrow> logs \<Rightarrow> (u32 \<times> logs) option" where
  "multiboot_init magic mb m s =
     (if magic \<noteq> MULTIBOOT_MAGIC then
        map_option (\<lambda>s. (0, s)) (log_bytes LOG_WARN (bytes ''Multiboot magic yok: 0x'' @ hex_text magic @ [10]) s)
      else
        let flags = load32 m mb in
        Option.bind (log_bytes LOG_INFO (bytes ''Multiboot OK. flags=0x'' @ hex_text flags @ [10]) s) (\<lambda>s.
          if flags AND MULTIBOOT_FLAG_MMAP \<noteq> 0 then
            let mmap_addr = load32 m (mb + 48); mmap_end = mmap_addr + load32 m (mb + 44) in
            Option.bind (log_bytes LOG_INFO (bytes ''Memory map:'' @ [10]) s) (\<lambda>s.
              map_option (\<lambda>mon. (mb, s\<lparr>log_console := mon\<rparr>)) (multiboot_loop m mmap_addr mmap_end (log_console s)))
          else
            map_option (\<lambda>s. (mb, s)) (log_bytes LOG_WARN (bytes ''Memory map yok (flags=0x'' @ hex_text flags @ bytes '')'' @ [10]) s)))"

definition smp_init :: "(u32 \<Rightarrow> u32 \<times> u32 \<times> u32 \<times> u32) \<Rightarrow> logs \<Rightarrow> (int \<times> logs) option" where
  "smp_init cpuid s =
     (let (eax, ebx, ecx, edx) = cpuid 1 in
      if edx AND push_bit 9 1 = 0 then
        map_option (\<lambda>s. (-1, s)) (log_bytes LOG_WARN (bytes ''SMP: APIC not supported.'' @ [10]) s)
      else map_option (\<lambda>s. (0, s)) (log_bytes LOG_INFO (bytes ''SMP: APIC present (stub init).'' @ [10]) s))"

subsection \<open>The report\<close>

lemma multiboot_loop_lines:
  "mmap_at m a e es \<Longrightarrow> multiboot_loop m a e mon = monitor_write (concat (map mmap_line es)) mon"
proof (induction es arbitrary: a mon)
  case Nil
  then show ?case by (subst multiboot_loop.simps) simp
next
  case (Cons en es)
  have "a < e" using Cons.prems unat_u32 [of e] by (simp add: word_less_nat_alt)
  moreover have "multiboot_loop m (mmap_next m a) e = monitor_write (concat (map mmap_line es))"
    using Cons by auto
  ultimately show ?case
    using Cons.prems by (subst multiboot_loop.simps) (simp add: entry_at_def monitor_write_append)
qed

lemma log_bytes_spec:
  assumes "on_screen (log_console s)" and "serial_enabled (log_console s)"
  shows "\<exists>s'. log_bytes level out s = Some s' \<and> on_screen (log_console s') \<and> serial_enabled (log_console s') \<and>
    current_level s' = current_level s \<and>
    serial_out (log_console s') = serial_out (log_console s) @ log_entry (current_level s) level out"
  using monitor_write_spec [OF assms(1), of "log_entry (current_level s) level out"] assms(2)
  by (auto simp: log_bytes_entry)

subsection \<open>Properties\<close>

text \<open>
  Boot information: with a wrong magic number \<^verbatim>\<open>multiboot_init\<close> warns and returns null, on
  which the frame allocator stays uninitialised; otherwise, for a memory map laid out as the
  standard says, it returns the structure it was given and reports the flags and one line for
  each entry of the map, in order.
\<close>

theorem multiboot_init_reports:
  assumes con: "on_screen (log_console s)" "serial_enabled (log_console s)" "current_level s = LOG_INFO"
    and map: "load32 m mb AND MULTIBOOT_FLAG_MMAP \<noteq> 0"
      "mmap_at m (load32 m (mb + 48)) (load32 m (mb + 48) + load32 m (mb + 44)) es"
  shows "(magic \<noteq> MULTIBOOT_MAGIC \<longrightarrow>
      (\<exists>s'. multiboot_init magic mb m s = Some (0, s')) \<and> frame_allocator_init kernel_end 0 fs = Some fs) \<and>
    (\<exists>s'. multiboot_init MULTIBOOT_MAGIC mb m s = Some (mb, s') \<and> on_screen (log_console s') \<and>
      serial_out (log_console s') = serial_out (log_console s) @
        log_prefix LOG_INFO @ bytes ''Multiboot OK. flags=0x'' @ hex_text (load32 m mb) @ [10] @
        log_prefix LOG_INFO @ bytes ''Memory map:'' @ [10] @ concat (map mmap_line es))"
proof (intro conjI impI)
  show "\<exists>s'. multiboot_init magic mb m s = Some (0, s')" if "magic \<noteq> MULTIBOOT_MAGIC"
    using log_bytes_spec [OF con(1,2), of LOG_WARN "bytes ''Multiboot magic yok: 0x'' @ hex_text magic @ [10]"] that
    by (auto simp: multiboot_init_def)
  show "frame_allocator_init kernel_end 0 fs = Some fs" by (simp add: frame_allocator_init_def)
  let ?l1 = "bytes ''Multiboot OK. flags=0x'' @ hex_text (load32 m mb) @ [10]" and ?l2 = "bytes ''Memory map:'' @ [10]"
  have entry: "log_entry LOG_INFO LOG_INFO out = log_prefix LOG_INFO @ out" for out by (simp add: log_entry_def)
  obtain s1 where s1: "log_bytes LOG_INFO ?l1 s = Some s1" "on_screen (log_console s1)" "serial_enabled (log_console s1)"
    "current_level s1 = LOG_INFO" "serial_out (log_console s1) = serial_out (log_console s) @ log_prefix LOG_INFO @ ?l1"
    using log_bytes_spec [OF con(1,2), of LOG_INFO ?l1] con(3) by (auto simp: entry)
  obtain s2 where s2: "log_bytes LOG_INFO ?l2 s1 = Some s2" "on_screen (log_console s2)" "serial_enabled (log_console s2)"
    "serial_out (log_console s2) = serial_out (log_console s1) @ log_prefix LOG_INFO @ ?l2"
    using log_bytes_spec [OF s1(2,3), of LOG_INFO ?l2] s1(4) by (auto simp: entry)
  obtain mon where mon: "monitor_write (concat (map mmap_line es)) (log_console s2) = Some mon" "on_screen mon"
    "serial_out mon = serial_out (log_console s2) @ concat (map mmap_line es)"
    using monitor_write_spec [OF s2(2)] s2(3) by fastforce
  have "multiboot_init MULTIBOOT_MAGIC mb m s = Some (mb, s2\<lparr>log_console := mon\<rparr>)"
    using s1(1) s2(1) mon(1) map multiboot_loop_lines [OF map(2)] by (simp add: multiboot_init_def Let_def)
  then show "\<exists>s'. multiboot_init MULTIBOOT_MAGIC mb m s = Some (mb, s') \<and> on_screen (log_console s') \<and>
      serial_out (log_console s') = serial_out (log_console s) @
        log_prefix LOG_INFO @ bytes ''Multiboot OK. flags=0x'' @ hex_text (load32 m mb) @ [10] @
        log_prefix LOG_INFO @ bytes ''Memory map:'' @ [10] @ concat (map mmap_line es)"
    using mon(2,3) s2(4) s1(5) by simp
qed

theorem multiboot_init_reports_witness:
  "\<exists>s'. multiboot_init MULTIBOOT_MAGIC 0x2000 (fr_mem boot_demo) \<lparr>current_level = LOG_INFO, log_console = blank_monitor\<rparr> =
     Some (0x2000, s') \<and> on_screen (log_console s')"
proof -
  have ld: "load32 (fr_mem boot_demo) 0x2000 AND MULTIBOOT_FLAG_MMAP \<noteq> 0"
    "mmap_at (fr_mem boot_demo) (load32 (fr_mem boot_demo) (0x2000 + 48))
      (load32 (fr_mem boot_demo) (0x2000 + 48) + load32 (fr_mem boot_demo) (0x2000 + 44)) [(0, 0x8000, 1)]"
    using boot_demo_map by simp_all
  have con: "on_screen (log_console \<lparr>current_level = LOG_INFO, log_console = blank_monitor\<rparr>)"
    "serial_enabled (log_console \<lparr>current_level = LOG_INFO, log_console = blank_monitor\<rparr>)"
    "current_level \<lparr>current_level = LOG_INFO, log_console = blank_monitor\<rparr> = LOG_INFO"
    using blank_monitor_on_screen by (simp_all add: blank_monitor_def)
  show ?thesis using conjunct2 [OF multiboot_init_reports [OF con ld]] by blast
qed

end
