(* ===== verification/Panic.thy ===== *)
theory Panic
  imports Kprintf
begin

text \<open>
  The crash report (\<^verbatim>\<open>src/lib/panic.c\<close>): the bytes that \<^verbatim>\<open>panic\<close> and \<^verbatim>\<open>panic_with_regs\<close>
  print before they halt the processor for good. Formats are the bytes they render; the file
  name and the line are what the macro \<^verbatim>\<open>PANIC_REGS\<close> passes.
\<close>

subsection \<open>The code\<close>

record cpu_frame =
  f_ds :: u32
  f_edi :: u32
  f_esi :: u32
  f_ebp :: u32
  f_esp :: u32
  f_ebx :: u32
  f_edx :: u32
  f_ecx :: u32
  f_eax :: u32
  f_int_no :: u32
  f_err_code :: u32
  f_eip :: u32
  f_cs :: u32
  f_eflags :: u32
  f_useresp :: u32
  f_ss :: u32

text \<open>What \<^verbatim>\<open>%p\<close>, \<^verbatim>\<open>%u\<close> and \<^verbatim>\<open>%d\<close> render.\<close>

definition ptr_text :: "u32 \<Rightarrow> u8 list" where
  "ptr_text v = bytes ''0x'' @ print_uint_base (ucast v) 16 8 48 True"

definition uint_text :: "u32 \<Rightarrow> u8 list" where
  "uint_text v = print_uint_base (ucast v) 10 0 32 False"

definition int_text :: "int \<Rightarrow> u8 list" where
  "int_text v = print_int_decimal v 0 32"

definition backtrace_line :: "nat \<Rightarrow> u32 \<Rightarrow> u32 \<Rightarrow> u8 list" where
  "backtrace_line i frame ret =
     bytes ''  #'' @ int_text (int i) @ bytes '' ebp='' @ ptr_text frame @ bytes '' ret='' @ ptr_text ret @ [10]"

function backtrace_loop :: "memory \<Rightarrow> nat \<Rightarrow> u32 \<Rightarrow> u8 list" where
  "backtrace_loop m i frame =
     (if i < 10 then
        if frame = 0 then []
        else
          let next_ebp = load32 m frame; ret_addr = load32 m (frame + 4) in
          backtrace_line i frame ret_addr @
          (if next_ebp AND 3 \<noteq> 0 \<or> next_ebp \<le> frame then [] else backtrace_loop m (i + 1) next_ebp)
      else [])"
  by pat_completeness auto
termination by (relation "measure (\<lambda>(m, i, frame). 10 - i)") auto

declare backtrace_loop.simps [simp del]

definition dump_backtrace :: "memory \<Rightarrow> u32 \<Rightarrow> u8 list" where
  "dump_backtrace m ebp = bytes ''Backtrace:'' @ [10] @ backtrace_loop m 0 ebp"

definition stack_line :: "memory \<Rightarrow> u32 \<Rightarrow> nat \<Rightarrow> u8 list" where
  "stack_line m esp i =
     bytes ''  ['' @ ptr_text (esp + 4 * of_nat i) @ bytes ''] '' @ ptr_text (load32 m (esp + 4 * of_nat i)) @ [10]"

definition dump_stack :: "memory \<Rightarrow> u32 \<Rightarrow> u8 list" where
  "dump_stack m esp = bytes ''Stack (top 16 words):'' @ [10] @ concat (map (stack_line m esp) [0..<16])"

definition panic_line :: "u8 list \<Rightarrow> u8 list \<Rightarrow> u32 \<Rightarrow> u8 list" where
  "panic_line msg src_file line =
     bytes ''KERNEL PANIC: '' @ msg @ bytes '' ('' @ src_file @ bytes '':'' @ uint_text line @ bytes '')'' @ [10]"

text \<open>The console when the processor halts.\<close>

definition panic :: "u8 list \<Rightarrow> u8 list \<Rightarrow> u32 \<Rightarrow> monitor \<Rightarrow> monitor option" where
  "panic msg src_file line mon = monitor_write (panic_line msg src_file line) mon"

definition regs_text :: "cpu_frame \<Rightarrow> u8 list" where
  "regs_text r =
     bytes ''INT='' @ uint_text (f_int_no r) @ bytes '' ERR='' @ uint_text (f_err_code r) @ [10] @
     bytes ''EIP='' @ ptr_text (f_eip r) @ bytes '' CS='' @ ptr_text (f_cs r) @ bytes '' EFLAGS='' @ ptr_text (f_eflags r) @ [10] @
     bytes ''EAX='' @ ptr_text (f_eax r) @ bytes '' EBX='' @ ptr_text (f_ebx r) @
     bytes '' ECX='' @ ptr_text (f_ecx r) @ bytes '' EDX='' @ ptr_text (f_edx r) @ [10] @
     bytes ''ESI='' @ ptr_text (f_esi r) @ bytes '' EDI='' @ ptr_text (f_edi r) @
     bytes '' EBP='' @ ptr_text (f_ebp r) @ bytes '' ESP='' @ ptr_text (f_esp r) @ [10]"

definition panic_with_regs ::
  "memory \<Rightarrow> u8 list \<Rightarrow> u8 list \<Rightarrow> u32 \<Rightarrow> cpu_frame option \<Rightarrow> monitor \<Rightarrow> monitor option" where
  "panic_with_regs m msg src_file line regs mon =
     Option.bind (monitor_write (panic_line msg src_file line) mon) (\<lambda>mon.
       case regs of
         None \<Rightarrow> Some mon
       | Some r \<Rightarrow>
           Option.bind (monitor_write (regs_text r) mon) (\<lambda>mon.
           Option.bind (monitor_write (dump_backtrace m (f_ebp r)) mon) (\<lambda>mon.
           monitor_write (dump_stack m (f_esp r)) mon)))"

subsection \<open>The chain of stack frames\<close>

text \<open>
  Call frames as the compiler links them: each saves the frame pointer of its caller at its
  base and the return address above; callers lie at higher, aligned addresses, and the
  outermost frame saved 0.
\<close>

fun frame_chain :: "memory \<Rightarrow> u32 \<Rightarrow> (u32 \<times> u32) list \<Rightarrow> bool" where
  "frame_chain m ebp [] \<longleftrightarrow> ebp = 0"
| "frame_chain m ebp ((f, ret) # fs) \<longleftrightarrow>
     ebp = f \<and> f \<noteq> 0 \<and> ret = load32 m (f + 4) \<and> frame_chain m (load32 m f) fs \<and>
     (fs \<noteq> [] \<longrightarrow> f < load32 m f \<and> load32 m f AND 3 = 0)"

definition backtrace_lines :: "nat \<Rightarrow> (u32 \<times> u32) list \<Rightarrow> u8 list" where
  "backtrace_lines i fs = concat (map (\<lambda>(k, f, ret). backtrace_line k f ret) (enumerate i fs))"

lemma backtrace_lines_simps [simp]:
  "backtrace_lines i [] = []" "backtrace_lines i ((f, r) # fs) = backtrace_line i f r @ backtrace_lines (i + 1) fs"
  by (simp_all add: backtrace_lines_def)

lemma frame_chain_next:
  "frame_chain m nx fs \<Longrightarrow> (fs \<noteq> [] \<Longrightarrow> f < nx \<and> nx AND 3 = 0) \<Longrightarrow> (nx AND 3 \<noteq> 0 \<or> nx \<le> f) = (fs = [])"
  by (cases fs) auto

lemma backtrace_loop_chain:
  "frame_chain m ebp fs \<Longrightarrow> backtrace_loop m i ebp = backtrace_lines i (take (10 - i) fs)"
proof (induction fs arbitrary: ebp i)
  case Nil
  then show ?case by (subst backtrace_loop.simps) simp
next
  case (Cons fr fs)
  obtain f r where fr: "fr = (f, r)" by (cases fr)
  show ?case
  proof (cases "i < 10")
    case True
    then have "10 - i = Suc (10 - (i + 1))" by simp
    then have t: "take (10 - i) (fr # fs) = fr # take (10 - (i + 1)) fs" by (simp only: take_Suc_Cons)
    have stop: "(load32 m f AND 3 \<noteq> 0 \<or> load32 m f \<le> f) = (fs = [])"
      using Cons.prems fr by (intro frame_chain_next [of m]) auto
    show ?thesis
      using Cons.IH [of "load32 m f" "i + 1"] Cons.prems fr True stop unfolding t
      by (subst backtrace_loop.simps) (auto simp: Let_def)
  next
    case False
    then show ?thesis by (subst backtrace_loop.simps) simp
  qed
qed

text \<open>Whatever the memory holds, what is printed is a strictly ascending sequence of at most ten frames.\<close>

lemma backtrace_loop_any:
  "\<exists>fs. backtrace_loop m i ebp = backtrace_lines i fs \<and> length fs \<le> 10 - i \<and>
     sorted_wrt (<) (map fst fs) \<and> (\<forall>(f, r) \<in> set fs. ebp \<le> f \<and> r = load32 m (f + 4))"
proof (induction m i ebp rule: backtrace_loop.induct)
  case (1 m i frame)
  show ?case
  proof (cases "i < 10 \<and> frame \<noteq> 0")
    case False
    then have "backtrace_loop m i frame = backtrace_lines i []" by (subst backtrace_loop.simps) auto
    then show ?thesis by (intro exI [of _ "[]"]) simp
  next
    case True
    let ?nx = "load32 m frame" and ?r = "load32 m (frame + 4)"
    show ?thesis
    proof (cases "?nx AND 3 \<noteq> 0 \<or> ?nx \<le> frame")
      case stop: True
      have "backtrace_loop m i frame = backtrace_lines i [(frame, ?r)]"
        using True stop by (subst backtrace_loop.simps) (auto simp: Let_def)
      then show ?thesis using True by (intro exI [of _ "[(frame, ?r)]"]) auto
    next
      case go: False
      then obtain fs where fs: "backtrace_loop m (i + 1) ?nx = backtrace_lines (i + 1) fs" "length fs \<le> 10 - (i + 1)"
        "sorted_wrt (<) (map fst fs)" "\<forall>(f, r) \<in> set fs. ?nx \<le> f \<and> r = load32 m (f + 4)"
        using "1.IH" [OF _ _ refl refl] True by auto
      have "backtrace_loop m i frame = backtrace_lines i ((frame, ?r) # fs)"
        using True go fs(1) by (subst backtrace_loop.simps) (simp add: Let_def)
      moreover have "frame < fst p" if "p \<in> set fs" for p using fs(4) that go by fastforce
      ultimately show ?thesis using fs True by (intro exI [of _ "(frame, ?r) # fs"]) (fastforce intro: less_imp_le)
    qed
  qed
qed

subsection \<open>Properties\<close>


definition stack_demo :: memory where
  "stack_demo = (\<lambda>_. 0)(0x1000 := 0x10, 0x1001 := 0x10, 0x1005 := 0x80, 0x1015 := 0x90)"

definition frame_demo :: cpu_frame where
  "frame_demo = \<lparr>f_ds = 16, f_edi = 0, f_esi = 0, f_ebp = 0x1000, f_esp = 0x0FE0, f_ebx = 0, f_edx = 0, f_ecx = 0,
     f_eax = 0, f_int_no = 13, f_err_code = 0, f_eip = 0x7000, f_cs = 8, f_eflags = 2, f_useresp = 0, f_ss = 0\<rparr>"


end
