(* ===== verification/User_Shell.thy ===== *)
theory User_Shell
  imports Syscalls
begin

text \<open>
  The user side of the system calls (\<^verbatim>\<open>src/user/userlib.c\<close>) and the shell that runs on them in
  user mode (\<^verbatim>\<open>src/user/user_shell.c\<close>). \<^verbatim>\<open>int $0x80\<close> is the call of the system call handler
  with the registers the inline assembly loads. A state holds the characters still to be
  typed, the stack pointer of the task and the kernel state with the memory. Where the
  compiler puts the literals and the local variables is a parameter.
\<close>

type_synonym ustate = "int list \<times> u32 \<times> sys"

subsection \<open>The system call library\<close>

definition int80 :: "registers \<Rightarrow> ustate \<Rightarrow> (u32 \<times> ustate) option" where
  "int80 regs t = (case t of (chars, esp, s) \<Rightarrow>
     map_option (\<lambda>(r, t). (eax r, t)) (syscall_handler regs chars esp s))"

definition lib_read :: "int \<Rightarrow> u32 \<Rightarrow> u32 \<Rightarrow> ustate \<Rightarrow> (int \<times> ustate) option" where
  "lib_read fd buf sz t =
     map_option (\<lambda>(r, t). (sint r, t)) (int80 \<lparr>eax = 0, ebx = word_of_int fd, ecx = buf, edx = sz\<rparr> t)"

definition lib_write :: "int \<Rightarrow> u32 \<Rightarrow> u32 \<Rightarrow> ustate \<Rightarrow> (int \<times> ustate) option" where
  "lib_write fd buf sz t =
     map_option (\<lambda>(r, t). (sint r, t)) (int80 \<lparr>eax = 1, ebx = word_of_int fd, ecx = buf, edx = sz\<rparr> t)"

text \<open>The other calls leave the registers they do not load as they are.\<close>

definition lib_open :: "registers \<Rightarrow> u32 \<Rightarrow> ustate \<Rightarrow> (int \<times> ustate) option" where
  "lib_open regs path t = map_option (\<lambda>(r, t). (sint r, t)) (int80 (regs\<lparr>eax := 2, ebx := path\<rparr>) t)"

definition lib_exit :: "registers \<Rightarrow> int \<Rightarrow> ustate \<Rightarrow> ustate option" where
  "lib_exit regs code t = map_option snd (int80 (regs\<lparr>eax := 3, ebx := word_of_int code\<rparr>) t)"

definition lib_ipc_send :: "registers \<Rightarrow> u32 \<Rightarrow> ustate \<Rightarrow> (int \<times> ustate) option" where
  "lib_ipc_send regs msg t = map_option (\<lambda>(r, t). (sint r, t)) (int80 (regs\<lparr>eax := 4, ebx := msg\<rparr>) t)"

definition lib_ipc_recv :: "registers \<Rightarrow> u32 \<Rightarrow> ustate \<Rightarrow> (int \<times> ustate) option" where
  "lib_ipc_recv regs msg t = map_option (\<lambda>(r, t). (sint r, t)) (int80 (regs\<lparr>eax := 5, ebx := msg\<rparr>) t)"

subsection \<open>The shell\<close>

text \<open>The addresses of the literals and of the variables \<^verbatim>\<open>line\<close> and \<^verbatim>\<open>ch\<close>.\<close>

record user_image =
  a_prompt :: u32
  a_newline :: u32
  a_erase :: u32
  a_exit_nl :: u32
  a_exit :: u32
  a_echo :: u32
  a_line :: u32
  a_ch :: u32

definition user_store :: "u32 \<Rightarrow> u8 \<Rightarrow> ustate \<Rightarrow> ustate" where
  "user_store a v t = (case t of (chars, esp, s) \<Rightarrow> (chars, esp, set_memory (store8 (memory_of s) a v) s))"

definition user_memory :: "ustate \<Rightarrow> memory" where
  "user_memory t = (case t of (chars, esp, s) \<Rightarrow> memory_of s)"

partial_function (option) user_read_loop :: "user_image \<Rightarrow> nat \<Rightarrow> ustate \<Rightarrow> (nat \<times> ustate) option" where
  "user_read_loop img n t =
     (if n < 63 then
        Option.bind (lib_read 0 (a_ch img) 1 (user_store (a_ch img) 0 t)) (\<lambda>(r, t).
          if r \<le> 0 then user_read_loop img n t
          else
            let t = (if load8 (user_memory t) (a_ch img) = 13 then user_store (a_ch img) 10 t else t);
                ch = load8 (user_memory t) (a_ch img)
            in
              if ch = 10 then Option.bind (lib_write 1 (a_newline img) 1 t) (\<lambda>(_, t). Some (n, t))
              else if ch = 8 \<or> ch = 0x7F then
                if n > 0 then Option.bind (lib_write 1 (a_erase img) 3 t) (\<lambda>(_, t). user_read_loop img (n - 1) t)
                else user_read_loop img n t
              else
                Option.bind (lib_write 1 (a_ch img) 1 (user_store (a_line img + of_nat n) ch t)) (\<lambda>(_, t).
                  user_read_loop img (n + 1) t))
      else Some (n, t))"

text \<open>
  One round of the endless loop; the first component tells whether the shell has exited, in
  which case the state is that of the task that runs next.
\<close>

definition user_round :: "registers \<Rightarrow> user_image \<Rightarrow> ustate \<Rightarrow> (bool \<times> ustate) option" where
  "user_round regs img t =
     Option.bind (lib_write 1 (a_prompt img) 6 t) (\<lambda>(_, t).
     Option.bind (user_read_loop img 0 t) (\<lambda>(n, t).
       let t = user_store (a_line img + of_nat n) 0 t in
       if n = 0 then Some (False, t)
       else
         Option.bind (strcmp (user_memory t) (a_line img) (a_exit_nl img)) (\<lambda>c1.
         Option.bind (if c1 = 0 then Some 0 else strcmp (user_memory t) (a_line img) (a_exit img)) (\<lambda>c.
           if c = 0 then map_option (\<lambda>t. (True, t)) (lib_exit regs 0 t)
           else
             Option.bind (lib_write 1 (a_echo img) 6 t) (\<lambda>(_, t).
             Option.bind (lib_write 1 (a_line img) (of_nat n) t) (\<lambda>(_, t). Some (False, t)))))))"

primrec user_shell_entry :: "registers \<Rightarrow> user_image \<Rightarrow> nat \<Rightarrow> ustate \<Rightarrow> (bool \<times> ustate) option" where
  "user_shell_entry regs img 0 t = Some (False, t)"
| "user_shell_entry regs img (Suc k) t =
     Option.bind (user_round regs img t) (\<lambda>(exited, t).
       if exited then Some (True, t) else user_shell_entry regs img k t)"

subsection \<open>The memory of the shell\<close>

definition stored :: "memory \<Rightarrow> u32 \<Rightarrow> u8 list \<Rightarrow> bool" where
  "stored m a bs \<longleftrightarrow> (\<forall>i < length bs. m (a + of_nat i) = bs ! i)"

lemma stored_map: "stored m a bs \<Longrightarrow> map (\<lambda>i. load8 m (a + of_nat i)) [0..<length bs] = bs"
  by (rule nth_equalityI) (simp_all add: stored_def load8_def)

lemma stored_Cons: "stored m a (b # bs) \<longleftrightarrow> m a = b \<and> stored m (a + 1) bs"
  by (auto simp: stored_def less_Suc_eq_0_disj add.assoc nth_Cons' algebra_simps)

lemma stored_cstring: "stored m a (bs @ [0]) \<Longrightarrow> 0 \<notin> set bs \<Longrightarrow> cstring m a bs"
  by (induction bs arbitrary: a) (auto simp: stored_Cons)

lemma stored_snoc:
  assumes "stored m a w" and "length w < 2 ^ 32"
  shows "stored (store8 m (a + of_nat (length w)) b) a (w @ [b])"
proof -
  have "(of_nat i :: u32) \<noteq> of_nat (length w)" if "i < length w" for i
  proof -
    have "unat (of_nat i :: u32) = i" "unat (of_nat (length w) :: u32) = length w"
      using that assms(2) by (simp_all add: unat_of_nat_small)
    then show ?thesis using that by (metis less_irrefl)
  qed
  then show ?thesis using assms(1) by (auto simp: stored_def store8_def nth_append less_Suc_eq)
qed

definition literals :: "user_image \<Rightarrow> (u32 \<times> u8 list) list" where
  "literals img =
     [(a_prompt img, bytes ''user> ''), (a_newline img, [10]), (a_erase img, [8, 32, 8]),
      (a_exit_nl img, bytes ''exit'' @ [10, 0]), (a_exit img, bytes ''exit'' @ [0]), (a_echo img, bytes ''echo: '')]"

definition variables :: "user_image \<Rightarrow> u32 set" where
  "variables img = insert (a_ch img) ((\<lambda>x. a_line img + of_nat x) ` {..<64})"

text \<open>
  The literals are in place, everything lies in the user half, the variables overlap neither
  each other nor a literal.
\<close>

definition image_ok :: "user_image \<Rightarrow> memory \<Rightarrow> bool" where
  "image_ok img m \<longleftrightarrow>
     (\<forall>(a, bs) \<in> set (literals img). user_ptr_ok a (of_nat (length bs)) \<and> stored m a bs \<and>
        (\<forall>i < length bs. a + of_nat i \<notin> variables img)) \<and>
     user_ptr_ok (a_line img) 64 \<and> user_ptr_ok (a_ch img) 1 \<and> (\<forall>x < 64. a_line img + of_nat x \<noteq> a_ch img)"

definition user_ok :: "user_image \<Rightarrow> sys \<Rightarrow> bool" where
  "user_ok img s \<longleftrightarrow> sys_inv s \<and> serial_enabled (console s) \<and> image_ok img (memory_of s)"

lemma variables_user: "image_ok img m \<Longrightarrow> a \<in> variables img \<Longrightarrow> kernel_half m' (store8 m' a v)"
proof -
  assume img: "image_ok img m" and a: "a \<in> variables img"
  from a consider "a = a_ch img" | x where "x < 64" "a = a_line img + of_nat x" by (auto simp: variables_def)
  then show ?thesis
  proof cases
    case 1
    then show ?thesis using img store8_user [of "a_ch img" 1 0 m' v] by (simp add: image_ok_def)
  next
    case 2
    then show ?thesis
      using img store8_user [of "a_line img" 64 "of_nat x" m' v]
      by (simp add: image_ok_def word_less_nat_alt unat_of_nat_small)
  qed
qed

lemma user_ok_store:
  assumes ok: "user_ok img s" and a: "a \<in> variables img"
  shows "user_ok img (set_memory (store8 (memory_of s) a v) s)"
proof -
  let ?m = "store8 (memory_of s) a v"
  have img: "image_ok img (memory_of s)" using ok by (simp add: user_ok_def)
  have lit: "stored ?m b bs" if "(b, bs) \<in> set (literals img)" for b bs
  proof -
    have "stored (memory_of s) b bs" "\<forall>i < length bs. b + of_nat i \<notin> variables img"
      using img that unfolding image_ok_def by blast+
    then show ?thesis using a by (auto simp: stored_def store8_def)
  qed
  have "image_ok img ?m" using img lit unfolding image_ok_def by blast
  moreover have "sys_inv (set_memory ?m s)"
    using ok variables_user [OF img a] sched_inv_memory [of "scheduler s" ?m]
    by (simp add: user_ok_def sys_inv_def set_memory_def)
  ultimately show ?thesis using ok by (simp add: user_ok_def) (simp add: set_memory_def)
qed

subsection \<open>Calls and keys\<close>

lemma user_ok_console:
  assumes "user_ok img s"
  shows "\<exists>mon. monitor_write bs (console s) = Some mon \<and> user_ok img (s\<lparr>console := mon\<rparr>) \<and>
    serial_out mon = serial_out (console s) @ bs"
  using monitor_write_spec [of "console s" bs] assms by (auto simp: user_ok_def sys_inv_def)

lemma lib_write_stored:
  assumes ok: "user_ok img s" and p: "user_ptr_ok buf (of_nat (length bs))" "stored (memory_of s) buf bs"
    and len: "length bs < 2 ^ 32"
  shows "\<exists>r mon. lib_write 1 buf (of_nat (length bs)) (cs, e, s) = Some (r, cs, e, s\<lparr>console := mon\<rparr>) \<and>
    user_ok img (s\<lparr>console := mon\<rparr>) \<and> serial_out mon = serial_out (console s) @ bs"
proof -
  have u: "unat (of_nat (length bs) :: u32) = length bs" by (rule unat_of_nat_small) (use len in simp)
  show ?thesis
    using user_ok_console [OF ok, of bs] p(1) stored_map [OF p(2)]
    by (auto simp: lib_write_def int80_def syscall_handler_def sys_write_def u)
qed

lemma lib_write_literal:
  assumes ok: "user_ok img s" and lit: "(a, bs) \<in> set (literals img)"
  shows "\<exists>r mon. lib_write 1 a (of_nat (length bs)) (cs, e, s) = Some (r, cs, e, s\<lparr>console := mon\<rparr>) \<and>
    user_ok img (s\<lparr>console := mon\<rparr>) \<and> serial_out mon = serial_out (console s) @ bs"
proof (rule lib_write_stored [OF ok])
  have "image_ok img (memory_of s)" using ok by (simp add: user_ok_def)
  with lit show "user_ptr_ok a (of_nat (length bs))" "stored (memory_of s) a bs"
    unfolding image_ok_def by blast+
  show "length bs < 2 ^ 32" using lit by (auto simp: literals_def)
qed

abbreviation with_key :: "user_image \<Rightarrow> u8 \<Rightarrow> sys \<Rightarrow> sys" where
  "with_key img b s \<equiv> set_memory (store8 (memory_of s) (a_ch img) b) s"

lemma set_memory_twice [simp]: "set_memory m (set_memory m' s) = set_memory m s"
  by (simp add: set_memory_def)

lemma read_key:
  assumes "user_ok img s"
  shows "lib_read 0 (a_ch img) 1 (user_store (a_ch img) 0 (c # cs, e, s)) = Some (1, cs, e, with_key img (word_of_int c) s)"
proof -
  have p: "user_ptr_ok (a_ch img) 1" using assms by (simp add: user_ok_def image_ok_def)
  have "sys_read_loop (a_ch img) 1 (c # cs) 0 m = Some (1, cs, store8 m (a_ch img) (word_of_int c))" for m
    by (subst sys_read_loop.simps, subst sys_read_loop.simps) (simp add: Let_def)
  with p show ?thesis
    by (simp add: lib_read_def int80_def user_store_def syscall_handler_def sys_read_def store8_def Let_def)
qed

lemma with_key_ok:
  assumes "user_ok img s"
  shows "user_ok img (with_key img b s)" "user_memory (cs, e, with_key img b s) (a_ch img) = b"
    "console (with_key img b s) = console s"
    "stored (memory_of s) (a_line img) w \<Longrightarrow> length w \<le> 64 \<Longrightarrow> stored (memory_of (with_key img b s)) (a_line img) w"
proof -
  show "user_ok img (with_key img b s)" by (rule user_ok_store [OF assms]) (simp add: variables_def)
  show "user_memory (cs, e, with_key img b s) (a_ch img) = b" by (simp add: user_memory_def store8_def)
  show "console (with_key img b s) = console s" by (simp add: set_memory_def)
  show "stored (memory_of (with_key img b s)) (a_line img) w" if "stored (memory_of s) (a_line img) w" "length w \<le> 64"
    using that assms by (auto simp: stored_def store8_def user_ok_def image_ok_def)
qed

text \<open>The effect of a key on the line and on the screen.\<close>

definition erases :: "u8 \<Rightarrow> bool" where
  "erases b \<longleftrightarrow> b = 8 \<or> b = 0x7F"

definition edit :: "u8 list \<Rightarrow> u8 \<Rightarrow> u8 list" where
  "edit w b = (if erases b then butlast w else w @ [b])"

definition key_echo :: "u8 list \<Rightarrow> u8 \<Rightarrow> u8 list" where
  "key_echo w b = (if erases b then if w = [] then [] else [8, 32, 8] else [b])"

lemma user_read_key:
  fixes c :: int
  defines "b \<equiv> word_of_int c"
  assumes ok: "user_ok img s" and w: "stored (memory_of s) (a_line img) w" "length w < 63" and b: "b \<noteq> 10" "b \<noteq> 13"
  shows "\<exists>s'. user_read_loop img (length w) (c # cs, e, s) = user_read_loop img (length (edit w b)) (cs, e, s') \<and>
    user_ok img s' \<and> stored (memory_of s') (a_line img) (edit w b) \<and>
    serial_out (console s') = serial_out (console s) @ key_echo w b"
proof -
  let ?t = "with_key img b s"
  note K = with_key_ok [OF ok, where b = b]
  have w1: "stored (memory_of ?t) (a_line img) w" using K(4) w by simp
  note rd = read_key [OF ok, where c = c and cs = cs and e = e, folded b_def]
  have ch: "load8 (user_memory (cs, e, ?t)) (a_ch img) = b" using K(2) by (simp add: load8_def)
  show ?thesis
  proof (cases "erases b")
    case True
    show ?thesis
    proof (cases "w = []")
      case w0: True
      have "user_read_loop img 0 (c # cs, e, s) = user_read_loop img 0 (cs, e, ?t)"
        using rd ch b True by (subst user_read_loop.simps) (simp add: Let_def erases_def)
      then show ?thesis using K w1 w0 True by (intro exI [of _ ?t]) (simp add: edit_def key_echo_def)
    next
      case False
      obtain r mon where wr: "lib_write 1 (a_erase img) 3 (cs, e, ?t) = Some (r, cs, e, ?t\<lparr>console := mon\<rparr>)"
        "user_ok img (?t\<lparr>console := mon\<rparr>)" "serial_out mon = serial_out (console s) @ [8, 32, 8]"
        using lib_write_literal [OF K(1), where a = "a_erase img" and bs = "[8, 32, 8]" and cs = cs and e = e] K(3) by (auto simp: literals_def)
      have "user_read_loop img (length w) (c # cs, e, s) = user_read_loop img (length w - 1) (cs, e, ?t\<lparr>console := mon\<rparr>)"
        using rd ch b True wr(1) False w(2) by (subst user_read_loop.simps) (auto simp: Let_def erases_def)
      moreover have "stored (memory_of ?t) (a_line img) (butlast w)" using w1 by (simp add: stored_def nth_butlast)
      ultimately show ?thesis
        using wr(2,3) True False by (intro exI [of _ "?t\<lparr>console := mon\<rparr>"]) (simp add: edit_def key_echo_def)
    qed
  next
    case False
    let ?a = "a_line img + of_nat (length w)"
    let ?u = "set_memory (store8 (memory_of ?t) ?a b) ?t"
    have u: "user_ok img ?u" by (rule user_ok_store [OF K(1)]) (use w(2) in \<open>simp add: variables_def\<close>)
    have st: "stored (memory_of ?u) (a_line img) (w @ [b])" using stored_snoc [OF w1, of b] w(2) by simp
    have chs: "stored (memory_of ?u) (a_ch img) [b]" "user_ptr_ok (a_ch img) 1"
      using ok w(2) by (simp_all add: stored_def store8_def user_ok_def image_ok_def)
    obtain r mon where wr: "lib_write 1 (a_ch img) 1 (cs, e, ?u) = Some (r, cs, e, ?u\<lparr>console := mon\<rparr>)"
      "user_ok img (?u\<lparr>console := mon\<rparr>)" "serial_out mon = serial_out (console ?u) @ [b]"
      using lib_write_stored [OF u, where buf = "a_ch img" and bs = "[b]" and cs = cs and e = e] chs by auto
    have "user_store ?a b (cs, e, ?t) = (cs, e, ?u)" by (simp add: user_store_def)
    then have "user_read_loop img (length w) (c # cs, e, s) = user_read_loop img (length w + 1) (cs, e, ?u\<lparr>console := mon\<rparr>)"
      using rd ch b False wr(1) w(2) by (subst user_read_loop.simps) (simp add: Let_def erases_def)
    moreover have "console ?u = console s" by (simp add: set_memory_def)
    ultimately show ?thesis
      using wr(2,3) st False by (intro exI [of _ "?u\<lparr>console := mon\<rparr>"]) (simp add: edit_def key_echo_def)
  qed
qed

fun edit_line :: "u8 list \<Rightarrow> int list \<Rightarrow> u8 list" where
  "edit_line w [] = w"
| "edit_line w (c # cs) = edit_line (edit w (word_of_int c)) cs"

fun echo_line :: "u8 list \<Rightarrow> int list \<Rightarrow> u8 list" where
  "echo_line w [] = []"
| "echo_line w (c # cs) = key_echo w (word_of_int c) @ echo_line (edit w (word_of_int c)) cs"

lemma length_edit: "length (edit w b) \<le> length w + 1"
  by (simp add: edit_def le_SucI)

lemma length_edit_line: "length (edit_line w cs) \<le> length w + length cs"
  by (induction w cs rule: edit_line.induct) (use length_edit in \<open>force intro: le_trans\<close>)+

lemma user_read_line:
  assumes "user_ok img s" and "stored (memory_of s) (a_line img) w" and "length w + length cs < 63"
    and "\<forall>c \<in> set cs. (word_of_int c :: u8) \<noteq> 10 \<and> (word_of_int c :: u8) \<noteq> 13"
    and nl: "(word_of_int nl :: u8) = 10 \<or> (word_of_int nl :: u8) = 13"
  shows "\<exists>s'. user_read_loop img (length w) (cs @ nl # rest, e, s) = Some (length (edit_line w cs), rest, e, s') \<and>
    user_ok img s' \<and> stored (memory_of s') (a_line img) (edit_line w cs) \<and>
    serial_out (console s') = serial_out (console s) @ echo_line w cs @ [10]"
  using assms(1-4)
proof (induction cs arbitrary: w s)
  case (Cons c cs)
  obtain s1 where s1: "user_read_loop img (length w) (c # cs @ nl # rest, e, s) =
      user_read_loop img (length (edit w (word_of_int c))) (cs @ nl # rest, e, s1)" "user_ok img s1"
    "stored (memory_of s1) (a_line img) (edit w (word_of_int c))"
    "serial_out (console s1) = serial_out (console s) @ key_echo w (word_of_int c)"
    using user_read_key [OF Cons.prems(1,2), of c "cs @ nl # rest" e] Cons.prems(3,4) by auto
  have "length (edit w (word_of_int c)) + length cs < 63"
    using length_edit [of w "word_of_int c"] Cons.prems(3) by simp
  from Cons.IH [OF s1(2,3) this] Cons.prems(4) s1(1,4) show ?case by auto
next
  case Nil
  note K = with_key_ok [OF Nil(1), where b = 10]
  let ?b = "word_of_int nl :: u8" and ?t = "with_key img 10 s"
  obtain r mon where wr: "lib_write 1 (a_newline img) 1 (rest, e, ?t) = Some (r, rest, e, ?t\<lparr>console := mon\<rparr>)"
    "user_ok img (?t\<lparr>console := mon\<rparr>)" "serial_out mon = serial_out (console s) @ [10]"
    using lib_write_literal [OF K(1), where a = "a_newline img" and bs = "[10]" and cs = rest and e = e] K(3)
    by (auto simp: literals_def)
  have "user_read_loop img (length w) (nl # rest, e, s) = Some (length w, rest, e, ?t\<lparr>console := mon\<rparr>)"
    using nl
  proof
    assume "?b = 10"
    then show ?thesis
      using read_key [OF Nil(1), where c = nl and cs = rest and e = e] K(2) wr(1) Nil(3)
      by (subst user_read_loop.simps) (simp add: Let_def load8_def)
  next
    assume "?b = 13"
    moreover have "user_store (a_ch img) 10 (rest, e, with_key img 13 s) = (rest, e, ?t)"
      by (simp add: user_store_def store8_def)
    moreover have "user_memory (rest, e, with_key img 13 s) (a_ch img) = 13" by (rule with_key_ok(2) [OF Nil(1)])
    ultimately show ?thesis
      using read_key [OF Nil(1), where c = nl and cs = rest and e = e] K(2) wr(1) Nil(3)
      by (subst user_read_loop.simps) (simp add: Let_def load8_def)
  qed
  then show ?case using wr(2,3) K(4) Nil(2,3) by (intro exI [of _ "?t\<lparr>console := mon\<rparr>"]) simp
qed

subsection \<open>One round\<close>

lemma edit_line_bytes:
  "x \<in> set (edit_line w cs) \<Longrightarrow> x \<in> set w \<or> (\<exists>c \<in> set cs. x = word_of_int c)"
proof (induction w cs rule: edit_line.induct)
  case (2 w c cs)
  then show ?case by (fastforce simp: edit_def dest: in_set_butlastD split: if_splits)
qed simp

lemma image_strcmp:
  assumes img: "image_ok img m" and line: "cstring m (a_line img) w" and lit: "(a, bs @ [0]) \<in> set (literals img)" "0 \<notin> set bs"
  shows "\<exists>r. strcmp m (a_line img) a = Some r \<and> (r = 0 \<longleftrightarrow> w = bs)"
proof -
  have st: "stored m a (bs @ [0])" "user_ptr_ok a (of_nat (length (bs @ [0])))"
    and out: "\<forall>i < length (bs @ [0]). a + of_nat i \<notin> variables img" using img lit(1) unfolding image_ok_def by blast+
  have c: "cstring m a bs" using stored_cstring [OF st(1) lit(2)] .
  have "a \<notin> variables img" using out [rule_format, of 0] by simp
  moreover have "a_line img \<in> variables img"
    unfolding variables_def by (rule insertI2, rule image_eqI [of _ _ 0]) simp_all
  ultimately have "a_line img \<noteq> a" by blast
  moreover have "a_line img \<noteq> 0" "a \<noteq> 0" using img st(2) by (auto simp: image_ok_def user_ptr_ok_iff)
  ultimately show ?thesis
    using strcmp_loop_cstring [OF line c] compare_bytes_zero [OF cstring_nonzero [OF line] lit(2)]
    by (simp add: strcmp_def)
qed

lemma lib_exit_spec:
  assumes ok: "user_ok img s"
  shows "\<exists>e' s'. lib_exit regs 0 (cs, e, s) = Some (cs, e', s') \<and> sys_inv s' \<and>
    serial_out (console s') = serial_out (console s) @ exit_message 0"
proof -
  let ?r = "regs\<lparr>eax := 3, ebx := 0\<rparr>"
  have inv: "sys_inv s" using ok by (simp add: user_ok_def)
  obtain r cs' e' s' where h: "syscall_handler ?r cs e s = Some (r, cs', e', s')"
    using syscall_returns [OF inv, of ?r cs e] by fastforce
  obtain mon where mon: "monitor_write (exit_message 0) (console s) = Some mon"
    "serial_out mon = serial_out (console s) @ exit_message 0"
    using user_ok_console [OF ok, of "exit_message 0"] by blast
  have "cs' = cs \<and> console s' = mon"
    using h mon(1) by (auto simp: syscall_handler_def Let_def sys_exit_def bind_eq_Some_conv)
  then show ?thesis using h syscall_inv [OF inv h] mon(2) by (simp add: lib_exit_def int80_def)
qed

definition line_ok :: "int list \<Rightarrow> bool" where
  "line_ok cs \<longleftrightarrow> length cs < 63 \<and> (\<forall>c \<in> set cs. (word_of_int c :: u8) \<notin> {0, 10, 13})"

definition reply :: "int list \<Rightarrow> u8 list" where
  "reply cs = bytes ''user> '' @ echo_line [] cs @ [10] @
     (let w = edit_line [] cs in
      if w = [] then [] else if w = bytes ''exit'' then exit_message 0 else bytes ''echo: '' @ w)"

lemma user_round_spec:
  assumes ok: "user_ok img s" and line: "line_ok cs" and nl: "(word_of_int nl :: u8) = 10 \<or> (word_of_int nl :: u8) = 13"
  shows "\<exists>e' s'. user_round regs img (cs @ nl # rest, e, s) = Some (edit_line [] cs = bytes ''exit'', rest, e', s') \<and>
    sys_inv s' \<and> serial_out (console s') = serial_out (console s) @ reply cs \<and>
    (edit_line [] cs \<noteq> bytes ''exit'' \<longrightarrow> e' = e \<and> user_ok img s')"
proof -
  let ?w = "edit_line [] cs" and ?exit = "bytes ''exit''"
  obtain r1 mon1 where p: "lib_write 1 (a_prompt img) 6 (cs @ nl # rest, e, s) = Some (r1, cs @ nl # rest, e, s\<lparr>console := mon1\<rparr>)"
    "user_ok img (s\<lparr>console := mon1\<rparr>)" "serial_out mon1 = serial_out (console s) @ bytes ''user> ''"
    using lib_write_literal [OF ok, where a = "a_prompt img" and bs = "bytes ''user> ''" and cs = "cs @ nl # rest" and e = e]
    by (auto simp: literals_def)
  obtain s2 where r: "user_read_loop img 0 (cs @ nl # rest, e, s\<lparr>console := mon1\<rparr>) = Some (length ?w, rest, e, s2)"
    "user_ok img s2" "stored (memory_of s2) (a_line img) ?w"
    "serial_out (console s2) = serial_out mon1 @ echo_line [] cs @ [10]"
    using user_read_line [OF p(2), of "[]" cs nl rest e] line nl by (auto simp: line_ok_def stored_def)
  have len: "length ?w < 63" using length_edit_line [of "[]" cs] line by (simp add: line_ok_def)
  have nz: "0 \<notin> set ?w" "10 \<notin> set ?w" using edit_line_bytes [of _ "[]" cs] line by (fastforce simp: line_ok_def)+
  let ?s3 = "set_memory (store8 (memory_of s2) (a_line img + of_nat (length ?w)) 0) s2"
  have ok3: "user_ok img ?s3" by (rule user_ok_store [OF r(2)]) (use len in \<open>simp add: variables_def\<close>)
  have con3: "console ?s3 = console s2" by (simp add: set_memory_def)
  have st3: "stored (memory_of ?s3) (a_line img) (?w @ [0])" using stored_snoc [OF r(3), of 0] len by simp
  have c3: "cstring (memory_of ?s3) (a_line img) ?w" by (rule stored_cstring [OF st3 nz(1)])
  have img3: "image_ok img (memory_of ?s3)" using ok3 by (simp add: user_ok_def)
  obtain c1 where c1: "strcmp (memory_of ?s3) (a_line img) (a_exit_nl img) = Some c1" "c1 \<noteq> 0"
    using image_strcmp [OF img3 c3, of "a_exit_nl img" "?exit @ [10]"] nz(2) by (auto simp: literals_def)
  obtain c2 where c2: "strcmp (memory_of ?s3) (a_line img) (a_exit img) = Some c2" "c2 = 0 \<longleftrightarrow> ?w = ?exit"
    using image_strcmp [OF img3 c3, of "a_exit img" ?exit] by (auto simp: literals_def)
  have start: "user_round regs img (cs @ nl # rest, e, s) =
      (if ?w = [] then Some (False, rest, e, ?s3)
       else if ?w = ?exit then map_option (\<lambda>t. (True, t)) (lib_exit regs 0 (rest, e, ?s3))
       else Option.bind (lib_write 1 (a_echo img) 6 (rest, e, ?s3)) (\<lambda>(_, t).
            Option.bind (lib_write 1 (a_line img) (of_nat (length ?w)) t) (\<lambda>(_, t). Some (False, t))))"
    using p(1) r(1) c1 c2 by (simp add: user_round_def Let_def user_memory_def user_store_def)
  have out3: "serial_out (console ?s3) = serial_out (console s) @ bytes ''user> '' @ echo_line [] cs @ [10]"
    using con3 r(4) p(3) by simp
  consider "?w = []" | "?w = ?exit" | "?w \<noteq> []" "?w \<noteq> ?exit" by blast
  then show ?thesis
  proof cases
    case 1
    then show ?thesis using start ok3 out3 by (auto simp: reply_def user_ok_def)
  next
    case 2
    obtain e' s' where "lib_exit regs 0 (rest, e, ?s3) = Some (rest, e', s')" "sys_inv s'"
      "serial_out (console s') = serial_out (console ?s3) @ exit_message 0"
      using lib_exit_spec [OF ok3] by blast
    then show ?thesis using start 2 out3 by (auto simp: reply_def Let_def)
  next
    case 3
    obtain r4 mon4 where w4: "lib_write 1 (a_echo img) 6 (rest, e, ?s3) = Some (r4, rest, e, ?s3\<lparr>console := mon4\<rparr>)"
      "user_ok img (?s3\<lparr>console := mon4\<rparr>)" "serial_out mon4 = serial_out (console ?s3) @ bytes ''echo: ''"
      using lib_write_literal [OF ok3, where a = "a_echo img" and bs = "bytes ''echo: ''" and cs = rest and e = e]
      by (auto simp: literals_def)
    have ptr: "user_ptr_ok (a_line img) (of_nat (length ?w))"
      using img3 len 3(1) by (auto simp: image_ok_def user_ptr_ok_iff unat_of_nat_small word_unat_eq_iff)
    have stw: "stored (memory_of (?s3\<lparr>console := mon4\<rparr>)) (a_line img) ?w"
      using st3 by (simp add: stored_def nth_append)
    obtain r5 mon5 where w5: "lib_write 1 (a_line img) (of_nat (length ?w)) (rest, e, ?s3\<lparr>console := mon4\<rparr>) =
        Some (r5, rest, e, ?s3\<lparr>console := mon5\<rparr>)" "user_ok img (?s3\<lparr>console := mon5\<rparr>)" "serial_out mon5 = serial_out mon4 @ ?w"
      using lib_write_stored [OF w4(2) ptr stw, where cs = rest and e = e] len by auto
    then show ?thesis using start 3 w4(1,3) out3 by (auto simp: reply_def Let_def user_ok_def)
  qed
qed

subsection \<open>Properties\<close>


text \<open>The shell loaded at page 1, on a freshly started kernel.\<close>

definition demo_image :: user_image where
  "demo_image = \<lparr>a_prompt = 0x1000, a_newline = 0x1010, a_erase = 0x1020, a_exit_nl = 0x1030, a_exit = 0x1040,
     a_echo = 0x1050, a_line = 0x2000, a_ch = 0x3000\<rparr>"

definition demo_program :: "memory \<Rightarrow> memory" where
  "demo_program m = m(0x1000 := 117, 0x1001 := 115, 0x1002 := 101, 0x1003 := 114, 0x1004 := 62, 0x1005 := 32,
     0x1010 := 10, 0x1020 := 8, 0x1021 := 32, 0x1022 := 8,
     0x1030 := 101, 0x1031 := 120, 0x1032 := 105, 0x1033 := 116, 0x1034 := 10, 0x1035 := 0,
     0x1040 := 101, 0x1041 := 120, 0x1042 := 105, 0x1043 := 116, 0x1044 := 0,
     0x1050 := 101, 0x1051 := 99, 0x1052 := 104, 0x1053 := 111, 0x1054 := 58, 0x1055 := 32)"

definition demo_user :: sys where
  "demo_user = set_memory (demo_program (memory_of sys_boot)) sys_boot"

lemma demo_literals:
  "list_all (\<lambda>(a, bs). user_ptr_ok a (of_nat (length bs)) \<and> stored (demo_program m) a bs) (literals demo_image)"
  by (simp add: literals_def demo_image_def demo_program_def stored_Cons user_ptr_ok_iff) (simp add: stored_def)

lemma demo_variables: "a < 0x2000 \<Longrightarrow> a \<notin> variables demo_image"
proof -
  have "0x2000 \<le> (0x2000 :: u32) + of_nat x" if "x < 64" for x
    using that by (simp add: word_le_nat_alt unat_plus_no_wrap unat_of_nat_small)
  moreover assume "a < 0x2000"
  ultimately show ?thesis by (fastforce simp: variables_def demo_image_def)
qed

lemma demo_apart: "list_all (\<lambda>(a, bs). \<forall>i < length bs. a + of_nat i < 0x2000) (literals demo_image)"
proof -
  have "a + of_nat i < 0x2000" if "unat a \<le> 0x1050" "i < 6" for a :: u32 and i
    using that by (simp add: word_less_nat_alt unat_plus_no_wrap unat_of_nat_small)
  then show ?thesis by (simp add: literals_def demo_image_def)
qed

lemma demo_user_ok: "user_ok demo_image demo_user"
proof -
  have "0x2000 + of_nat x \<noteq> (0x3000 :: u32)" if "x < 64" for x
    using that by (simp add: word_unat_eq_iff unat_plus_no_wrap unat_of_nat_small)
  then have "image_ok demo_image (demo_program (memory_of sys_boot))"
    using demo_literals [of "memory_of sys_boot"] demo_apart demo_variables unfolding image_ok_def list_all_iff
    by (auto simp: demo_image_def user_ptr_ok_iff)
  moreover have "kernel_half (memory_of sys_boot) (demo_program (memory_of sys_boot))"
    by (auto simp: demo_program_def)
  then have "sys_inv demo_user"
    using sys_boot_inv sched_inv_memory [of "scheduler sys_boot" "demo_program (memory_of sys_boot)"]
    by (simp add: demo_user_def sys_inv_def set_memory_def)
  moreover have "serial_enabled (console demo_user)"
    by (simp add: demo_user_def set_memory_def sys_boot_def blank_monitor_def)
  ultimately show ?thesis by (simp add: user_ok_def) (simp add: demo_user_def)
qed


end
