(* ===== verification/Kernel_Start.thy ===== *)
theory Kernel_Start
  imports Multiboot User_Shell Ramfs_Properties Ata Interrupts Mouse Paging Rtl8139
begin

text \<open>
  The start of the kernel (\<^verbatim>\<open>src/core/kernel.c\<close>): \<^verbatim>\<open>kernel_main\<close> up to the
  interrupt by which \<^verbatim>\<open>scheduler_start\<close> leaves it for the first task. The state holds the
  physical memory and the static variables of every part; a part whose model has a memory of
  its own is run on what it sees of the physical memory, and its stores are carried back.
  Addresses, hardware and the processor's identification are arguments. Messages of initialisers
  whose models leave them out are an argument too, \<open>says\<close>; no interrupt arrives in between.
\<close>

subsection \<open>The state\<close>

datatype irq_fn = Timer_Handler | Keyboard_Handler | Serial_Irq_Handler | Mouse_Handler

datatype speaker = Says_Ramfs | Says_Fat | Says_Frames | Says_Paging | Says_Heap | Says_Ata | Says_Rtl

record ('h, 'd) machine =
  kernel_end :: u32
  tss_at :: u32
  isr_stub :: "nat \<Rightarrow> u32"
  irq_stub :: "nat \<Rightarrow> u32"
  low_tables :: u32
  high_tables :: u32
  hello_at :: u32
  init_entry :: u32
  bus :: "'h pci_ports"
  ata_rd :: "'d \<Rightarrow> u32 \<Rightarrow> u8 \<Rightarrow> int \<times> u8 list"
  ata_wr :: "'d \<Rightarrow> u32 \<Rightarrow> u8 \<Rightarrow> u8 list \<Rightarrow> int \<times> 'd"
  ata_slot :: nat
  cpuid :: "u32 \<Rightarrow> u32 \<times> u32 \<times> u32 \<times> u32"
  says :: "speaker \<Rightarrow> u8 list"

record ('h, 'd) kernel =
  ram :: memory
  k_gdt :: "gdt_entry list"
  k_tss :: tss_entry
  k_idt :: "idt_entry list"
  k_pic :: port_writes
  k_irq :: "irq_fn option list"
  k_log :: logs
  k_keyboard :: keyboard
  k_queue :: ipc_state
  k_files :: ramfs
  k_storage :: "'d storage"
  k_fat :: "'d fat_state"
  k_frames :: frame_state
  k_pages :: page_tables
  k_sched :: sched
  k_rtl :: "'h rtl"

text \<open>
  What the processor sees once paging is on: the first 32 MB at their own addresses and again
  from \<open>0xC0000000\<close> on. Stores through the high addresses and through the low ones.
\<close>

definition virt :: "memory \<Rightarrow> memory" where
  "virt m va = (case mapped va of Some (pa, _) \<Rightarrow> m pa | None \<Rightarrow> m va)"

definition store_high :: "memory \<Rightarrow> memory \<Rightarrow> memory" where
  "store_high v m pa = (if pa < 0x2000000 then v (pa + 0xC0000000) else m pa)"

definition store_low :: "memory \<Rightarrow> memory \<Rightarrow> memory" where
  "store_low v m pa = (if pa < 0x2000000 then v pa else m pa)"

text \<open>The frame allocator, the scheduler and the system calls on the memory the processor sees.\<close>

definition seen_frames :: "('h, 'd) kernel \<Rightarrow> frame_state" where
  "seen_frames k = (k_frames k)\<lparr>fr_mem := virt (ram k)\<rparr>"

definition seen_sched :: "('h, 'd) kernel \<Rightarrow> sched" where
  "seen_sched k = (k_sched k)\<lparr>heap := (heap (k_sched k))\<lparr>h_mem := virt (ram k)\<rparr>\<rparr>"

definition sys_of :: "('h, 'd) kernel \<Rightarrow> sys" where
  "sys_of k = \<lparr>scheduler = seen_sched k, console = log_console (k_log k), queue = k_queue k\<rparr>"

subsection \<open>The code\<close>

definition say :: "u8 list \<Rightarrow> ('h, 'd) kernel \<Rightarrow> ('h, 'd) kernel option" where
  "say bs k = map_option (\<lambda>mon. k\<lparr>k_log := (k_log k)\<lparr>log_console := mon\<rparr>\<rparr>) (monitor_write bs (log_console (k_log k)))"

definition set_irq :: "u8 \<Rightarrow> irq_fn \<Rightarrow> ('h, 'd) kernel \<Rightarrow> ('h, 'd) kernel" where
  "set_irq n h k = k\<lparr>k_irq := register_irq_handler n (Some h) (k_irq k)\<rparr>"

text \<open>\<^verbatim>\<open>init_gdt\<close> to \<^verbatim>\<open>log_set_level\<close>.\<close>

definition start_tables :: "('h, 'd) machine \<Rightarrow> ('h, 'd) kernel \<Rightarrow> ('h, 'd) kernel" where
  "start_tables e k =
     (let (gdt, tss) = init_gdt (tss_at e) (k_gdt k);
          (pic, idt) = init_idt (isr_stub e) (irq_stub e);
          mon = monitor_enable_serial 1 (serial_init (log_console (k_log k)))
      in k\<lparr>k_gdt := gdt, k_tss := tss, k_idt := idt, k_pic := k_pic k @ pic,
           k_log := log_set_level LOG_INFO ((k_log k)\<lparr>log_console := mon\<rparr>)\<rparr>)"

text \<open>\<^verbatim>\<open>input_init\<close> to \<^verbatim>\<open>fat_init\<close>.\<close>

definition start_files :: "('h, 'd) machine \<Rightarrow> ('h, 'd) kernel \<Rightarrow> ('h, 'd) kernel option" where
  "start_files e k =
     (let k = k\<lparr>k_keyboard := (k_keyboard k)\<lparr>input := input_init (input (k_keyboard k))\<rparr>,
                k_queue := ipc_init (k_queue k)\<rparr>
      in
      Option.bind (ramfs_init (hello_at e) (vfs_init (k_files k))) (\<lambda>fs.
      Option.bind (say (says e Says_Ramfs) (k\<lparr>k_files := fs\<rparr>)) (\<lambda>k.
      Option.bind (fat_init (storage_get_default (k_storage k)) (k_fat k)) (\<lambda>fat.
      say (says e Says_Fat) (k\<lparr>k_fat := fat\<rparr>)))))"

text \<open>
  \<^verbatim>\<open>multiboot_init\<close> to \<^verbatim>\<open>scheduler_init\<close>; paging is on from \<^verbatim>\<open>paging_init\<close> on, and the heap is
  reached through the high addresses.
\<close>

definition start_memory :: "('h, 'd) machine \<Rightarrow> u32 \<Rightarrow> u32 \<Rightarrow> ('h, 'd) kernel \<Rightarrow> ('h, 'd) kernel option" where
  "start_memory e magic addr k =
     Option.bind (multiboot_init magic addr (ram k) (k_log k)) (\<lambda>(mb, lg).
     Option.bind (frame_allocator_init (kernel_end e) mb ((k_frames k)\<lparr>fr_mem := ram k\<rparr>)) (\<lambda>fr.
     Option.bind (say (says e Says_Frames) (k\<lparr>k_log := lg, k_frames := fr, ram := fr_mem fr\<rparr>)) (\<lambda>k.
     Option.bind (say (says e Says_Paging) (k\<lparr>k_pages := paging_init (low_tables e) (high_tables e)\<rparr>)) (\<lambda>k.
     let h = heap_init 0xC1000000 (1024 * 1024) ((heap (k_sched k))\<lparr>h_mem := virt (ram k)\<rparr>);
         k = k\<lparr>ram := store_high (h_mem h) (ram k), k_sched := (k_sched k)\<lparr>heap := h\<rparr>\<rparr>
     in map_option
          (\<lambda>k. k\<lparr>k_tss := set_kernel_stack 0xC1100000 (k_tss k), k_sched := scheduler_init (k_sched k)\<rparr>)
          (say (says e Says_Heap) k)))))"

definition timer_init :: "u32 \<Rightarrow> ('h, 'd) kernel \<Rightarrow> ('h, 'd) kernel option" where
  "timer_init frequency k =
     map_option (\<lambda>pit. set_irq 0 Timer_Handler (k\<lparr>k_pic := k_pic k @ pit\<rparr>)) (pit_init frequency)"

text \<open>\<^verbatim>\<open>keyboard_init\<close> to \<^verbatim>\<open>mouse_init\<close>, with the handlers they register.\<close>

definition start_input :: "('h, 'd) machine \<Rightarrow> ('h, 'd) kernel \<Rightarrow> ('h, 'd) kernel" where
  "start_input e k =
     (let k = set_irq 1 Keyboard_Handler (k\<lparr>k_keyboard := keyboard_init (k_keyboard k)\<rparr>);
          k = set_irq 4 Serial_Irq_Handler k;
          k = k\<lparr>k_log := (k_log k)\<lparr>log_console := serial_enable_rx_interrupts (log_console (k_log k))\<rparr>\<rparr>;
          h = mouse_init (ports.truncate (bus e)) (hw (k_rtl k))
      in set_irq 12 Mouse_Handler (k\<lparr>k_rtl := (k_rtl k)\<lparr>hw := h\<rparr>\<rparr>))"

text \<open>\<^verbatim>\<open>ata_init\<close> to \<^verbatim>\<open>smp_init\<close>; the frame bitmap is reached through low addresses.\<close>

definition start_devices :: "('h, 'd) machine \<Rightarrow> ('h, 'd) kernel \<Rightarrow> ('h, 'd) kernel option" where
  "start_devices e k =
     (let (st, h) = ata_init (ports.truncate (bus e)) (ata_rd e) (ata_wr e) (ata_slot e) (k_storage k) (hw (k_rtl k)) in
      Option.bind (say (says e Says_Ata) (k\<lparr>k_storage := st, k_rtl := (k_rtl k)\<lparr>hw := h\<rparr>\<rparr>)) (\<lambda>k.
      Option.bind (rtl8139_init (bus e) ((k_rtl k)\<lparr>rtl_frames := seen_frames k\<rparr>)) (\<lambda>(_, r).
      let fr = rtl_frames r;
          k = k\<lparr>k_rtl := r, k_frames := fr, ram := store_low (fr_mem fr) (ram k)\<rparr>
      in
      Option.bind (say (says e Says_Rtl) k) (\<lambda>k.
      map_option (\<lambda>(_, lg). k\<lparr>k_log := lg\<rparr>) (smp_init (cpuid e) (k_log k))))))"

definition started_message :: "u8 list" where
  "started_message = bytes ''Kernel basladi. Timer ve klavye aktif.'' @ [10]"

text \<open>\<^verbatim>\<open>scheduler_add(init_task)\<close> and \<^verbatim>\<open>scheduler_start\<close>, whose interrupt frame ends at \<open>esp\<close>.\<close>

definition start_tasks :: "('h, 'd) machine \<Rightarrow> u32 \<Rightarrow> ('h, 'd) kernel \<Rightarrow> (u32 \<times> ('h, 'd) kernel) option" where
  "start_tasks e esp k =
     Option.bind (scheduler_add (init_entry e) (seen_sched k)) (\<lambda>(_, s).
     let m = store_high (h_mem (heap s)) (ram k);
         (esp, s) = scheduler_start esp (s\<lparr>heap := (heap s)\<lparr>h_mem := virt m\<rparr>\<rparr>)
     in Some (esp, k\<lparr>ram := m, k_sched := s\<rparr>))"

definition kernel_main :: "('h, 'd) machine \<Rightarrow> u32 \<Rightarrow> u32 \<Rightarrow> u32 \<Rightarrow> ('h, 'd) kernel \<Rightarrow> (u32 \<times> ('h, 'd) kernel) option" where
  "kernel_main e magic addr esp k =
     Option.bind (start_files e (start_tables e k)) (\<lambda>k.
     Option.bind (start_memory e magic addr k) (\<lambda>k.
     Option.bind (timer_init 100 k) (\<lambda>k.
     Option.bind (start_devices e (start_input e k)) (\<lambda>k.
     Option.bind (say started_message k) (start_tasks e esp)))))"

end
