(* ===== verification/Kernel_Start_Properties.thy ===== *)
theory Kernel_Start_Properties
  imports Kernel_Start
begin

text \<open>
  What the start of the kernel establishes (\<^verbatim>\<open>src/core/kernel.c\<close>): the two windows on the
  physical memory, the frame bitmap and the heap that must not disturb each other through them,
  one lemma for each stage of \<^verbatim>\<open>kernel_main\<close>, and the theorem on the whole.
\<close>

subsection \<open>The windows\<close>

lemma virt_low: "x < 0x2000000 \<Longrightarrow> virt m (ad x) = m (ad x)"
  by (simp add: virt_def mapped_def word_less_nat_alt unat_ad)

lemma virt_high:
  assumes "0xC0000000 \<le> x" and "x < 0xC2000000"
  shows "virt m (ad x) = m (ad (x - 0xC0000000))"
proof -
  have "ad x - 0xC0000000 = ad (x - 0xC0000000)" using ad_minus [OF assms(1)] by simp
  then show ?thesis using assms by (simp add: virt_def mapped_def word_less_nat_alt word_le_nat_alt unat_ad)
qed

lemma store_high_low: "x < 0x2000000 \<Longrightarrow> store_high v m (ad x) = v (ad (x + 0xC0000000))"
  by (simp add: store_high_def word_less_nat_alt unat_ad)

lemma store_low_low: "x < 0x2000000 \<Longrightarrow> store_low v m (ad x) = v (ad x)"
  by (simp add: store_low_def word_less_nat_alt unat_ad)

lemma virt_store_high: "0xC0000000 \<le> x \<Longrightarrow> x < 0xC2000000 \<Longrightarrow> virt (store_high v m) (ad x) = v (ad x)"
  by (simp add: virt_high store_high_low)

subsection \<open>Frames\<close>

text \<open>The allocator depends on memory only through its bitmap.\<close>

lemma frames_mem_cong:
  assumes wf: "frames_wf s" and same: "\<And>x. in_bitmap s x \<Longrightarrow> m (ad x) = fr_mem s (ad x)"
  shows "frames_wf (s\<lparr>fr_mem := m\<rparr>)" and "used_set (s\<lparr>fr_mem := m\<rparr>) = used_set s"
proof -
  have u: "used_at (s\<lparr>fr_mem := m\<rparr>) f = used_at s f" if "f < 32 * unat (bitmap_words s)" for f
  proof -
    let ?A = "unat (frame_bitmap s) + 4 * (f div 32)"
    have "f div 32 < unat (bitmap_words s)" using that by (simp add: less_mult_imp_div_less mult.commute)
    then have "?A + 4 \<le> unat (frame_bitmap s) + 4 * unat (bitmap_words s)" by linarith
    then have "load32 m (ad ?A) = load32 (fr_mem s) (ad ?A)" by (intro load32_cong same) (simp add: in_bitmap_def)
    moreover have "frame_bitmap s + 4 * of_nat (f div 32) = ad ?A" by (simp add: ad_def)
    ultimately show ?thesis by (simp add: used_at_def bitmap_word_def)
  qed
  have n: "unat (total_frames s) \<le> 32 * unat (bitmap_words s)" using frames_wfD(4) [OF wf] by linarith
  then have "{f. f < unat (total_frames s) \<and> used_at (s\<lparr>fr_mem := m\<rparr>) f} = {f. f < unat (total_frames s) \<and> used_at s f}"
    using u by auto
  then show "frames_wf (s\<lparr>fr_mem := m\<rparr>)" "used_set (s\<lparr>fr_mem := m\<rparr>) = used_set s"
    using wf u unfolding frames_wf_def used_set_def by simp_all
qed

lemma set_run_kept:
  "frames_wf s \<Longrightarrow> unat start + unat count \<le> unat (total_frames s) \<Longrightarrow> kept s (set_run start count i s)"
proof (induction start count i s rule: set_run.induct)
  case (1 start count i s)
  show ?case
  proof (cases "i < count")
    case True
    then have "unat (start + i) < unat (total_frames s)"
      using 1(3) frames_wfD(3) [OF 1(2)] by (subst unat_plus_no_wrap) (simp_all add: word_less_nat_alt)
    then have fr: "start + i < total_frames s" by (simp add: word_less_nat_alt)
    have "kept (set_frame (start + i) s) (set_run start count (i + 1) (set_frame (start + i) s))"
      using 1(1) [OF True set_frame_wf [OF 1(2) fr]] 1(3) by simp
    then show ?thesis using kept_trans [OF kept_set_frame [OF 1(2) fr]] True by (subst set_run.simps) simp
  qed (subst set_run.simps, simp)
qed

lemma contiguous_kept:
  assumes wf: "frames_wf s" and n: "n \<noteq> 0" and alloc: "frame_alloc_contiguous n s = Some (p, s')"
  shows "kept s s'" and "frames_wf s'"
proof -
  obtain q s'' where "frame_alloc_contiguous n s = Some (q, s'')" "frames_wf s''"
    using contiguous_alloc_spec [OF wf n] wf by (auto split: if_splits)
  then show "frames_wf s'" using alloc by simp
  show "kept s s'"
  proof (cases "frame_bitmap s = 0 \<or> n = 0 \<or> n > total_frames s")
    case True
    then show ?thesis using alloc by (auto simp: frame_alloc_contiguous_def split: if_splits)
  next
    case False
    then have le: "n \<le> total_frames s" "0 < n" using n by (auto simp: word_gt_0 not_less)
    obtain r where r: "contiguous_scan s n 0 = Some r"
      "\<And>st. r = Some st \<Longrightarrow> free_run s (unat st) (unat n)"
      using contiguous_scan_spec [OF wf le(2,1), of 0] by (auto split: option.splits)
    show ?thesis
    proof (cases r)
      case None
      then show ?thesis using alloc False r(1) by (simp add: frame_alloc_contiguous_def)
    next
      case (Some st)
      then have "unat st + unat n \<le> unat (total_frames s)" using r(2) by (simp add: free_run_def)
      then show ?thesis using alloc False r(1) Some set_run_kept [OF wf] by (auto simp: frame_alloc_contiguous_def)
    qed
  qed
qed

lemma rtl_start_kept:
  assumes "frames_wf (rtl_frames s)" and "rtl_start P s = Some (r, s')"
  shows "kept (rtl_frames s) (rtl_frames s')"
proof -
  obtain rx fr where rx: "frame_alloc_contiguous 3 (rtl_frames s) = Some (rx, fr)"
    using assms(2) by (auto simp: rtl_start_def bind_eq_Some_conv)
  have k: "kept (rtl_frames s) fr" "frames_wf fr" using contiguous_kept [OF assms(1) _ rx] by simp_all
  show ?thesis
  proof (cases "rx = 0")
    case True
    then show ?thesis using assms(2) rx k(1) by (auto simp: rtl_start_def)
  next
    case False
    then obtain tx fr' where tx: "frame_alloc_contiguous 1 fr = Some (tx, fr')"
      using assms(2) rx by (auto simp: rtl_start_def bind_eq_Some_conv)
    have k': "kept (rtl_frames s) fr'" using kept_trans [OF k(1) contiguous_kept(1) [OF k(2) _ tx]] by simp
    have reset: "rtl_frames z = rtl_frames t" if "reset_loop P t = Some z" for t z
      using reset_loop_frame [OF that] by (simp add: same_buffers_def)
    have "rtl_frames s' = fr'"
      using assms(2) rx tx False by (auto simp: rtl_start_def Let_def split: if_splits dest!: reset)
    with k' show ?thesis by simp
  qed
qed

lemma rtl8139_init_kept:
  assumes "frames_wf (rtl_frames s)" and "rtl8139_init P s = Some (r, s')"
  shows "kept (rtl_frames s) (rtl_frames s')"
  using assms(2)
  by (auto simp: rtl8139_init_def Let_def split: prod.splits option.splits if_splits
    dest!: rtl_start_kept [rotated] intro: assms(1))

subsection \<open>The heap\<close>

definition heap_at :: "heap_state \<Rightarrow> bool" where
  "heap_at h \<longleftrightarrow> heap_start h = 0xC1000000 \<and> heap_end h = 0xC1100000"

lemma scheduler_add_region:
  assumes rel: "heap_rel (heap s) L" and add: "scheduler_add entry s = Some (r, s')"
  shows "heap_start (heap s') = heap_start (heap s)" "heap_end (heap s') = heap_end (heap s)"
    "same_beyond (unat (heap_start (heap s))) (unat (heap_end (heap s))) (h_mem (heap s)) (h_mem (heap s'))"
proof -
  have "heap_start (heap s') = heap_start (heap s) \<and> heap_end (heap s') = heap_end (heap s) \<and>
    same_beyond (unat (heap_start (heap s))) (unat (heap_end (heap s))) (h_mem (heap s)) (h_mem (heap s'))"
  proof (cases "entry = 0 \<or> find_slot (tasks s) 0 = None")
    case True
    then have "s' = s" using add by (cases "entry = 0") (simp_all add: scheduler_add_def)
    then show ?thesis by (simp add: same_beyond_def)
  next
    case False
    then obtain slot where slot: "find_slot (tasks s) 0 = Some slot" "entry \<noteq> 0" by auto
    obtain base h where km: "kmalloc STACK_SIZE (heap s) = Some (base, h)"
      using add slot by (auto simp: scheduler_add_def split: option.splits)
    note R = heap_region.malloc_region [OF rel km]
    show ?thesis
    proof (cases "base = 0")
      case True
      then show ?thesis using add slot km R by (auto simp: scheduler_add_def word_unat_eq_iff)
    next
      case base: False
      have n: "0 < unat STACK_SIZE" "unat STACK_SIZE \<le> 2 ^ 32 - 8" by simp_all
      obtain k where k: "4096 \<le> k" "heap_rel h (insert (unat base, k) L)"
      proof (cases rule: heap.malloc_cases [OF rel n])
        case 1
        then show ?thesis using km base by simp
      next
        case (2 p t k)
        then show ?thesis using km that by simp
      qed
      note live = heap_region.live_region [OF k(2), of "unat base" k]
      have end32: "unat base + 4096 < 2 ^ 32"
      proof -
        have "unat base + 4096 \<le> unat (heap_end h)" using live k(1) by simp
        also have "\<dots> < 2 ^ 32" by simp
        finally show ?thesis .
      qed
      obtain c m where init: "task_context_init (Some (ctx (tasks s ! slot))) entry (ad (unat base + 4096)) (h_mem h) = (c, m)"
        by (cases "task_context_init (Some (ctx (tasks s ! slot))) entry (ad (unat base + 4096)) (h_mem h)")
      have "56 \<le> unat base + 4096" by simp
      note F = task_context_init_frame [OF this end32 init]
      have top: "base + 4096 = ad (unat base + 4096)" by (simp add: ad_def)
      have s': "h_mem (heap s') = m" "heap_start (heap s') = heap_start h" "heap_end (heap s') = heap_end h"
        using add slot km base init [folded top] by (auto simp: scheduler_add_def Let_def)
      have "same_beyond (unat (heap_start h)) (unat (heap_end h)) (h_mem h) m"
        using F(3) live k(1) unfolding same_outside_def same_beyond_def by auto
      then show ?thesis using R s' by (auto simp: same_beyond_def word_unat_eq_iff)
    qed
  qed
  then show "heap_start (heap s') = heap_start (heap s)" "heap_end (heap s') = heap_end (heap s)"
    "same_beyond (unat (heap_start (heap s))) (unat (heap_end (heap s))) (h_mem (heap s)) (h_mem (heap s'))" by simp_all
qed

lemma sched_inv_window:
  assumes inv: "sched_inv s"
    and same: "\<And>x. unat (heap_start (heap s)) \<le> x \<Longrightarrow> x < unat (heap_end (heap s)) \<Longrightarrow> m (ad x) = h_mem (heap s) (ad x)"
  shows "sched_inv (s\<lparr>heap := (heap s)\<lparr>h_mem := m\<rparr>\<rparr>)"
proof -
  have "heap_rel ((heap s)\<lparr>h_mem := m\<rparr>) L" if "heap_rel (heap s) L" for L
    using heap_region.outside_ok [OF that same] by simp
  then show ?thesis
    using inv unfolding sched_inv_def sched_base_def slots_ok_def pids_ok_def stacks_in_def runnable_def by auto
qed

lemma heap_inv_memory:
  assumes inv: "heap_inv h bs"
    and same: "\<And>x. unat (heap_start h) \<le> x \<Longrightarrow> x < unat (heap_end h) \<Longrightarrow> m (ad x) = h_mem h (ad x)"
  shows "heap_inv (h\<lparr>h_mem := m\<rparr>) bs"
proof -
  have "m (ad (b_addr c + j)) = h_mem h (ad (b_addr c + j))" if "c \<in> set bs" "j < 12" for c j
    using tiles_mem [OF heap_invD(4) [OF inv] that(1)] that(2) by (intro same) auto
  then have "chain m bs" using chain_cong [of bs m "h_mem h"] heap_invD(5) [OF inv] by simp
  with inv show ?thesis by (simp add: heap_inv_def)
qed

lemma start_one:
  assumes "tasks s = t # ts" and "task_count s = 1" and "active_tasks s = 1" and "state t = TASK_RUNNABLE"
  shows "\<exists>s'. scheduler_start esp s = (irq_esp (ctx t), s') \<and> current_task s' = 0 \<and> heap s' = heap s \<and>
    scheduling_enabled s'"
  using assms
  by (simp add: scheduler_start_def timer_interrupt_def timer_handler_def scheduler_tick_def Let_def
      scheduler_switch_from_isr_def save_esp_def)

subsection \<open>The stages\<close>

abbreviation console_ok :: "('h, 'd) kernel \<Rightarrow> bool" where
  "console_ok k \<equiv> on_screen (log_console (k_log k))"

definition frames_ok :: "('h, 'd) kernel \<Rightarrow> bool" where
  "frames_ok k \<longleftrightarrow> frames_wf (seen_frames k) \<and> 0 \<in> used_set (seen_frames k) \<and>
     (\<forall>x. in_bitmap (seen_frames k) x \<longrightarrow> x < 0x1000000 \<and> x div 4096 \<in> used_set (seen_frames k))"

definition sched_fresh :: "('h, 'd) kernel \<Rightarrow> bool" where
  "sched_fresh k \<longleftrightarrow> sched_inv (seen_sched k) \<and> heap_at (heap (k_sched k)) \<and>
     heap_inv (heap (seen_sched k)) [\<lparr>b_addr = 0xC1000000, b_size = 0x100000 - 12, b_free = True\<rparr>] \<and>
     length (tasks (k_sched k)) = 4 \<and> state (tasks (k_sched k) ! 0) = TASK_UNUSED \<and>
     task_count (k_sched k) = 0 \<and> active_tasks (k_sched k) = 0 \<and> next_pid (k_sched k) = 1"

lemma say_ok:
  assumes "console_ok k"
  shows "\<exists>mon. say bs k = Some (k\<lparr>k_log := (k_log k)\<lparr>log_console := mon\<rparr>\<rparr>) \<and> on_screen mon"
  using monitor_write_spec [OF assms, of bs] by (auto simp: say_def)

lemma seen_say [simp]:
  "seen_frames (k\<lparr>k_log := lg\<rparr>) = seen_frames k" "seen_sched (k\<lparr>k_log := lg\<rparr>) = seen_sched k"
  by (simp_all add: seen_frames_def seen_sched_def)

text \<open>Both invariants survive when the memory changes outside the bitmap and outside the heap.\<close>

lemma frames_ok_memory:
  assumes "frames_ok k" and "k_frames k' = (k_frames k)\<lparr>fr_mem := m\<rparr>"
    and same: "\<And>x. in_bitmap (seen_frames k) x \<Longrightarrow> ram k' (ad x) = ram k (ad x)"
  shows "frames_ok k'"
proof -
  have low: "x < 0x2000000" if "in_bitmap (seen_frames k) x" for x
    using assms(1) that by (fastforce simp: frames_ok_def)
  have eq: "seen_frames k' = (seen_frames k)\<lparr>fr_mem := virt (ram k')\<rparr>" using assms(2) by (simp add: seen_frames_def)
  have mem: "virt (ram k') (ad x) = fr_mem (seen_frames k) (ad x)" if "in_bitmap (seen_frames k) x" for x
    using same [OF that] virt_low [OF low [OF that]] by (simp add: seen_frames_def)
  show ?thesis
    using assms(1) frames_mem_cong [of "seen_frames k" "virt (ram k')", OF _ mem]
    unfolding frames_ok_def eq by (simp add: in_bitmap_def)
qed

lemma heap_window:
  assumes "heap_at h" and "unat (heap_start h) \<le> x" and "x < unat (heap_end h)"
  shows "0xC0000000 \<le> x" "x < 0xC2000000" "0x1000000 \<le> x - 0xC0000000" "x - 0xC0000000 < 0x2000000"
  using assms by (simp_all add: heap_at_def)

lemma sched_fresh_memory:
  assumes fresh: "sched_fresh k" and eq: "k_sched k' = k_sched k"
    and same: "\<And>x. 0x1000000 \<le> x \<Longrightarrow> x < 0x2000000 \<Longrightarrow> ram k' (ad x) = ram k (ad x)"
  shows "sched_fresh k'"
proof -
  have at: "heap_at (heap (seen_sched k))" using fresh by (simp add: sched_fresh_def seen_sched_def heap_at_def)
  have "virt (ram k') (ad x) = h_mem (heap (seen_sched k)) (ad x)"
    if "unat (heap_start (heap (seen_sched k))) \<le> x" "x < unat (heap_end (heap (seen_sched k)))" for x
    using heap_window [OF at that] same by (simp add: virt_high seen_sched_def)
  note S = sched_inv_window [OF _ this] and H = heap_inv_memory [OF _ this]
  have "seen_sched k' = (seen_sched k)\<lparr>heap := (heap (seen_sched k))\<lparr>h_mem := virt (ram k')\<rparr>\<rparr>"
    using eq by (simp add: seen_sched_def)
  then show ?thesis using fresh S H eq by (simp add: sched_fresh_def)
qed

text \<open>The RAM file system after \<^verbatim>\<open>ramfs_init\<close>, which runs before the heap exists.\<close>

definition files_fresh :: "u32 \<Rightarrow> ramfs \<Rightarrow> bool" where
  "files_fresh hello fs \<longleftrightarrow> (\<forall>h L. heap_rel h L \<and> outside_heap h (unat hello) 17 \<longrightarrow>
     ram_inv (fs\<lparr>fs_heap := h\<rparr>) L \<and> dir_names (fs\<lparr>fs_heap := h\<rparr>) = [hello_name])"

lemma ramfs_init_heap:
  assumes "length (nodes s) = 9"
  shows "ramfs_init hello (s\<lparr>fs_heap := h\<rparr>) = map_option (\<lambda>s'. s'\<lparr>fs_heap := h\<rparr>) (ramfs_init hello s)"
    "ramfs_init hello s \<noteq> None"
proof -
  obtain a b ns where "nodes s = a # b # ns" using assms by (auto simp: length_Suc_conv numeral_eq_Suc)
  then show "ramfs_init hello (s\<lparr>fs_heap := h\<rparr>) = map_option (\<lambda>s'. s'\<lparr>fs_heap := h\<rparr>) (ramfs_init hello s)"
    "ramfs_init hello s \<noteq> None"
    by (simp_all add: ramfs_init_def ramfs_alloc_node_def upd_vfs_def upd_node_def add_child_entry_def vfs_set_root_def Let_def
      word_le_nat_alt)
qed

lemma ramfs_init_fresh:
  assumes "length (nodes s) = 9"
  shows "\<exists>fs. ramfs_init hello s = Some fs \<and> files_fresh hello fs"
proof -
  obtain fs where fs: "ramfs_init hello s = Some fs" using ramfs_init_heap(2) [OF assms] by blast
  have "ram_inv (fs\<lparr>fs_heap := h\<rparr>) L \<and> dir_names (fs\<lparr>fs_heap := h\<rparr>) = [hello_name]"
    if "heap_rel h L" "outside_heap h (unat hello) 17" for h L
    using ramfs_init_ok [of "s\<lparr>fs_heap := h\<rparr>" L hello] that assms ramfs_init_heap(1) [OF assms, of hello h] fs by auto
  with fs show ?thesis by (auto simp: files_fresh_def)
qed

text \<open>What a stage leaves as it was.\<close>

definition same_tasks :: "('h, 'd) kernel \<Rightarrow> ('h, 'd) kernel \<Rightarrow> bool" where
  "same_tasks k k' \<longleftrightarrow> ram k' = ram k \<and> k_sched k' = k_sched k \<and> k_frames k' = k_frames k"

definition same_services :: "('h, 'd) kernel \<Rightarrow> ('h, 'd) kernel \<Rightarrow> bool" where
  "same_services k k' \<longleftrightarrow> k_queue k' = k_queue k \<and> k_files k' = k_files k"

lemma start_tables_ok:
  assumes "console_ok k"
  shows "console_ok (start_tables e k)" "same_tasks k (start_tables e k)" "same_services k (start_tables e k)"
    "k_storage (start_tables e k) = k_storage k" "k_irq (start_tables e k) = k_irq k"
  using assms
  by (simp_all add: start_tables_def Let_def split_beta serial_init_def outb_def monitor_enable_serial_def log_set_level_def
    same_tasks_def same_services_def on_screen_def)

lemma start_files_ok:
  assumes con: "console_ok k" and dev: "default_dev (k_storage k) = None" and n: "length (nodes (k_files k)) = 9"
  shows "\<exists>k'. start_files e k = Some k' \<and> console_ok k' \<and> same_tasks k k' \<and> k_queue k' = ipc_init (k_queue k) \<and>
    files_fresh (hello_at e) (k_files k') \<and> k_storage k' = k_storage k \<and> k_irq k' = k_irq k"
proof -
  let ?k = "k\<lparr>k_keyboard := (k_keyboard k)\<lparr>input := input_init (input (k_keyboard k))\<rparr>, k_queue := ipc_init (k_queue k)\<rparr>"
  obtain fs where fs: "ramfs_init (hello_at e) (vfs_init (k_files k)) = Some fs" "files_fresh (hello_at e) fs"
    using ramfs_init_fresh [of "vfs_init (k_files k)"] n by (auto simp: vfs_init_def)
  obtain m1 where m1: "say (says e Says_Ramfs) (?k\<lparr>k_files := fs\<rparr>) =
      Some (?k\<lparr>k_files := fs, k_log := (k_log k)\<lparr>log_console := m1\<rparr>\<rparr>)" "on_screen m1"
    using say_ok [of "?k\<lparr>k_files := fs\<rparr>" "says e Says_Ramfs"] con by auto
  let ?k1 = "?k\<lparr>k_files := fs, k_log := (k_log k)\<lparr>log_console := m1\<rparr>\<rparr>"
  have fat: "fat_init (storage_get_default (k_storage k)) v = Some v" for v
    using dev by (simp add: storage_get_default_def fat_init_def)
  obtain m2 where m2: "say (says e Says_Fat) (?k1\<lparr>k_fat := k_fat k\<rparr>) =
      Some (?k1\<lparr>k_fat := k_fat k, k_log := (k_log k)\<lparr>log_console := m2\<rparr>\<rparr>)" "on_screen m2"
    using say_ok [of "?k1\<lparr>k_fat := k_fat k\<rparr>" "says e Says_Fat"] m1(2) by auto
  have "start_files e k = Some (?k1\<lparr>k_fat := k_fat k, k_log := (k_log k)\<lparr>log_console := m2\<rparr>\<rparr>)"
    using fs(1) m1(1) m2(1) fat by (simp add: start_files_def Let_def)
  then show ?thesis using m2(2) fs(2) by (simp add: same_tasks_def)
qed

text \<open>
  Boot information that the kernel can use: a memory map of regions inside the memory, and room
  for the kernel and its bitmap below the heap and beside the boot structures.
\<close>

definition boot_map :: "u32 \<Rightarrow> u32 \<Rightarrow> memory \<Rightarrow> mmap_entry list \<Rightarrow> bool" where
  "boot_map ke mb m es \<longleftrightarrow>
     (let maddr = load32 m (mb + 48); mlen = load32 m (mb + 44);
          T = unat (clamp_u64_to_u32 (mmap_top es)) div 4096;
          P = 4096 * page_up ke; Q = P + 4 * ((T + 31) div 32)
      in mb \<noteq> 0 \<and> load32 m mb AND MULTIBOOT_FLAG_MMAP \<noteq> 0 \<and> mmap_at m maddr (maddr + mlen) es \<and>
         list_all (Frame_Init.entry_ok T) es \<and> 0 < T \<and> 0 < ke \<and> unat ke + 4095 < 2 ^ 32 \<and> Q \<le> 4096 * T \<and> Q \<le> 0x1000000 \<and>
         (unat mb + 52 \<le> P \<or> Q \<le> unat mb) \<and> unat mb + 52 \<le> 4096 * T \<and>
         (unat maddr + unat mlen \<le> P \<or> Q \<le> unat maddr) \<and> unat maddr + unat mlen \<le> 4096 * T)"

lemma boot_frames:
  assumes "boot_map ke mb (fr_mem s) es"
  shows "\<exists>s'. frame_allocator_init ke mb s = Some s' \<and> frames_wf s' \<and> 0 \<in> used_set s' \<and>
    (\<forall>x. in_bitmap s' x \<longrightarrow> x < 0x1000000 \<and> x div 4096 \<in> used_set s')"
proof -
  let ?m = "fr_mem s"
  let ?maddr = "load32 ?m (mb + 48)" and ?mlen = "load32 ?m (mb + 44)"
  let ?T = "unat (clamp_u64_to_u32 (mmap_top es)) div 4096" and ?P = "4096 * page_up ke"
  let ?Q = "?P + 4 * ((?T + 31) div 32)"
  note B = assms [unfolded boot_map_def Let_def]
  have "\<exists>s'. frame_allocator_init ke mb s = Some s' \<and> frames_wf s' \<and> unat (total_frames s') = ?T \<and>
    used_set s' = ({..<?T} - (\<Union>en \<in> set es. available en)) \<union> {f. 4096 * f < ?Q} \<union>
      region_frames ?maddr ?mlen \<union> region_frames mb 52 \<and>
    (\<forall>x. in_bitmap s' x \<longleftrightarrow> ?P \<le> x \<and> x < ?Q) \<and>
    (\<forall>x < 2 ^ 32. \<not> (?P \<le> x \<and> x < ?Q) \<longrightarrow> fr_mem s' (ad x) = fr_mem s (ad x))"
    by (rule frame_allocator_init_spec [OF _ _ refl refl _ _ refl _ refl refl]) (use B in blast)+
  then obtain s' where s': "frame_allocator_init ke mb s = Some s'" "frames_wf s'"
    "{f. 4096 * f < ?Q} \<subseteq> used_set s'" "\<forall>x. in_bitmap s' x \<longleftrightarrow> ?P \<le> x \<and> x < ?Q" by blast
  have "0 < (?T + 31) div 32" using B by linarith
  then have "0 \<in> used_set s'" using s'(3) by (auto intro!: subsetD [OF s'(3)])
  moreover have "?Q \<le> 0x1000000" using B by blast
  then have "\<forall>x. in_bitmap s' x \<longrightarrow> x < 0x1000000" using s'(4) by (meson less_le_trans)
  moreover have "\<forall>x. in_bitmap s' x \<longrightarrow> x div 4096 \<in> used_set s'"
    using s'(4) le_less_trans [OF times_div_less_eq_dividend] by (blast intro: subsetD [OF s'(3)])
  ultimately show ?thesis using s'(1,2) by blast
qed

lemma boot_report:
  assumes con: "on_screen (log_console s)" and map: "boot_map ke mb m es"
  shows "\<exists>s'. multiboot_init MULTIBOOT_MAGIC mb m s = Some (mb, s') \<and> on_screen (log_console s')"
proof -
  have log: "\<exists>s'. log_bytes level out s = Some s' \<and> on_screen (log_console s')" if "on_screen (log_console s)" for level out s
    using monitor_write_spec [OF that, of "log_entry (current_level s) level out"] by (auto simp: log_bytes_entry)
  obtain s1 where s1: "log_bytes LOG_INFO (bytes ''Multiboot OK. flags=0x'' @ hex_text (load32 m mb) @ [10]) s = Some s1"
    "on_screen (log_console s1)" using log [OF con] by blast
  obtain s2 where s2: "log_bytes LOG_INFO (bytes ''Memory map:'' @ [10]) s1 = Some s2" "on_screen (log_console s2)"
    using log [OF s1(2)] by blast
  obtain mon where mon: "monitor_write (concat (map mmap_line es)) (log_console s2) = Some mon" "on_screen mon"
    using monitor_write_spec [OF s2(2)] by blast
  have "load32 m mb AND MULTIBOOT_FLAG_MMAP \<noteq> 0"
    "mmap_at m (load32 m (mb + 48)) (load32 m (mb + 48) + load32 m (mb + 44)) es"
    using map unfolding boot_map_def Let_def by blast+
  then show ?thesis
    using s1(1) s2(1) mon multiboot_loop_lines by (simp add: multiboot_init_def Let_def)
qed

lemma heap_init_below:
  assumes "x < 0xC1000000"
  shows "h_mem (heap_init 0xC1000000 sz s) (ad x) = h_mem s (ad x)"
proof -
  have st: "store32 m (ad A) v (ad x) = m (ad x)" if "0xC1000000 \<le> A" "A \<le> 0xC1000008" for A m v
    by (rule store32_byte) (use that assms in simp_all)
  have n: "ad (numeral n) = numeral n" for n by (simp add: ad_def)
  have "store32 m 0xC1000000 v (ad x) = m (ad x)" "store32 m 0xC1000004 v (ad x) = m (ad x)"
    "store32 m 0xC1000008 v (ad x) = m (ad x)" for m v
    using st [of "0xC1000000" m v, unfolded n] st [of "0xC1000004" m v, unfolded n] st [of "0xC1000008" m v, unfolded n] by simp_all
  then show ?thesis by (simp add: heap_init_def)
qed

lemma scheduler_init_fields [simp]:
  "heap (scheduler_init s) = heap s" "length (tasks (scheduler_init s)) = length (tasks s)"
  "task_count (scheduler_init s) = 0" "active_tasks (scheduler_init s) = 0" "next_pid (scheduler_init s) = 1"
  by (simp_all add: scheduler_init_def)

lemma heap_scheduler_init [simp]: "(scheduler_init s)\<lparr>heap := h\<rparr> = scheduler_init (s\<lparr>heap := h\<rparr>)"
  by (simp add: scheduler_init_def)

text \<open>A heap that was just set up, and the scheduler on it.\<close>

lemma fresh_heap:
  assumes h: "h = heap_init 0xC1000000 (1024 * 1024) h0" and n: "length (tasks s) = 4"
    and k: "k_sched k = scheduler_init (s\<lparr>heap := h\<rparr>)" "ram k = store_high (h_mem h) m"
  shows "sched_fresh k"
proof -
  have at: "heap_at h" by (simp add: h heap_at_def heap_init_def)
  have same: "virt (ram k) (ad x) = h_mem h (ad x)" if "unat (heap_start h) \<le> x" "x < unat (heap_end h)" for x
    using heap_window [OF at that] k(2) by (simp add: virt_store_high)
  have inv: "heap_inv h [\<lparr>b_addr = 0xC1000000, b_size = 0x100000 - 12, b_free = True\<rparr>]"
    unfolding h using heap_init_inv [of "0xC1000000" "1024 * 1024"] by simp
  have "heap_run h {}" unfolding h by (rule run_init) simp_all
  then have "sched_inv (scheduler_init (s\<lparr>heap := h\<rparr>))" by (intro scheduler_init_inv) (simp_all add: n)
  from sched_inv_window [OF this, of "virt (ram k)"] same have "sched_inv (seen_sched k)" by (simp add: seen_sched_def k(1))
  moreover have "heap_inv (heap (seen_sched k)) [\<lparr>b_addr = 0xC1000000, b_size = 0x100000 - 12, b_free = True\<rparr>]"
    using heap_inv_memory [OF inv same] by (simp add: seen_sched_def k(1))
  moreover have "state (tasks (k_sched k) ! 0) = TASK_UNUSED"
    using n by (simp add: k(1) scheduler_init_def reset_task_def)
  ultimately show ?thesis using at n by (simp add: sched_fresh_def k(1))
qed

lemma start_memory_ok:
  assumes con: "console_ok k" and map: "boot_map (kernel_end e) mb (ram k) es" and n: "length (tasks (k_sched k)) = 4"
  shows "\<exists>k'. start_memory e MULTIBOOT_MAGIC mb k = Some k' \<and> console_ok k' \<and> frames_ok k' \<and> sched_fresh k' \<and>
    same_services k k' \<and> k_storage k' = k_storage k \<and> k_irq k' = k_irq k \<and>
    k_pages k' = paging_init (low_tables e) (high_tables e) \<and> esp0 (k_tss k') = 0xC1100000"
proof -
  obtain lg where lg: "multiboot_init MULTIBOOT_MAGIC mb (ram k) (k_log k) = Some (mb, lg)" "on_screen (log_console lg)"
    using boot_report [OF con map] by blast
  let ?fr0 = "(k_frames k)\<lparr>fr_mem := ram k\<rparr>"
  obtain fr where fr: "frame_allocator_init (kernel_end e) mb ?fr0 = Some fr" "frames_wf fr" "0 \<in> used_set fr"
    "\<forall>x. in_bitmap fr x \<longrightarrow> x < 0x1000000 \<and> x div 4096 \<in> used_set fr"
    using boot_frames [of "kernel_end e" mb ?fr0 es] map by auto
  let ?k1 = "k\<lparr>k_log := lg, k_frames := fr, ram := fr_mem fr\<rparr>"
  obtain m1 where m1: "say (says e Says_Frames) ?k1 = Some (?k1\<lparr>k_log := lg\<lparr>log_console := m1\<rparr>\<rparr>)" "on_screen m1"
    using say_ok [of ?k1 "says e Says_Frames"] lg(2) by auto
  let ?k2 = "?k1\<lparr>k_log := lg\<lparr>log_console := m1\<rparr>, k_pages := paging_init (low_tables e) (high_tables e)\<rparr>"
  obtain m2 where m2: "say (says e Says_Paging) ?k2 = Some (?k2\<lparr>k_log := lg\<lparr>log_console := m2\<rparr>\<rparr>)" "on_screen m2"
    using say_ok [of ?k2 "says e Says_Paging"] m1(2) by auto
  define h where "h = heap_init 0xC1000000 (1024 * 1024) ((heap (k_sched k))\<lparr>h_mem := virt (fr_mem fr)\<rparr>)"
  let ?k3 = "?k2\<lparr>k_log := lg\<lparr>log_console := m2\<rparr>, ram := store_high (h_mem h) (fr_mem fr), k_sched := (k_sched k)\<lparr>heap := h\<rparr>\<rparr>"
  obtain m3 where m3: "say (says e Says_Heap) ?k3 = Some (?k3\<lparr>k_log := lg\<lparr>log_console := m3\<rparr>\<rparr>)" "on_screen m3"
    using say_ok [of ?k3 "says e Says_Heap"] m2(2) by auto
  define k' where "k' = ?k3\<lparr>k_log := lg\<lparr>log_console := m3\<rparr>, k_tss := set_kernel_stack 0xC1100000 (k_tss k),
     k_sched := scheduler_init ((k_sched k)\<lparr>heap := h\<rparr>)\<rparr>"
  have "start_memory e MULTIBOOT_MAGIC mb k = Some k'"
    using lg(1) fr(1) m1(1) m2(1) m3(1) by (simp add: start_memory_def Let_def h_def k'_def)
  moreover have "sched_fresh k'" by (rule fresh_heap [OF h_def n]) (simp_all add: k'_def)
  moreover have "frames_ok k'"
  proof -
    have mem: "virt (ram k') (ad x) = fr_mem fr (ad x)" if "in_bitmap fr x" for x
    proof -
      have x: "x < 0x1000000" using fr(4) that by blast
      then have "virt (ram k') (ad x) = h_mem h (ad (x + 0xC0000000))" by (simp add: virt_low k'_def store_high_low)
      also have "\<dots> = virt (fr_mem fr) (ad (x + 0xC0000000))" unfolding h_def using x by (subst heap_init_below) simp_all
      also have "\<dots> = fr_mem fr (ad x)" using x by (simp add: virt_high)
      finally show ?thesis .
    qed
    have "seen_frames k' = fr\<lparr>fr_mem := virt (ram k')\<rparr>" by (simp add: seen_frames_def k'_def)
    then show ?thesis using frames_mem_cong [OF fr(2) mem] fr(3,4) by (simp add: frames_ok_def in_bitmap_def)
  qed
  ultimately show ?thesis using m3(2) by (simp add: k'_def same_services_def set_kernel_stack_def)
qed

lemma start_input_ok:
  assumes "console_ok k"
  shows "console_ok (start_input e k)" "same_tasks k (start_input e k)" "same_services k (start_input e k)"
    "k_storage (start_input e k) = k_storage k" "k_tss (start_input e k) = k_tss k" "k_pages (start_input e k) = k_pages k"
    "k_irq (start_input e k) = register_irq_handler 12 (Some Mouse_Handler)
       (register_irq_handler 4 (Some Serial_Irq_Handler) (register_irq_handler 1 (Some Keyboard_Handler) (k_irq k)))"
  using assms
  by (simp_all add: start_input_def set_irq_def Let_def same_tasks_def same_services_def serial_enable_rx_interrupts_def
    outb_def on_screen_def)

lemma timer_init_ok:
  "\<exists>k'. timer_init 100 k = Some k' \<and> k_log k' = k_log k \<and> same_tasks k k' \<and> same_services k k' \<and> k_storage k' = k_storage k \<and>
    k_tss k' = k_tss k \<and> k_pages k' = k_pages k \<and> k_irq k' = register_irq_handler 0 (Some Timer_Handler) (k_irq k)"
  by (simp add: timer_init_def pit_init_def set_irq_def same_tasks_def same_services_def)

lemma same_tasks_ok:
  assumes "same_tasks k k'"
  shows "frames_ok k' = frames_ok k" "sched_fresh k' = sched_fresh k"
  using assms by (simp_all add: same_tasks_def frames_ok_def sched_fresh_def seen_frames_def seen_sched_def)

text \<open>Taking frames changes the bitmap only, which the heap does not overlap.\<close>

lemma bitmap_memory:
  assumes fr: "frames_ok k" and wf: "frames_wf fr" and kept: "kept (seen_frames k) fr"
    and used: "used_set (seen_frames k) \<subseteq> used_set fr"
    and k': "k_frames k' = fr" "ram k' = store_low (fr_mem fr) (ram k)"
  shows "frames_ok k'" "used_set (seen_frames k') = used_set fr"
    "0x1000000 \<le> x \<Longrightarrow> x < 0x2000000 \<Longrightarrow> ram k' (ad x) = ram k (ad x)"
proof -
  have bm: "in_bitmap fr x = in_bitmap (seen_frames k) x" for x using kept by (simp add: kept_def in_bitmap_def)
  have low: "x < 0x1000000" "x div 4096 \<in> used_set fr" if "in_bitmap fr x" for x
    using fr that bm used by (auto simp: frames_ok_def)
  have mem: "virt (ram k') (ad x) = fr_mem fr (ad x)" if "in_bitmap fr x" for x
    using low(1) [OF that] by (simp add: k'(2) virt_low store_low_low)
  have eq: "seen_frames k' = fr\<lparr>fr_mem := virt (ram k')\<rparr>" by (simp add: seen_frames_def k'(1))
  show "used_set (seen_frames k') = used_set fr" using frames_mem_cong [OF wf mem] by (simp add: eq)
  have "in_bitmap (seen_frames k') x = in_bitmap fr x" for x by (simp add: eq in_bitmap_def)
  then show "frames_ok k'" using frames_mem_cong [OF wf mem] fr used low eq by (auto simp: frames_ok_def)
  show "ram k' (ad x) = ram k (ad x)" if "0x1000000 \<le> x" "x < 0x2000000"
  proof -
    have "\<not> in_bitmap (seen_frames k) x" using low(1) bm that by fastforce
    then have "fr_mem fr (ad x) = virt (ram k) (ad x)" using kept that by (simp add: kept_def seen_frames_def)
    then show ?thesis using that by (simp add: k'(2) store_low_low virt_low)
  qed
qed

lemma start_devices_ok:
  assumes con: "console_ok k" and fr: "frames_ok k" and fresh: "sched_fresh k" and reset: "\<And>s. reset_loop (bus e) s \<noteq> None"
  shows "\<exists>k'. start_devices e k = Some k' \<and> console_ok k' \<and> frames_ok k' \<and> sched_fresh k' \<and> same_services k k' \<and>
    k_irq k' = k_irq k \<and> k_tss k' = k_tss k \<and> k_pages k' = k_pages k"
proof -
  obtain st h where ata: "ata_init (ports.truncate (bus e)) (ata_rd e) (ata_wr e) (ata_slot e) (k_storage k) (hw (k_rtl k)) = (st, h)"
    by fastforce
  let ?k1 = "k\<lparr>k_storage := st, k_rtl := (k_rtl k)\<lparr>hw := h\<rparr>\<rparr>"
  obtain m1 where m1: "say (says e Says_Ata) ?k1 = Some (?k1\<lparr>k_log := (k_log k)\<lparr>log_console := m1\<rparr>\<rparr>)" "on_screen m1"
    using say_ok [of ?k1 "says e Says_Ata"] con by auto
  let ?k2 = "?k1\<lparr>k_log := (k_log k)\<lparr>log_console := m1\<rparr>\<rparr>"
  let ?r = "(k_rtl k)\<lparr>hw := h, rtl_frames := seen_frames k\<rparr>"
  have wf: "frames_wf (rtl_frames ?r)" "0 \<in> used_set (rtl_frames ?r)" using fr by (simp_all add: frames_ok_def)
  obtain c r where r: "rtl8139_init (bus e) ?r = Some (c, r)" "started (bus e) ?r c r"
    using rtl8139_init_cases [OF reset wf] by blast
  have fr': "frames_wf (rtl_frames r)" "used_set (seen_frames k) \<subseteq> used_set (rtl_frames r)" using r(2) by (auto simp: started_def)
  have kept: "kept (seen_frames k) (rtl_frames r)" using rtl8139_init_kept [OF wf(1) r(1)] by simp
  let ?k3 = "?k2\<lparr>k_rtl := r, k_frames := rtl_frames r, ram := store_low (fr_mem (rtl_frames r)) (ram k)\<rparr>"
  obtain m2 where m2: "say (says e Says_Rtl) ?k3 = Some (?k3\<lparr>k_log := (k_log k)\<lparr>log_console := m2\<rparr>\<rparr>)" "on_screen m2"
    using say_ok [of ?k3 "says e Says_Rtl"] m1(2) by auto
  have smp: "\<exists>c lg. smp_init (cpuid e) s = Some (c, lg) \<and> on_screen (log_console lg)" if "on_screen (log_console s)" for s
    using monitor_write_spec [OF that] by (cases "cpuid e 1") (fastforce simp: smp_init_def log_bytes_entry Let_def)
  obtain c' lg where lg: "smp_init (cpuid e) ((k_log k)\<lparr>log_console := m2\<rparr>) = Some (c', lg)" "on_screen (log_console lg)"
    using smp [of "(k_log k)\<lparr>log_console := m2\<rparr>"] m2(2) by auto
  define k' where "k' = ?k3\<lparr>k_log := lg\<rparr>"
  have "start_devices e k = Some k'"
    using ata m1(1) r(1) m2(1) lg(1) by (simp add: start_devices_def Let_def seen_frames_def k'_def)
  moreover note B = bitmap_memory [OF fr fr'(1) kept fr'(2), of k']
  have "frames_ok k'" by (rule B) (simp_all add: k'_def)
  moreover have "sched_fresh k'" by (rule sched_fresh_memory [OF fresh _ B(3)]) (simp_all add: k'_def)
  ultimately show ?thesis using lg(2) by (simp add: k'_def same_services_def)
qed

text \<open>The first task: its stack comes from the heap, the scheduler selects it, and it starts at its entry.\<close>

lemma first_task:
  assumes fresh: "sched_fresh k" and entry: "entry \<noteq> 0"
  shows "\<exists>s t. scheduler_add entry (seen_sched k) = Some (1, s) \<and> sched_inv s \<and> tasks s = t # tl (tasks (k_sched k)) \<and>
    state t = TASK_RUNNABLE \<and> task_count s = 1 \<and> active_tasks s = 1 \<and>
    0xC1000000 \<le> unat (irq_esp (ctx t)) \<and> unat (irq_esp (ctx t)) + 56 \<le> 0xC1100000 \<and>
    (\<exists>top. common_stub_exit (h_mem (heap s)) (irq_esp (ctx t)) = initial_frame entry top)"
proof -
  let ?s = "seen_sched k" and ?b = "\<lparr>b_addr = 0xC1000000, b_size = 0x100000 - 12, b_free = True\<rparr> :: block"
  have F: "sched_inv ?s" "heap_inv (heap ?s) [?b]" "length (tasks ?s) = 4" "state (tasks ?s ! 0) = TASK_UNUSED"
    "task_count ?s = 0" "active_tasks ?s = 0" "next_pid ?s = 1" "tasks ?s = tasks (k_sched k)"
    using fresh by (simp_all add: sched_fresh_def seen_sched_def)
  have slot: "find_slot (tasks ?s) 0 = Some 0" using F(4) by (subst find_slot.simps) simp
  obtain h where add: "scheduler_add entry ?s = Some (1,
      put_task 0 (new_task 0 (ad (b_addr ?b + 4052)) (ad (b_addr ?b + 12)) ?s) h ?s)"
    using add_on_top [of ?s "[]" ?b entry 0] F(2,7) entry slot by auto
  let ?t = "new_task 0 (ad 0xC1000FD4) (ad 0xC100000C) ?s"
  have add': "scheduler_add entry ?s = Some (1, put_task 0 ?t h ?s)" using add by simp
  show ?thesis
  proof (cases rule: scheduler_add_cases [OF F(1), of entry])
    case 1
    then show ?thesis using add' by simp
  next
    case (2 j h' base)
    have eq: "put_task j (new_task j (base + 4040) base ?s) h' ?s = put_task 0 ?t h ?s" using 2(6) add' F(7) by simp
    then have "heap (put_task j (new_task j (base + 4040) base ?s) h' ?s) = heap (put_task 0 ?t h ?s)"
      "tasks (put_task j (new_task j (base + 4040) base ?s) h' ?s) = tasks (put_task 0 ?t h ?s)" by simp_all
    then have hh: "h' = h" and tt: "(tasks ?s)[j := new_task j (base + 4040) base ?s] = (tasks ?s)[0 := ?t]"
      by (simp_all add: put_task_def)
    have j: "j = 0"
    proof (rule ccontr)
      assume "j \<noteq> 0"
      then have "tasks ?s ! 0 = ?t" using tt F(3) by (metis nth_list_update_eq nth_list_update_neq zero_less_numeral)
      then have "state (tasks ?s ! 0) = state ?t" by simp
      then show False using F(4) by (simp add: new_task_def)
    qed
    have t: "new_task 0 (base + 4040) base ?s = ?t" using tt j F(3) by (metis nth_list_update_eq zero_less_numeral)
    then have "irq_esp (ctx (new_task 0 (base + 4040) base ?s)) = irq_esp (ctx ?t)" by simp
    then have esp: "base + 4040 = ad 0xC1000FD4" by (simp add: new_task_def)
    have u: "unat (ad 0xC1000FD4) = 0xC1000FD4" by (rule unat_ad) simp
    obtain a ts where ts: "tasks ?s = a # ts" using F(3) by (cases "tasks ?s") auto
    have "sched_inv (put_task 0 ?t h ?s)" using 2(7) eq by simp
    moreover have "common_stub_exit (h_mem h) (ad 0xC1000FD4) = initial_frame entry (base + 4096)" using 2(8) hh esp by simp
    moreover have "irq_esp (ctx ?t) = ad 0xC1000FD4" "state ?t = TASK_RUNNABLE" by (simp_all add: new_task_def)
    ultimately show ?thesis
      using add' F(5,6) ts F(8) u by (intro exI [of _ "put_task 0 ?t h ?s"] exI [of _ ?t]) (auto simp: put_task_def)
  qed
qed

lemma start_tasks_ok:
  assumes fr: "frames_ok k" and fresh: "sched_fresh k" and entry: "init_entry e \<noteq> 0"
  shows "\<exists>sp k' top. start_tasks e esp k = Some (sp, k') \<and> k' = k\<lparr>ram := ram k', k_sched := k_sched k'\<rparr> \<and>
    frames_ok k' \<and> sched_inv (k_sched k') \<and> heap_at (heap (k_sched k')) \<and> h_mem (heap (k_sched k')) = virt (ram k') \<and>
    current_task (k_sched k') = 0 \<and> scheduling_enabled (k_sched k') \<and>
    common_stub_exit (virt (ram k')) sp = initial_frame (init_entry e) top"
proof -
  obtain s t top where s: "scheduler_add (init_entry e) (seen_sched k) = Some (1, s)" "sched_inv s"
    "tasks s = t # tl (tasks (k_sched k))" "state t = TASK_RUNNABLE" "task_count s = 1" "active_tasks s = 1"
    and sp: "0xC1000000 \<le> unat (irq_esp (ctx t))" "unat (irq_esp (ctx t)) + 56 \<le> 0xC1100000"
    and stub: "common_stub_exit (h_mem (heap s)) (irq_esp (ctx t)) = initial_frame (init_entry e) top"
    using first_task [OF fresh entry] by blast
  let ?m = "store_high (h_mem (heap s)) (ram k)"
  let ?s = "s\<lparr>heap := (heap s)\<lparr>h_mem := virt ?m\<rparr>\<rparr>"
  have at0: "heap_at (heap (seen_sched k))" using fresh by (simp add: sched_fresh_def seen_sched_def heap_at_def)
  obtain L where "heap_rel (heap (seen_sched k)) L" using fresh by (auto simp: sched_fresh_def sched_inv_def sched_base_def)
  note R = scheduler_add_region [OF this s(1)]
  have at: "heap_at (heap s)" using at0 R(1,2) by (simp add: heap_at_def)
  have inv: "sched_inv ?s" using sched_inv_window [OF s(2)] heap_window [OF at] by (simp add: virt_store_high)
  obtain s' where s': "scheduler_start esp ?s = (irq_esp (ctx t), s')" "current_task s' = 0" "heap s' = heap ?s" "scheduling_enabled s'"
    using start_one [of ?s t "tl (tasks (k_sched k))" esp] s(3-6) by auto
  have inv': "sched_inv s'" using scheduler_start_inv [OF inv, of esp] s'(1) by simp
  let ?k = "k\<lparr>ram := ?m, k_sched := s'\<rparr>"
  have "start_tasks e esp k = Some (irq_esp (ctx t), ?k)" using s(1) s'(1) by (simp add: start_tasks_def Let_def)
  moreover have "common_stub_exit (virt ?m) (irq_esp (ctx t)) = initial_frame (init_entry e) top"
  proof -
    have "common_stub_exit (virt ?m) (ad (unat (irq_esp (ctx t)))) = common_stub_exit (h_mem (heap s)) (ad (unat (irq_esp (ctx t))))"
      by (rule common_stub_exit_cong) (use sp in \<open>simp add: virt_store_high\<close>)
    then show ?thesis using stub by simp
  qed
  moreover have "frames_ok ?k"
  proof (rule frames_ok_memory [OF fr, where m = "fr_mem (k_frames k)"])
    fix x assume "in_bitmap (seen_frames k) x"
    then have x: "x < 0x1000000" using fr by (simp add: frames_ok_def)
    then have "ram ?k (ad x) = h_mem (heap s) (ad (x + 0xC0000000))" by (simp add: store_high_low)
    also have "\<dots> = h_mem (heap (seen_sched k)) (ad (x + 0xC0000000))"
      using R(3) at0 x by (simp add: same_beyond_def heap_at_def)
    also have "\<dots> = ram k (ad x)" using x by (simp add: seen_sched_def virt_high)
    finally show "ram ?k (ad x) = ram k (ad x)" .
  qed simp
  ultimately show ?thesis using inv' at s'(2,3,4)
    by (intro exI [of _ "irq_esp (ctx t)"] exI [of _ ?k] exI [of _ top]) (simp add: heap_at_def)
qed

subsection \<open>Properties\<close>

text \<open>A kernel that runs: the frames, the heap in its window, and the system calls on it. Its files.\<close>

definition kernel_ok :: "('h, 'd) kernel \<Rightarrow> bool" where
  "kernel_ok k \<longleftrightarrow> frames_ok k \<and> heap_at (heap (k_sched k)) \<and> sys_inv (sys_of k)"

definition files_of :: "('h, 'd) kernel \<Rightarrow> ramfs" where
  "files_of k = (k_files k)\<lparr>fs_heap := heap (seen_sched k)\<rparr>"

lemma seen_sched_same: "h_mem (heap (k_sched k)) = virt (ram k) \<Longrightarrow> seen_sched k = k_sched k"
  by (simp add: seen_sched_def)

text \<open>The static variables before \<^verbatim>\<open>kernel_main\<close>, and a machine it can run on.\<close>

definition unstarted :: "('h, 'd) kernel \<Rightarrow> bool" where
  "unstarted k \<longleftrightarrow> on_screen (log_console (k_log k)) \<and> default_dev (k_storage k) = None \<and> length (nodes (k_files k)) = 9 \<and>
     length (tasks (k_sched k)) = 4 \<and> length (k_irq k) = 16 \<and> length (ipc_queue (k_queue k)) = 32"

definition machine_ok :: "('h, 'd) machine \<Rightarrow> bool" where
  "machine_ok e \<longleftrightarrow> init_entry e \<noteq> 0 \<and> unat (hello_at e) + 17 \<le> 0xC1000000 \<and>
     low_tables e AND 0xFFF = 0 \<and> high_tables e AND 0xFFF = 0 \<and> distinct (table_addresses (low_tables e) (high_tables e)) \<and>
     (\<forall>s. reset_loop (bus e) s \<noteq> None)"

definition irqs_set :: "irq_fn option list \<Rightarrow> irq_fn option list" where
  "irqs_set hs = register_irq_handler 12 (Some Mouse_Handler) (register_irq_handler 4 (Some Serial_Irq_Handler)
     (register_irq_handler 1 (Some Keyboard_Handler) (register_irq_handler 0 (Some Timer_Handler) hs)))"

lemma started_handlers:
  assumes "length hs = 16"
  shows "fst (irq_handler (irqs_set hs) 32) = Call Timer_Handler" "fst (irq_handler (irqs_set hs) 33) = Call Keyboard_Handler"
    "fst (irq_handler (irqs_set hs) 36) = Call Serial_Irq_Handler" "fst (irq_handler (irqs_set hs) 44) = Call Mouse_Handler"
  using assms by (simp_all add: irqs_set_def irq_handler_def register_irq_handler_def)

text \<open>\<^verbatim>\<open>kernel_main\<close> before it adds the first task.\<close>

lemma kernel_main_stages:
  assumes "unstarted k" and "machine_ok e" and "boot_map (kernel_end e) mb (ram k) es"
  shows "\<exists>k'. kernel_main e MULTIBOOT_MAGIC mb esp k = start_tasks e esp k' \<and> console_ok k' \<and> frames_ok k' \<and> sched_fresh k' \<and>
    k_queue k' = ipc_init (k_queue k) \<and> files_fresh (hello_at e) (k_files k') \<and> k_irq k' = irqs_set (k_irq k) \<and>
    k_pages k' = paging_init (low_tables e) (high_tables e) \<and> esp0 (k_tss k') = 0xC1100000"
proof -
  note U = assms(1) [unfolded unstarted_def] and M = assms(2) [unfolded machine_ok_def]
  let ?k0 = "start_tables e k"
  have con: "console_ok k" using U by simp
  note K0 = start_tables_ok [OF con, of e, unfolded same_tasks_def same_services_def]
  obtain k1 where k1: "start_files e ?k0 = Some k1" "console_ok k1" "same_tasks ?k0 k1" "k_queue k1 = ipc_init (k_queue ?k0)"
    "files_fresh (hello_at e) (k_files k1)" "k_irq k1 = k_irq ?k0"
    using start_files_ok [OF K0(1), of e] K0 U by auto
  have "boot_map (kernel_end e) mb (ram k1) es" "length (tasks (k_sched k1)) = 4"
    using k1(3) K0(2) assms(3) U by (simp_all add: same_tasks_def)
  from start_memory_ok [OF k1(2) this] obtain k2 where k2: "start_memory e MULTIBOOT_MAGIC mb k1 = Some k2" "console_ok k2"
    "frames_ok k2" "sched_fresh k2" "same_services k1 k2" "k_irq k2 = k_irq k1"
    "k_pages k2 = paging_init (low_tables e) (high_tables e)" "esp0 (k_tss k2) = 0xC1100000" by blast
  obtain k3 where k3: "timer_init 100 k2 = Some k3" "k_log k3 = k_log k2" "same_tasks k2 k3" "same_services k2 k3"
    "k_tss k3 = k_tss k2" "k_pages k3 = k_pages k2" "k_irq k3 = register_irq_handler 0 (Some Timer_Handler) (k_irq k2)"
    using timer_init_ok [of k2] by blast
  have con3: "console_ok k3" using k2(2) k3(2) by simp
  let ?k4 = "start_input e k3"
  note K4 = start_input_ok [OF con3, of e]
  have "frames_ok ?k4" "sched_fresh ?k4" using same_tasks_ok [OF K4(2)] same_tasks_ok [OF k3(3)] k2(3,4) by simp_all
  from start_devices_ok [OF K4(1) this] M obtain k5 where k5: "start_devices e ?k4 = Some k5" "console_ok k5" "frames_ok k5"
    "sched_fresh k5" "same_services ?k4 k5" "k_irq k5 = k_irq ?k4" "k_tss k5 = k_tss ?k4" "k_pages k5 = k_pages ?k4" by blast
  obtain mon where mon: "say started_message k5 = Some (k5\<lparr>k_log := (k_log k5)\<lparr>log_console := mon\<rparr>\<rparr>)" "on_screen mon"
    using say_ok [OF k5(2)] by blast
  let ?k6 = "k5\<lparr>k_log := (k_log k5)\<lparr>log_console := mon\<rparr>\<rparr>"
  have "kernel_main e MULTIBOOT_MAGIC mb esp k = start_tasks e esp ?k6"
    using k1(1) k2(1) k3(1) k5(1) mon(1) by (simp add: kernel_main_def)
  moreover have "frames_ok ?k6" "sched_fresh ?k6" using k5(3,4) by (simp_all add: frames_ok_def sched_fresh_def)
  moreover have "k_queue ?k6 = ipc_init (k_queue k)" "k_files ?k6 = k_files k1"
    using k5(5) K4(3) k3(4) k2(5) k1(4) K0(3) by (simp_all add: same_services_def)
  moreover have "k_irq ?k6 = irqs_set (k_irq k)" using k5(6) K4(7) k3(7) k2(6) k1(6) K0(5) by (simp add: irqs_set_def)
  ultimately show ?thesis
    using mon(2) k1(5) k5(7,8) K4(5,6) k3(5,6) k2(7,8) by (intro exI [of _ ?k6]) simp
qed


text \<open>A machine with 32 KB of memory, a card that answers and the static variables as loaded.\<close>

definition demo_machine :: "(u32, unit) machine" where
  "demo_machine = \<lparr>kernel_end = 0x1000, tss_at = 0x3800, isr_stub = \<lambda>n. of_nat n, irq_stub = \<lambda>n. of_nat n,
     low_tables = 0x200000, high_tables = 0x210000, hello_at = 0x3000, init_entry = 0x100000, bus = demo_bus,
     ata_rd = \<lambda>_ _ _. (-1, []), ata_wr = \<lambda>d _ _ _. (-1, d), ata_slot = 0, cpuid = \<lambda>_. (0, 0, 0, 0),
     says = \<lambda>_. bytes ''ok''\<rparr>"

definition demo_kernel :: "(u32, unit) kernel" where
  "demo_kernel = \<lparr>ram = fr_mem boot_demo, k_gdt = replicate 6 \<lparr>limit_low = 0, seg_base_low = 0, base_middle = 0, access = 0,
       granularity = 0, seg_base_high = 0\<rparr>,
     k_tss = \<lparr>ss0 = 0, esp0 = 0, tss_cs = 0, tss_ss = 0, tss_ds = 0, tss_es = 0, tss_fs = 0, tss_gs = 0, iomap_base = 0\<rparr>,
     k_idt = replicate 256 zero_gate, k_pic = [], k_irq = replicate 16 None,
     k_log = \<lparr>current_level = LOG_INFO, log_console = blank_monitor\<rparr>, k_keyboard = keyboard_static, k_queue = ipc_static,
     k_files = \<lparr>nodes = replicate 9 zero_node, node_count = 0, ramfs_root = None, vfs_root = None,
       dirent_tmp = \<lparr>d_name = [], ino = 0\<rparr>, fs_heap = heap sched_boot\<rparr>,
     k_storage = \<lparr>devices = \<lambda>_. \<lparr>sector_size = 0, sector_count = 0, dev_read = None, dev_write = None\<rparr>, default_dev = None\<rparr>,
     k_fat = \<lparr>fat = \<lparr>dev = None, bytes_per_sector = 0, sectors_per_cluster = 0, reserved_sectors = 0, num_fats = 0, fat_size = 0,
       root_entries = 0, root_dir_sectors = 0, first_fat_sector = 0, first_data_sector = 0, root_dir_sector = 0,
       root_cluster = 0, fat_type = 0, total_clusters = 0\<rparr>, fat_files = [], disk = ()\<rparr>,
      k_frames = boot_demo, k_pages = \<lparr>page_directory = [], page_tables_low = [], page_tables_high = []\<rparr>,
     k_sched = sched_boot, k_rtl = demo_rtl\<rparr>"


end
