(* ===== verification/Init_Task.thy ===== *)
theory Init_Task
  imports Kernel_Start_Properties
begin

text \<open>
  The first task (\<^verbatim>\<open>src/core/init.c\<close>) on the state that \<^verbatim>\<open>kernel_main\<close> hands over: it writes a banner
  by a system call, takes a frame for the user stack and enters user mode, or falls back to the
  shell of the kernel.
\<close>

subsection \<open>The code\<close>

text \<open>
  \<^verbatim>\<open>init_task\<close> up to the point where it gives up the processor: by \<^verbatim>\<open>enter_user_mode\<close>, which does
  not come back, or by \<^verbatim>\<open>shell_run\<close> and, once that returns, \<^verbatim>\<open>sys_exit\<close>. Its literals lie at \<open>banner\<close>
  and \<open>no_stack\<close>; \<open>entry\<close> is the address of \<^verbatim>\<open>user_shell_entry\<close>.
\<close>

text \<open>
  The words \<^verbatim>\<open>enter_user_mode\<close> leaves on the stack for \<^verbatim>\<open>iret\<close>: instruction pointer, code segment,
  flags, stack pointer, stack segment. Loading \<open>0x23\<close> into \<open>ax\<close> replaces the low half of \<open>eax\<close>.
\<close>

definition enter_user_mode :: "u32 \<Rightarrow> u32 \<Rightarrow> u32 \<Rightarrow> u32 list" where
  "enter_user_mode eflags entry user_stack =
     (let ax = user_stack; bx = entry; ax = (ax AND 0xFFFF0000) OR 0x23
      in [bx, 0x1B, eflags OR 0x200, ax, 0x23])"

datatype init_exit = Enters_User_Mode u32 u32 | Runs_Shell_Then_Exits int

definition task_write :: "u32 \<Rightarrow> u32 \<Rightarrow> u32 \<Rightarrow> ('h, 'd) kernel \<Rightarrow> ('h, 'd) kernel option" where
  "task_write esp buf sz k =
     map_option (\<lambda>(_, _, _, s). k\<lparr>k_log := (k_log k)\<lparr>log_console := console s\<rparr>\<rparr>) (lib_write 1 buf sz ([], esp, sys_of k))"

definition init_task ::
  "u32 \<Rightarrow> u32 \<Rightarrow> u32 \<Rightarrow> u32 \<Rightarrow> ('h, 'd) kernel \<Rightarrow> (init_exit \<times> ('h, 'd) kernel) option" where
  "init_task entry banner no_stack esp k =
     Option.bind (task_write esp banner 22 k) (\<lambda>k.
     Option.bind (frame_alloc_contiguous 1 (seen_frames k)) (\<lambda>(stack, fr).
     let k = k\<lparr>k_frames := fr, ram := store_low (fr_mem fr) (ram k)\<rparr> in
     if stack = 0 then
       map_option (\<lambda>k. (Runs_Shell_Then_Exits 1, k)) (task_write esp no_stack 15 k)
     else Some (Enters_User_Mode entry (stack + 4096), k)))"

subsection \<open>System calls of the task\<close>

definition literal :: "memory \<Rightarrow> u32 \<Rightarrow> u8 list \<Rightarrow> bool" where
  "literal m a bs \<longleftrightarrow> user_ptr_ok a (of_nat (length bs)) \<and> stored m a bs"

lemma seen_console [simp]: "memory_of (sys_of k) = virt (ram k)" "console (sys_of k) = log_console (k_log k)"
  by (simp_all add: sys_of_def seen_sched_def)

lemma task_write_ok:
  assumes ok: "kernel_ok k" and lit: "literal (virt (ram k)) buf bs" and len: "unat sz = length bs"
  shows "\<exists>mon. task_write esp buf sz k = Some (k\<lparr>k_log := (k_log k)\<lparr>log_console := mon\<rparr>\<rparr>) \<and>
    kernel_ok (k\<lparr>k_log := (k_log k)\<lparr>log_console := mon\<rparr>\<rparr>) \<and> serial_enabled mon = serial_enabled (log_console (k_log k)) \<and>
    serial_out mon = serial_out (log_console (k_log k)) @ (if serial_enabled (log_console (k_log k)) then bs else [])"
proof -
  have sz: "of_nat (length bs) = sz" using len by (metis of_nat_unat ucast_id)
  have con: "on_screen (log_console (k_log k))" using ok by (simp add: kernel_ok_def sys_inv_def)
  obtain mon where mon: "monitor_write bs (log_console (k_log k)) = Some mon" "on_screen mon"
    "serial_enabled mon = serial_enabled (log_console (k_log k))"
    "serial_out mon = serial_out (log_console (k_log k)) @ (if serial_enabled (log_console (k_log k)) then bs else [])"
    using monitor_write_spec [OF con, of bs] by blast
  have "task_write esp buf sz k = Some (k\<lparr>k_log := (k_log k)\<lparr>log_console := mon\<rparr>\<rparr>)"
    using lit mon(1) stored_map [of "virt (ram k)" buf bs]
    by (simp add: task_write_def literal_def lib_write_def int80_def syscall_handler_def sys_write_def len sz)
  moreover have "kernel_ok (k\<lparr>k_log := (k_log k)\<lparr>log_console := mon\<rparr>\<rparr>)"
    using ok mon(2) by (simp add: kernel_ok_def frames_ok_def sys_inv_def sys_of_def)
  ultimately show ?thesis using mon(3,4) by blast
qed

subsection \<open>The stack of the user\<close>

text \<open>Memory may change outside the bitmap and outside the heap.\<close>

lemma kernel_ok_memory:
  assumes ok: "kernel_ok k" and fr: "frames_ok k'" and eq: "k_sched k' = k_sched k" "k_log k' = k_log k" "k_queue k' = k_queue k"
    and same: "\<And>x. 0x1000000 \<le> x \<Longrightarrow> x < 0x1100000 \<Longrightarrow> ram k' (ad x) = ram k (ad x)"
  shows "kernel_ok k'"
proof -
  have at: "heap_at (heap (seen_sched k))" using ok by (simp add: kernel_ok_def seen_sched_def heap_at_def)
  have "virt (ram k') (ad x) = h_mem (heap (seen_sched k)) (ad x)"
    if "unat (heap_start (heap (seen_sched k))) \<le> x" "x < unat (heap_end (heap (seen_sched k)))" for x
    using heap_window [OF at that] that same at by (simp add: virt_high seen_sched_def heap_at_def)
  from sched_inv_window [OF _ this] have "sched_inv (seen_sched k')"
    using ok eq(1) by (simp add: kernel_ok_def sys_inv_def sys_of_def seen_sched_def)
  then show ?thesis using ok fr eq by (simp add: kernel_ok_def sys_inv_def sys_of_def seen_sched_def)
qed

text \<open>Taking one frame.\<close>

definition one_more :: "frame_state \<Rightarrow> u32 \<Rightarrow> frame_state \<Rightarrow> bool" where
  "one_more s p s' \<longleftrightarrow>
     (if \<exists>f < unat (total_frames s). f \<notin> used_set s then
        \<exists>f < unat (total_frames s). f \<notin> used_set s \<and> unat p = 4096 * f \<and> used_set s' = insert f (used_set s)
      else p = 0 \<and> s' = s)"

lemma alloc_one:
  assumes "frames_wf s"
  shows "\<exists>p s'. frame_alloc_contiguous 1 s = Some (p, s') \<and> one_more s p s'"
proof -
  have run: "free_run s f 1 \<longleftrightarrow> f < unat (total_frames s) \<and> f \<notin> used_set s" for f by (auto simp: free_run_def)
  obtain p s' where al: "frame_alloc_contiguous 1 s = Some (p, s')" and sp: "if \<exists>f. free_run s f (unat (1 :: u32)) then
      \<exists>f. free_run s f (unat (1 :: u32)) \<and> (\<forall>g < f. \<not> free_run s g (unat (1 :: u32))) \<and> unat p = f * 4096 \<and> frames_wf s' \<and>
        used_set s' = used_set s \<union> {f..<f + unat (1 :: u32)}
    else p = 0 \<and> s' = s"
    using contiguous_alloc_spec [OF assms one_neq_zero] by blast
  have "{f..<f + 1} = {f}" for f :: nat by auto
  then have "one_more s p s'"
    using sp unfolding one_more_def unat_1 run by (auto simp: mult.commute [of 4096] simp del: One_nat_def split: if_splits)
  with al show ?thesis by blast
qed

lemma one_frame:
  assumes ok: "kernel_ok k" and alloc: "frame_alloc_contiguous 1 (seen_frames k) = Some (p, fr)"
    and k': "k' = k\<lparr>k_frames := fr, ram := store_low (fr_mem fr) (ram k)\<rparr>"
  shows "kernel_ok k'" "used_set (seen_frames k') = used_set fr"
proof -
  have F: "frames_ok k" and wf: "frames_wf (seen_frames k)" using ok by (simp_all add: kernel_ok_def frames_ok_def)
  note K = contiguous_kept [OF wf _ alloc, simplified]
  have used: "used_set (seen_frames k) \<subseteq> used_set fr"
    using contiguous_alloc_spec [OF wf, of 1] alloc by (auto split: if_splits)
  note B = bitmap_memory [OF F K(2) K(1) used, of k']
  show "used_set (seen_frames k') = used_set fr" by (rule B(2)) (simp_all add: k')
  have "frames_ok k'" by (rule B(1)) (simp_all add: k')
  then show "kernel_ok k'"
    by (rule kernel_ok_memory [OF ok]) (use B(3) in \<open>simp_all add: k'\<close>)
qed

lemma user_page: "f < 0x2000 \<Longrightarrow> i < 4096 \<Longrightarrow> mapped (ad (4096 * f + i)) = Some (ad (4096 * f + i), True)"
  by (simp add: mapped_def word_less_nat_alt unat_ad)

text \<open>What the task writes to its stack later on leaves a kernel sound.\<close>

lemma stack_private:
  assumes ok: "kernel_ok k" and f: "f \<notin> used_set (seen_frames k)" "f < 0x1000 \<or> 0x1100 \<le> f" 
    and ok': "kernel_ok k'" and bm: "frame_bitmap (k_frames k') = frame_bitmap (k_frames k)" "bitmap_words (k_frames k') = bitmap_words (k_frames k)"
    and same: "\<And>a. unat a div 4096 \<noteq> f \<Longrightarrow> m a = ram k' a"
  shows "kernel_ok (k'\<lparr>ram := m\<rparr>)"
proof (rule kernel_ok_memory [OF ok'])
  have F: "frames_ok k'" "frames_ok k" using ok ok' by (simp_all add: kernel_ok_def)
  show "frames_ok (k'\<lparr>ram := m\<rparr>)"
  proof (rule frames_ok_memory [OF F(1), where m = "fr_mem (k_frames k')"])
    fix x assume "in_bitmap (seen_frames k') x"
    then have "in_bitmap (seen_frames k) x" using bm by (simp add: in_bitmap_def seen_frames_def)
    then have "x < 0x1000000" "x div 4096 \<noteq> f" using F(2) f(1) by (auto simp: frames_ok_def)
    then show "ram (k'\<lparr>ram := m\<rparr>) (ad x) = ram k' (ad x)" by (simp add: same unat_ad)
  qed simp
  fix x :: nat assume "0x1000000 \<le> x" "x < 0x1100000"
  then have "x div 4096 \<noteq> f" using f(2) by auto
  with \<open>x < 0x1100000\<close> show "ram (k'\<lparr>ram := m\<rparr>) (ad x) = ram k' (ad x)" by (simp add: same unat_ad)
qed simp_all

subsection \<open>Properties\<close>

text \<open>The literals of \<^verbatim>\<open>init_task\<close>; the count of 22 takes in the terminating zero of the banner.\<close>

definition init_banner :: "u8 list" where
  "init_banner = bytes ''init: starting shell'' @ [10, 0]"

definition no_stack_text :: "u8 list" where
  "no_stack_text = bytes ''init: no stack'' @ [10]"

lemma init_texts [simp]: "length init_banner = 22" "length no_stack_text = 15"
  by (simp_all add: init_banner_def no_stack_text_def)

abbreviation sent :: "('h, 'd) kernel \<Rightarrow> u8 list" where
  "sent k \<equiv> serial_out (log_console (k_log k))"

text \<open>The two ways out, after the banner.\<close>

lemma init_with_frame:
  assumes ok: "kernel_ok k" and banner: "task_write esp banner 22 k = Some (k\<lparr>k_log := lg\<rparr>)" "kernel_ok (k\<lparr>k_log := lg\<rparr>)"
    and al: "frame_alloc_contiguous 1 (seen_frames k) = Some (p, fr)"
    and f: "f \<notin> used_set (seen_frames k)" "unat p = 4096 * f" "used_set fr = insert f (used_set (seen_frames k))"
  shows "\<exists>k'. init_task entry banner no_stack esp k = Some (Enters_User_Mode entry (of_nat (4096 * f) + 4096), k') \<and>
    kernel_ok k' \<and> k_log k' = lg \<and> used_set (seen_frames k') = insert f (used_set (seen_frames k)) \<and>
    (f < 0x1000 \<or> 0x1100 \<le> f \<longrightarrow>
       (\<forall>m. (\<forall>a. unat a div 4096 \<noteq> f \<longrightarrow> m a = ram k' a) \<longrightarrow> kernel_ok (k'\<lparr>ram := m\<rparr>)))"
proof -
  have wf: "frames_wf (seen_frames k)" and zero: "0 \<in> used_set (seen_frames k)" using ok by (simp_all add: kernel_ok_def frames_ok_def)
  define k' where "k' = k\<lparr>k_log := lg, k_frames := fr, ram := store_low (fr_mem fr) (ram k)\<rparr>"
  have K': "kernel_ok k'" "used_set (seen_frames k') = used_set fr"
    using one_frame [OF banner(2), of p fr k'] al by (simp_all add: k'_def)
  have "f \<noteq> 0" using f(1) zero by metis
  then have "unat p \<noteq> 0" using f(2) by simp
  then have p: "p \<noteq> 0" "p = of_nat (4096 * f)" by (metis unat_0) (simp flip: f(2))
  have bm: "frame_bitmap (k_frames k') = frame_bitmap (k_frames k)" "bitmap_words (k_frames k') = bitmap_words (k_frames k)"
    using contiguous_kept(1) [OF wf _ al] by (simp_all add: k'_def kept_def seen_frames_def)
  have "init_task entry banner no_stack esp k = Some (Enters_User_Mode entry (p + 4096), k')"
    using banner(1) al p(1) by (simp add: init_task_def k'_def)
  moreover have "kernel_ok (k'\<lparr>ram := m\<rparr>)" if "f < 0x1000 \<or> 0x1100 \<le> f" "\<forall>a. unat a div 4096 \<noteq> f \<longrightarrow> m a = ram k' a" for m
    by (rule stack_private [OF ok f(1) that(1) K'(1) bm]) (use that(2) in blast)
  moreover have "k_log k' = lg" by (simp add: k'_def)
  ultimately show ?thesis using K' f(3) unfolding p(2) by (intro exI [of _ k']) simp
qed

lemma init_without_frame:
  assumes banner: "task_write esp banner 22 k = Some (k\<lparr>k_log := lg\<rparr>)" "kernel_ok (k\<lparr>k_log := lg\<rparr>)"
    and al: "frame_alloc_contiguous 1 (seen_frames k) = Some (0, seen_frames k)"
    and lit: "literal (virt (ram k)) no_stack no_stack_text"
  shows "\<exists>k'. init_task entry banner no_stack esp k = Some (Runs_Shell_Then_Exits 1, k') \<and> kernel_ok k' \<and>
    used_set (seen_frames k') = used_set (seen_frames k) \<and>
    (serial_enabled (log_console lg) \<longrightarrow> sent k' = serial_out (log_console lg) @ no_stack_text)"
proof -
  define k' where "k' = k\<lparr>k_log := lg, k_frames := seen_frames k, ram := store_low (fr_mem (seen_frames k)) (ram k)\<rparr>"
  have K': "kernel_ok k'" "used_set (seen_frames k') = used_set (seen_frames k)"
    using one_frame [OF banner(2), of 0 "seen_frames k" k'] al by (simp_all add: k'_def)
  have "store_low (fr_mem (seen_frames k)) (ram k) = ram k"
    by (rule ext) (simp add: seen_frames_def store_low_def virt_def mapped_def)
  then have "literal (virt (ram k')) no_stack no_stack_text" using lit by (simp add: k'_def)
  from task_write_ok [OF K'(1) this, of 15 esp] obtain mon where
    mon: "task_write esp no_stack 15 k' = Some (k'\<lparr>k_log := lg\<lparr>log_console := mon\<rparr>\<rparr>)" "kernel_ok (k'\<lparr>k_log := lg\<lparr>log_console := mon\<rparr>\<rparr>)"
    "serial_enabled (log_console lg) \<longrightarrow> serial_out mon = serial_out (log_console lg) @ no_stack_text" by (auto simp: k'_def)
  have "init_task entry banner no_stack esp k = Some (Runs_Shell_Then_Exits 1, k'\<lparr>k_log := lg\<lparr>log_console := mon\<rparr>\<rparr>)"
    using banner(1) al mon(1) by (simp add: init_task_def k'_def)
  with mon K'(2) show ?thesis by (intro exI [of _ "k'\<lparr>k_log := lg\<lparr>log_console := mon\<rparr>\<rparr>"]) simp
qed

text \<open>
  C10. The first task, on every sound state of the kernel: \<^verbatim>\<open>init_task\<close> always gives up the
  processor and leaves a sound state. If some frame is free it calls \<^verbatim>\<open>enter_user_mode\<close> with
  \<^verbatim>\<open>user_shell_entry\<close> and the top of a frame that nobody used, which is marked as used and, below
  32 MB, is accessible to the user; unless that frame lies in the 1 MB that the kernel heap
  occupies, whatever is stored in it later keeps the kernel sound. If no frame is free it reports
  this and goes on with the shell of the kernel, and the frames are as before. What goes to the
  serial line is the banner with its terminating zero, then the report.
\<close>

theorem init_task_enters_user_mode:
  assumes ok: "kernel_ok k" and lits: "literal (virt (ram k)) banner init_banner" "literal (virt (ram k)) no_stack no_stack_text"
  shows "\<exists>r k'. init_task entry banner no_stack esp k = Some (r, k') \<and> kernel_ok k' \<and>
    (if \<exists>f < unat (total_frames (k_frames k)). f \<notin> used_set (seen_frames k) then
       (serial_enabled (log_console (k_log k)) \<longrightarrow> sent k' = sent k @ init_banner) \<and>
       (\<exists>f < unat (total_frames (k_frames k)). f \<notin> used_set (seen_frames k) \<and>
         r = Enters_User_Mode entry (of_nat (4096 * f) + 4096) \<and> used_set (seen_frames k') = insert f (used_set (seen_frames k)) \<and>
         (f < 0x2000 \<longrightarrow> (\<forall>i < 4096. mapped (ad (4096 * f + i)) = Some (ad (4096 * f + i), True))) \<and>
         (f < 0x1000 \<or> 0x1100 \<le> f \<longrightarrow>
            (\<forall>m. (\<forall>a. unat a div 4096 \<noteq> f \<longrightarrow> m a = ram k' a) \<longrightarrow> kernel_ok (k'\<lparr>ram := m\<rparr>))))
     else (serial_enabled (log_console (k_log k)) \<longrightarrow> sent k' = sent k @ init_banner @ no_stack_text) \<and>
       r = Runs_Shell_Then_Exits 1 \<and> used_set (seen_frames k') = used_set (seen_frames k))"
proof -
  obtain mon where mon: "task_write esp banner 22 k = Some (k\<lparr>k_log := (k_log k)\<lparr>log_console := mon\<rparr>\<rparr>)"
    "kernel_ok (k\<lparr>k_log := (k_log k)\<lparr>log_console := mon\<rparr>\<rparr>)"
    "serial_enabled mon = serial_enabled (log_console (k_log k))" "serial_enabled mon \<longrightarrow> serial_out mon = sent k @ init_banner"
    using task_write_ok [OF ok lits(1), of 22 esp] by auto
  have wf: "frames_wf (seen_frames k)" using ok by (simp add: kernel_ok_def frames_ok_def)
  obtain p fr where al: "frame_alloc_contiguous 1 (seen_frames k) = Some (p, fr)" and sp: "one_more (seen_frames k) p fr"
    using alloc_one [OF wf] by blast
  show ?thesis
  proof (cases "\<exists>f < unat (total_frames (k_frames k)). f \<notin> used_set (seen_frames k)")
    case True
    then obtain f where f: "f < unat (total_frames (k_frames k))" "f \<notin> used_set (seen_frames k)" "unat p = 4096 * f"
      "used_set fr = insert f (used_set (seen_frames k))"
      using sp by (auto simp: one_more_def seen_frames_def)
    obtain k' where k': "init_task entry banner no_stack esp k = Some (Enters_User_Mode entry (of_nat (4096 * f) + 4096), k')"
      "kernel_ok k'" "k_log k' = (k_log k)\<lparr>log_console := mon\<rparr>" "used_set (seen_frames k') = insert f (used_set (seen_frames k))"
      "f < 0x1000 \<or> 0x1100 \<le> f \<longrightarrow>
        (\<forall>m. (\<forall>a. unat a div 4096 \<noteq> f \<longrightarrow> m a = ram k' a) \<longrightarrow> kernel_ok (k'\<lparr>ram := m\<rparr>))"
      using init_with_frame [OF ok mon(1,2) al f(2-4)] by blast
    have "serial_enabled (log_console (k_log k)) \<longrightarrow> sent k' = sent k @ init_banner" using mon(3,4) k'(3) by simp
    with True f(1,2) k' user_page show ?thesis
      by (intro exI [of _ "Enters_User_Mode entry (of_nat (4096 * f) + 4096)"] exI [of _ k'])
        (simp only: if_True, intro conjI exI [of _ f], simp_all)
  next
    case False
    then have "p = 0" "fr = seen_frames k" using sp by (auto simp: one_more_def seen_frames_def)
    with init_without_frame [OF mon(1,2) _ lits(2)] al obtain k' where
      "init_task entry banner no_stack esp k = Some (Runs_Shell_Then_Exits 1, k')" "kernel_ok k'"
      "used_set (seen_frames k') = used_set (seen_frames k)" "serial_enabled mon \<longrightarrow> sent k' = serial_out mon @ no_stack_text"
      by auto
    with mon(3,4) False show ?thesis
      by (intro exI [of _ "Runs_Shell_Then_Exits 1"] exI [of _ k']) simp
  qed
qed

text \<open>A kernel with a new heap, four frames of which three are free, and the literals in page 1.\<close>

definition init_frames :: frame_state where
  "init_frames = \<lparr>fr_mem = store32 (\<lambda>_. 0) 0x800 0xFFFFFFF1, frame_bitmap = 0x800,
     total_frames = 4, used_frames = 1, bitmap_words = 1, placement_addr = 0x1000\<rparr>"

lemma init_frames_used: "used_set init_frames = {0}"
  unfolding used_set_exec by code_simp

lemma init_frames_wf: "frames_wf init_frames"
proof -
  have "length (filter (used_at init_frames) [0..<unat (total_frames init_frames)]) = 1"
    "list_all (used_at init_frames) [unat (total_frames init_frames)..<32 * unat (bitmap_words init_frames)]"
    by code_simp+
  then show ?thesis unfolding frames_wf_exec by (simp add: init_frames_def)
qed

definition init_memory :: memory where
  "init_memory a =
     (let x = unat a in
      if 0x1000 \<le> x \<and> x < 0x1016 then init_banner ! (x - 0x1000)
      else if 0x1020 \<le> x \<and> x < 0x102F then no_stack_text ! (x - 0x1020)
      else fr_mem init_frames a)"

definition init_heap :: heap_state where
  "init_heap = heap_init 0xC1000000 (1024 * 1024) ((heap sched_boot)\<lparr>h_mem := virt init_memory\<rparr>)"

definition init_kernel :: "(u32, unit) kernel" where
  "init_kernel = demo_kernel\<lparr>ram := store_high (h_mem init_heap) init_memory, k_frames := init_frames,
     k_sched := scheduler_init (sched_boot\<lparr>heap := init_heap\<rparr>)\<rparr>"

lemma init_kernel_byte: "x < 0x1000000 \<Longrightarrow> virt (ram init_kernel) (ad x) = init_memory (ad x)"
  by (simp add: virt_low init_kernel_def store_high_low init_heap_def heap_init_below virt_high)

lemma init_kernel_frames:
  "frames_ok init_kernel" "used_set (seen_frames init_kernel) = {0}" "unat (total_frames (k_frames init_kernel)) = 4"
proof -
  have bm: "x < 4096" if "in_bitmap init_frames x" for x using that by (simp add: in_bitmap_def init_frames_def)
  have mem: "virt (ram init_kernel) (ad x) = fr_mem init_frames (ad x)" if "in_bitmap init_frames x" for x
    using bm [OF that] by (simp add: init_kernel_byte init_memory_def unat_ad)
  have eq: "seen_frames init_kernel = init_frames\<lparr>fr_mem := virt (ram init_kernel)\<rparr>"
    by (simp add: seen_frames_def init_kernel_def)
  have "in_bitmap (seen_frames init_kernel) x = in_bitmap init_frames x" for x by (simp add: eq in_bitmap_def)
  then show "frames_ok init_kernel" "used_set (seen_frames init_kernel) = {0}" "unat (total_frames (k_frames init_kernel)) = 4"
    using frames_mem_cong [OF init_frames_wf mem] bm init_frames_used eq
    by (fastforce simp: frames_ok_def init_kernel_def init_frames_def)+
qed

lemma init_kernel_ok: "kernel_ok init_kernel"
proof -
  have "sched_fresh init_kernel"
    by (rule fresh_heap [OF init_heap_def, where s = sched_boot and m = init_memory])
      (simp_all add: init_kernel_def sched_boot_def scheduler_init_def)
  then show ?thesis
    using init_kernel_frames(1) blank_monitor_on_screen
    by (simp add: kernel_ok_def sched_fresh_def sys_inv_def sys_of_def seen_sched_def heap_at_def
        init_kernel_def demo_kernel_def ipc_static_def ipc_wf_def ring_wf_def)
qed

lemma init_kernel_literals:
  "literal (virt (ram init_kernel)) 0x1000 init_banner" "literal (virt (ram init_kernel)) 0x1020 no_stack_text"
proof -
  have at: "0x1000 + of_nat i = ad (0x1000 + i)" "0x1020 + of_nat i = ad (0x1020 + i)" for i by (simp_all add: ad_def)
  have "virt (ram init_kernel) (0x1000 + of_nat i) = init_banner ! i" if "i < 22" for i
    unfolding at using that by (subst init_kernel_byte) (simp_all add: init_memory_def unat_ad)
  moreover have "virt (ram init_kernel) (0x1020 + of_nat i) = no_stack_text ! i" if "i < 15" for i
    unfolding at using that by (subst init_kernel_byte) (simp_all add: init_memory_def unat_ad)
  ultimately show "literal (virt (ram init_kernel)) 0x1000 init_banner" "literal (virt (ram init_kernel)) 0x1020 no_stack_text"
    by (simp_all add: literal_def stored_def user_ptr_ok_iff)
qed

theorem init_task_enters_user_mode_witness:
  "\<exists>f k'. init_task 0x100000 0x1000 0x1020 0xC1000FD4 init_kernel = Some (Enters_User_Mode 0x100000 (of_nat (4096 * f) + 4096), k') \<and>
     0 < f \<and> f < 4 \<and> kernel_ok k' \<and> used_set (seen_frames k') = {f, 0}"
proof -
  note F = init_kernel_frames(2,3)
  have "\<exists>f < unat (total_frames (k_frames init_kernel)). f \<notin> used_set (seen_frames init_kernel)"
    unfolding F by (rule exI [of _ 1]) simp
  with init_task_enters_user_mode [OF init_kernel_ok init_kernel_literals, of "0x100000" "0xC1000FD4"]
  obtain f k' where R: "init_task 0x100000 0x1000 0x1020 0xC1000FD4 init_kernel =
      Some (Enters_User_Mode 0x100000 (of_nat (4096 * f) + 4096), k')" "kernel_ok k'"
    "f < 4" "f \<notin> {0}" "used_set (seen_frames k') = insert f {0}"
    unfolding F by (simp only: if_True) blast
  then show ?thesis by auto
qed

text \<open>
  The stack pointer that \<^verbatim>\<open>iret\<close> loads is not the one passed to \<^verbatim>\<open>enter_user_mode\<close>: for the top of
  a frame it never is, and it lies at the beginning of the surrounding 64 KB.
\<close>

theorem enter_user_mode_stack:
  assumes "user_stack AND 0xFFF = 0"
  shows "enter_user_mode eflags entry user_stack ! 3 \<noteq> user_stack"
    and "enter_user_mode eflags entry user_stack ! 3 AND 0xFFFF = 0x23"
proof -
  have d: "((user_stack AND 0xFFFF0000) OR 0x23) AND k = (user_stack AND (0xFFFF0000 AND k)) OR (0x23 AND k)" for k
    by (simp add: bit.conj_disj_distrib2 and.assoc)
  show "enter_user_mode eflags entry user_stack ! 3 AND 0xFFFF = 0x23"
    using d [of "0xFFFF"] by (simp add: enter_user_mode_def)
  show "enter_user_mode eflags entry user_stack ! 3 \<noteq> user_stack"
    using d [of "0xFFF"] assms by (auto simp: enter_user_mode_def)
qed

end
