(* ===== verification/Spec2Isabelle.thy ===== *)
theory Spec2Isabelle
  imports Ipc Input_Queue Keyboard_Buffer Libc Frame_Regions Scheduler_Properties
    Monitor Kprintf Keyboard Syscalls Ramfs_Properties Fat_Round_Trip
    Elf_Properties Interrupts Mouse Ata Paging Shell_Properties Rtl8139 Frame_Init Multiboot Panic User_Shell Init_Task
begin

text \<open>
  A verification library for the Learning-OS kernel, a 32-bit x86 kernel in C. The theories
  translate the C functions definition by definition, on machine words of their widths, and
  prove what makes each component correct. Paths below are relative to the source tree.

  \<^bold>\<open>The program.\<close> At start-up \<^verbatim>\<open>core/kernel.c\<close> fills the descriptor tables, initialises the
  queues, the file systems, the frame allocator, paging, the heap, the scheduler and the
  drivers, and starts the first task. From then on everything is driven by interrupts: the
  timer asks the scheduler for a switch, the keyboard, serial line and mouse feed their
  queues, and \<^verbatim>\<open>int 0x80\<close> enters the system call handler, which reads the queues, writes the
  console and ends tasks. The RAM file system takes its blocks from the heap; the FAT file
  system works on a storage device that the ATA driver provides.

  \<^bold>\<open>Modelling.\<close> \<open>u8\<close>, \<open>u16\<close>, \<open>u32\<close> and \<open>u64\<close> are words, so that every sum wraps as in C.
  Memory is a total function from addresses to bytes (\<open>Machine_Memory\<close>), and structures that
  the code reaches through computed pointers (heap blocks, the frame bitmap, the multiboot
  map, ELF images, interrupt frames) are loads and stores on it; structures in static arrays
  are records and lists, a pointer into such an array being an index. Loops whose end depends
  on the contents of memory or of a disk are \<^verbatim>\<open>partial_function (option)\<close>, where \<open>None\<close> is
  not returning; the properties about them state that they return. All other loops are total
  functions with a measure. There is no fuel. Hardware is a parameter: \<open>Ports\<close> has an
  arbitrary state behind the ports, \<open>Storage\<close> devices carry arbitrary read and write
  functions, and input arrives as explicit lists of characters.

  \<^bold>\<open>Shared theories.\<close> \<open>Kernel_Prelude\<close>: types, fact collections and word arithmetic.
  \<open>Machine_Memory\<close>: loads, stores and their framing. \<open>Libc\<close> (\<^verbatim>\<open>lib/libc.c\<close>): \<open>memcpy\<close> copies
  and \<open>strcmp\<close> is the lexicographic order. \<open>Ports\<close> (\<^verbatim>\<open>include/common.h\<close>).

  \<^bold>\<open>Interfaces.\<close> \<open>bounded_fifo\<close> (\<open>Bounded_Fifo\<close>) is the contract of the three ring buffers;
  order and loss are proved once and used by \<open>Ipc\<close> (\<^verbatim>\<open>proc/ipc.c\<close>), \<open>Input_Queue\<close>
  (\<^verbatim>\<open>lib/input.c\<close>) and \<open>Keyboard_Buffer\<close> (\<^verbatim>\<open>drivers/keyboard_buffer.c\<close>), each of which
  interprets it. \<open>frame_pool\<close> (\<open>Frame_Pool\<close>) is the contract of frame allocation, interpreted
  in \<open>Frame_Allocator\<close>. \<open>block_allocator\<close> and its extension \<open>region_allocator\<close>
  (\<open>Heap_Interface\<close>) are the contract of the heap towards the scheduler and the RAM file
  system, interpreted in \<open>Kernel_Heap\<close> and \<open>Heap_Region\<close>.

  \<^bold>\<open>Memory management.\<close> \<open>Frame_Allocator\<close>, \<open>Frame_Regions\<close> and \<open>Frame_Init\<close>
  (\<^verbatim>\<open>mm/memory.c\<close>): single and contiguous allocation return the lowest free frame or run and
  mark exactly it; a request succeeds exactly when it is at most the largest free run; what
  rounding does to regions; which frames are free after initialisation from a memory map.
  \<open>Kernel_Heap\<close>, \<open>Heap_Properties\<close> (\<^verbatim>\<open>mm/heap.c\<close>): the block list as an abstract list of
  blocks; \<open>kmalloc\<close> and \<open>kfree\<close> return, keep it well formed, keep live blocks disjoint and
  their contents unchanged, and leave no two adjacent free blocks. \<open>Paging\<close>
  (\<^verbatim>\<open>mm/paging.c\<close>): the address translation the tables give the processor.

  \<^bold>\<open>Tasks.\<close> \<open>Task_Context\<close> (\<^verbatim>\<open>proc/task.c\<close> and the frame of \<^verbatim>\<open>asm/interrupt.s\<close>), \<open>Scheduler\<close>
  and \<open>Scheduler_Properties\<close> (\<^verbatim>\<open>proc/scheduler.c\<close>, \<^verbatim>\<open>drivers/timer.c\<close>): a step relation over
  the operations and the computation between them; its invariant, that a new task starts at
  its entry, that every runnable task runs within a bounded number of yields, and that an
  exit code is delivered once. \<open>Syscalls\<close> (\<^verbatim>\<open>proc/syscall.c\<close>): every system call with any
  registers keeps the invariants of the components and kernel memory. \<open>User_Shell\<close>
  (\<^verbatim>\<open>user/userlib.c\<close>, \<^verbatim>\<open>user/user_shell.c\<close>): a session of the user shell over the system
  calls answers every line and keeps the kernel invariant.

  \<^bold>\<open>Devices and console.\<close> \<open>Monitor\<close> (\<^verbatim>\<open>lib/monitor.c\<close>, \<^verbatim>\<open>drivers/serial.c\<close>), \<open>Kprintf\<close>
  (\<^verbatim>\<open>lib/kprintf.c\<close>): formatting refines an abstract rendering of directives. \<open>Keyboard\<close>
  (\<^verbatim>\<open>drivers/keyboard.c\<close>), \<open>Mouse\<close> (\<^verbatim>\<open>drivers/mouse.c\<close>), \<open>Descriptor_Tables\<close>
  (\<^verbatim>\<open>interrupt/idt.c\<close>, \<^verbatim>\<open>interrupt/gdt.c\<close>, \<^verbatim>\<open>drivers/pic.c\<close>, \<^verbatim>\<open>drivers/pit.c\<close>), \<open>Interrupts\<close>
  (\<^verbatim>\<open>interrupt/irq.c\<close>), \<open>Ata\<close> (\<^verbatim>\<open>drivers/ata.c\<close>), \<open>Pci\<close> and \<open>Rtl8139\<close> (\<^verbatim>\<open>net/\<close>): the bus scan
  finds the first matching function, and sending stays inside the transmit frame. \<open>Logger\<close>
  (\<^verbatim>\<open>lib/logger.c\<close>), \<open>Panic\<close> (\<^verbatim>\<open>lib/panic.c\<close>) and \<open>Multiboot\<close> (\<^verbatim>\<open>boot/multiboot.c\<close>,
  \<^verbatim>\<open>boot/smp.c\<close>): what the log, the crash report and the boot report print.

  \<^bold>\<open>File systems and programs.\<close> \<open>Vfs\<close> (\<^verbatim>\<open>fs/vfs.c\<close>): path resolution refines a walk along the
  components. \<open>Ramfs\<close>, \<open>Ramfs_Files\<close>, \<open>Ramfs_Directory\<close>, \<open>Ramfs_Properties\<close>
  (\<^verbatim>\<open>fs/ramfs.c\<close>): the invariant that ties nodes to heap blocks, contents after writes,
  creation and removal. \<open>Storage\<close> (\<^verbatim>\<open>fs/storage.c\<close>), \<open>Fat\<close>, \<open>Fat_Properties\<close>
  (\<^verbatim>\<open>fs/fat.c\<close>): freeing a chain terminates on every table, the search for free clusters
  finds the lowest run; \<open>Fat_Files\<close>, \<open>Fat_Directory\<close>, \<open>Fat_Volume\<close> and \<open>Fat_Round_Trip\<close>: the
  bytes of a cluster chain, the slots of the root directory, the invariant of a volume, and the
  theorem that a write changes what is read for its own file and for no other. \<open>Elf\<close>, \<open>Elf_Properties\<close>
  (\<^verbatim>\<open>user/elf.c\<close>): loading places the segments of the image. \<open>Shell_Parser\<close>, \<open>Shell\<close> and
  \<open>Shell_Properties\<close> (\<^verbatim>\<open>user/shell.c\<close>): the in-place line parser refines an abstract
  tokenizer, every command returns and keeps the invariant of the session, \<^verbatim>\<open>cat\<close> prints the
  file. The endless loops of the two shells are functions of the number of rounds, so that a
  property speaks of every prefix of a session.

  \<^bold>\<open>Start-up.\<close> \<open>Kernel_Start\<close> (\<^verbatim>\<open>core/kernel.c\<close>) composes the parts: the state holds one physical
  memory and the static variables of all of them, and each part runs on what the page tables
  show of that memory. \<open>Kernel_Start_Properties\<close>: every stage returns and establishes its share
  of \<open>kernel_ok\<close>, the joint invariant of frames, heap, scheduler, queue and console, in spite of
  the two mappings of the same frames; the first task starts at \<^verbatim>\<open>init_task\<close>. \<open>Init_Task\<close>
  (\<^verbatim>\<open>core/init.c\<close>, \<^verbatim>\<open>asm/usermode.s\<close>): the banner, the frame for the user stack, what storing in it
  leaves alone, and the stack pointer user mode really gets.

  \<^bold>\<open>Not modelled.\<close> Boot code, the entry half of the interrupt stubs and the task switch
  in assembly, the loading of control registers, interrupt enabling and \<^verbatim>\<open>hlt\<close> have no
  semantics here; interrupts are explicit steps of the scheduler and explicit calls of the
  handlers, and none arrives during start-up. Log messages are left out of the functions that
  print them, other than the boot report; where \<^verbatim>\<open>kernel_main\<close> runs such functions their output
  is an argument. What \<^verbatim>\<open>kernel_main\<close> and \<^verbatim>\<open>init_task\<close> do once \<^verbatim>\<open>scheduler_start\<close> or the user
  shell has returned is the shell of \<open>Shell\<close> and not composed with them.
\<close>

end
